(* ===== verification/Redis_Prelude.thy ===== *)
theory Redis_Prelude
  imports Main "HOL-Library.Word" "HOL-Library.Monad_Syntax" "HOL-Library.Sublist"
begin

text \<open>
  Shared vocabulary of the development: the machine types of the C sources, byte sequences and
  their little-endian integer codecs, and a small model of a heap block.

  A heap block is a \<open>mem\<close>: a list of bytes in which \<^term>\<open>None\<close> is a byte that was allocated
  and never written. Every access is checked, and the result \<^term>\<open>None\<close> of an access stands
  for undefined behaviour (an access out of the block, or a read of an uninitialised byte), so a
  theorem that an operation returns \<^term>\<open>Some\<close> is at the same time a memory-safety theorem.
\<close>

unbundle bit_operations_syntax

section \<open>Machine types\<close>

type_synonym u8 = "8 word"
type_synonym u16 = "16 word"
type_synonym u32 = "32 word"
type_synonym u64 = "64 word"
type_synonym bytes = "u8 list"
type_synonym mem = "u8 option list"

text \<open>The bytes of a C string literal.\<close>

definition ascii :: "string \<Rightarrow> bytes" where
  "ascii s = map (of_nat \<circ> of_char) s"

text \<open>\<open>int64_t\<close> and \<open>long long\<close> values are integers in this range.\<close>

abbreviation INT64_MIN :: int where "INT64_MIN \<equiv> - 9223372036854775808"
abbreviation INT64_MAX :: int where "INT64_MAX \<equiv> 9223372036854775807"

definition is_int64 :: "int \<Rightarrow> bool" where
  "is_int64 v \<longleftrightarrow> INT64_MIN \<le> v \<and> v \<le> INT64_MAX"

named_theorems mem_simps \<open>equations of the checked memory accesses\<close>
named_theorems codec_simps \<open>equations of the byte codecs\<close>

section \<open>Little-endian integers\<close>

text \<open>The \<open>n\<close> bytes of the two's complement representation of \<open>v\<close>, least significant first.\<close>

definition le_enc :: "nat \<Rightarrow> int \<Rightarrow> bytes" where
  "le_enc n v = map (\<lambda>i. word_of_int (v div 2 ^ (8 * i))) [0..<n]"

fun le_udec :: "bytes \<Rightarrow> int" where
  "le_udec [] = 0"
| "le_udec (b # bs) = uint b + 256 * le_udec bs"

definition le_sdec :: "bytes \<Rightarrow> int" where
  "le_sdec bs = signed_take_bit (8 * length bs - 1) (le_udec bs)"

lemma length_le_enc [simp]: "length (le_enc n v) = n"
  by (simp add: le_enc_def)

lemma le_enc_0 [simp]: "le_enc 0 v = []"
  by (simp add: le_enc_def)

lemma le_enc_Suc [codec_simps]: "le_enc (Suc n) v = word_of_int v # le_enc n (v div 256)"
  unfolding le_enc_def
  by (simp add: upt_conv_Cons map_Suc_upt [symmetric] comp_def power_add zdiv_zmult2_eq mult.commute
      del: upt_Suc)

lemma le_udec_enc [codec_simps]: "le_udec (le_enc n v) = v mod 2 ^ (8 * n)"
proof (induction n arbitrary: v)
  case 0
  then show ?case by simp
next
  case (Suc n)
  have "le_udec (le_enc (Suc n) v) = v mod 256 + 256 * ((v div 256) mod 2 ^ (8 * n))"
    by (simp add: le_enc_Suc Suc.IH uint_word_of_int take_bit_eq_mod)
  also have "\<dots> = v mod (256 * 2 ^ (8 * n))"
    by (simp add: zmod_zmult2_eq)
  finally show ?case by (simp add: power_add)
qed

lemma le_udec_nonneg: "0 \<le> le_udec bs"
  by (induction bs) auto

lemma le_udec_bound: "le_udec bs < 2 ^ (8 * length bs)"
proof (induction bs)
  case Nil
  then show ?case by simp
next
  case (Cons b bs)
  have "uint b < 256" using uint_lt2p [of b] by simp
  with Cons show ?case by (simp add: power_add)
qed

lemma le_enc_udec [codec_simps]: "le_enc (length bs) (le_udec bs) = bs"
proof (induction bs)
  case Nil
  then show ?case by simp
next
  case (Cons b bs)
  have "uint b < 256" using uint_lt2p [of b] by simp
  then have "(uint b + 256 * le_udec bs) div 256 = le_udec bs"
    by simp
  moreover have "word_of_int (uint b + 256 * le_udec bs) = b"
  proof -
    have "(word_of_int (uint b + 256 * le_udec bs) :: u8) = word_of_int (uint b) + word_of_int (256 * le_udec bs)"
      by (simp only: of_int_add)
    also have "(word_of_int (256 * le_udec bs) :: u8) = 0"
      by transfer (simp add: take_bit_eq_mod)
    finally show ?thesis by simp
  qed
  ultimately show ?case
    using Cons by (simp add: le_enc_Suc)
qed

text \<open>A value that fits into \<open>n\<close> signed bytes is read back unchanged.\<close>

definition fits :: "nat \<Rightarrow> int \<Rightarrow> bool" where
  "fits n v \<longleftrightarrow> - (2 ^ (8 * n - 1)) \<le> v \<and> v < 2 ^ (8 * n - 1)"

lemma le_sdec_enc [codec_simps]: "0 < n \<Longrightarrow> fits n v \<Longrightarrow> le_sdec (le_enc n v) = v"
proof -
  assume "0 < n" and "fits n v"
  then have "\<not> 8 * n \<le> 8 * n - 1" by simp
  with \<open>fits n v\<close> show ?thesis
    by (simp add: le_sdec_def le_udec_enc take_bit_eq_mod [symmetric] signed_take_bit_take_bit
        signed_take_bit_int_eq_self_iff fits_def)
qed

lemma fits_mono: "fits n v \<Longrightarrow> n \<le> m \<Longrightarrow> fits m v"
proof -
  assume "fits n v" and "n \<le> m"
  moreover from \<open>n \<le> m\<close> have "(2::int) ^ (8 * n - 1) \<le> 2 ^ (8 * m - 1)"
    by (intro power_increasing) auto
  ultimately show ?thesis unfolding fits_def by linarith
qed

lemma fits_8_int64 [simp]: "fits 8 v = is_int64 v"
  by (auto simp: fits_def is_int64_def)

section \<open>Heap blocks\<close>

definition rd :: "nat \<Rightarrow> nat \<Rightarrow> mem \<Rightarrow> bytes option" where
  "rd off n m = (if off + n \<le> length m then those (take n (drop off m)) else None)"

definition wr :: "nat \<Rightarrow> bytes \<Rightarrow> mem \<Rightarrow> mem option" where
  "wr off bs m = (if off + length bs \<le> length m
     then Some (take off m @ map Some bs @ drop (off + length bs) m) else None)"

definition memmove :: "nat \<Rightarrow> nat \<Rightarrow> nat \<Rightarrow> mem \<Rightarrow> mem option" where
  "memmove dst src n m = (if src + n \<le> length m \<and> dst + n \<le> length m
     then Some (take dst m @ take n (drop src m) @ drop (dst + n) m) else None)"

definition realloc_mem :: "nat \<Rightarrow> mem \<Rightarrow> mem" where
  "realloc_mem n m = take n m @ replicate (n - length m) None"

lemma those_map_Some [simp]: "those (map Some xs) = Some xs"
  by (induction xs) auto

lemma those_Some_iff: "those xs = Some ys \<longleftrightarrow> xs = map Some ys"
proof (induction xs arbitrary: ys)
  case Nil
  then show ?case by auto
next
  case (Cons x xs)
  then show ?case by (cases x; cases ys) auto
qed

lemma length_realloc_mem [simp]: "length (realloc_mem n m) = n"
  by (simp add: realloc_mem_def)

lemma rd_Some [mem_simps]:
  "off + n \<le> length m \<Longrightarrow> take n (drop off m) = map Some bs \<Longrightarrow> rd off n m = Some bs"
  by (simp add: rd_def)

lemma rd_mid [mem_simps]: "off = length a \<Longrightarrow> n = length bs \<Longrightarrow> rd off n (a @ map Some bs @ c) = Some bs"
  by (simp add: rd_def)

lemma wr_mid [mem_simps]:
  "off = length a \<Longrightarrow> length bs = length b \<Longrightarrow> wr off bs (a @ b @ c) = Some (a @ map Some bs @ c)"
  by (simp add: wr_def)

lemma wr_length: "wr off bs m = Some m' \<Longrightarrow> length m' = length m"
  by (auto simp: wr_def split: if_splits)

section \<open>Lists\<close>

lemma length_concat_const: "(\<And>x. x \<in> set xs \<Longrightarrow> length (f x) = k) \<Longrightarrow> length (concat (map f xs)) = length xs * k"
  by (induction xs) auto

lemma take_concat_const:
  "(\<And>x. x \<in> set xs \<Longrightarrow> length (f x) = k) \<Longrightarrow> n \<le> length xs \<Longrightarrow>
   take (n * k) (concat (map f xs)) = concat (map f (take n xs))"
proof (induction xs arbitrary: n)
  case Nil
  then show ?case by simp
next
  case (Cons x xs)
  then show ?case by (cases n) auto
qed

lemma drop_concat_const:
  "(\<And>x. x \<in> set xs \<Longrightarrow> length (f x) = k) \<Longrightarrow> n \<le> length xs \<Longrightarrow>
   drop (n * k) (concat (map f xs)) = concat (map f (drop n xs))"
proof (induction xs arbitrary: n)
  case Nil
  then show ?case by simp
next
  case (Cons x xs)
  then show ?case by (cases n) auto
qed

section \<open>Arrays\<close>

text \<open>A checked array read: \<^term>\<open>None\<close> is a read out of range.\<close>

definition nth_opt :: "'a list \<Rightarrow> nat \<Rightarrow> 'a option" where
  "nth_opt xs i = (if i < length xs then Some (xs ! i) else None)"

lemma nth_opt_Some [simp]: "i < length xs \<Longrightarrow> nth_opt xs i = Some (xs ! i)"
  by (simp add: nth_opt_def)

lemma nth_opt_eq_Some: "nth_opt xs i = Some x \<longleftrightarrow> i < length xs \<and> xs ! i = x"
  by (auto simp: nth_opt_def)

lemma concat_update:
  "i < length xss \<Longrightarrow> concat (xss[i := ys]) = concat (take i xss) @ ys @ concat (drop (Suc i) xss)"
  by (simp add: upd_conv_take_nth_drop)

lemma concat_nth_split:
  "i < length xss \<Longrightarrow> concat xss = concat (take i xss) @ xss ! i @ concat (drop (Suc i) xss)"
  by (metis concat.simps(2) concat_append id_take_nth_drop)

end
