(* ===== verification/Set_Iface.thy ===== *)
theory Set_Iface
  imports Redis_Prelude
begin

text \<open>
  The contract between a set representation and the code that uses it (\<^verbatim>\<open>t_set.c\<close> calls
  the integer set and the hash table through such operations): \<open>add\<close> and \<open>remove\<close> return the new
  representation and a success flag, \<open>isin\<close> a flag, and \<^term>\<open>None\<close> is undefined behaviour.
  A representation has a capacity \<open>cap\<close> up to which its laws hold.
\<close>

datatype 'a set_op = Add 'a | Rem 'a | Isin 'a

text \<open>Running a sequence of operations on a representation, and on a mathematical set.\<close>

fun run_ops :: "('s \<Rightarrow> 'a \<Rightarrow> ('s \<times> bool) option) \<Rightarrow> ('s \<Rightarrow> 'a \<Rightarrow> ('s \<times> bool) option) \<Rightarrow>
    ('s \<Rightarrow> 'a \<Rightarrow> bool option) \<Rightarrow> 's \<Rightarrow> 'a set_op list \<Rightarrow> ('s \<times> bool list) option" where
  "run_ops add remove isin s [] = Some (s, [])"
| "run_ops add remove isin s (op # ops) =
     do {
       (s', b) \<leftarrow> (case op of Add x \<Rightarrow> add s x | Rem x \<Rightarrow> remove s x
                   | Isin x \<Rightarrow> map_option (Pair s) (isin s x));
       (s'', bs) \<leftarrow> run_ops add remove isin s' ops;
       Some (s'', b # bs)
     }"

fun spec_ops :: "'a set \<Rightarrow> 'a set_op list \<Rightarrow> 'a set \<times> bool list" where
  "spec_ops A [] = (A, [])"
| "spec_ops A (Add x # ops) = (let (B, bs) = spec_ops (insert x A) ops in (B, (x \<notin> A) # bs))"
| "spec_ops A (Rem x # ops) = (let (B, bs) = spec_ops (A - {x}) ops in (B, (x \<in> A) # bs))"
| "spec_ops A (Isin x # ops) = (let (B, bs) = spec_ops A ops in (B, (x \<in> A) # bs))"

fun op_arg :: "'a set_op \<Rightarrow> 'a" where
  "op_arg (Add x) = x"
| "op_arg (Rem x) = x"
| "op_arg (Isin x) = x"

locale bounded_set =
  fixes empty :: 's
    and add :: "'s \<Rightarrow> 'a \<Rightarrow> ('s \<times> bool) option"
    and remove :: "'s \<Rightarrow> 'a \<Rightarrow> ('s \<times> bool) option"
    and isin :: "'s \<Rightarrow> 'a \<Rightarrow> bool option"
    and elems :: "'s \<Rightarrow> 'a set"
    and inv :: "'s \<Rightarrow> bool"
    and ok :: "'a \<Rightarrow> bool"
    and cap :: nat
  assumes empty_inv: "inv empty" and empty_elems: "elems empty = {}"
    and elems_finite: "inv s \<Longrightarrow> finite (elems s)"
    and add_law: "inv s \<Longrightarrow> ok x \<Longrightarrow> Suc (card (elems s)) < cap \<Longrightarrow>
      \<exists>s'. add s x = Some (s', x \<notin> elems s) \<and> inv s' \<and> elems s' = insert x (elems s)"
    and remove_law: "inv s \<Longrightarrow> ok x \<Longrightarrow>
      \<exists>s'. remove s x = Some (s', x \<in> elems s) \<and> inv s' \<and> elems s' = elems s - {x}"
    and isin_law: "inv s \<Longrightarrow> ok x \<Longrightarrow> isin s x = Some (x \<in> elems s)"
begin

text \<open>Any sequence of operations that stays below the capacity behaves as on the abstract set.\<close>

lemma run_refines:
  assumes "inv s" "list_all (ok \<circ> op_arg) ops" "card (elems s) + length ops < cap"
  shows "\<exists>s' bs. run_ops add remove isin s ops = Some (s', bs) \<and> inv s' \<and>
    spec_ops (elems s) ops = (elems s', bs)"
  using assms
proof (induction ops arbitrary: s)
  case Nil
  then show ?case by simp
next
  case (Cons op ops)
  show ?case
  proof (cases op)
    case (Add x)
    obtain s1 where s1: "add s x = Some (s1, x \<notin> elems s)" "inv s1" "elems s1 = insert x (elems s)"
      using add_law [of s x] Cons.prems Add by auto
    have "card (elems s1) + length ops < cap"
      using s1(3) Cons.prems(3) card_insert_le_m1 [of "Suc (card (elems s))" "elems s" x] by simp
    then obtain s' bs where "run_ops add remove isin s1 ops = Some (s', bs)" "inv s'"
      "spec_ops (elems s1) ops = (elems s', bs)"
      using Cons.IH [of s1] s1(2) Cons.prems(2) by auto
    then show ?thesis using Add s1 by simp
  next
    case (Rem x)
    obtain s1 where s1: "remove s x = Some (s1, x \<in> elems s)" "inv s1" "elems s1 = elems s - {x}"
      using remove_law [of s x] Cons.prems Rem by auto
    have "card (elems s1) + length ops < cap"
      using s1(3) Cons.prems(3) card_Diff1_le [of "elems s" x] by simp
    then obtain s' bs where "run_ops add remove isin s1 ops = Some (s', bs)" "inv s'"
      "spec_ops (elems s1) ops = (elems s', bs)"
      using Cons.IH [of s1] s1(2) Cons.prems(2) by auto
    then show ?thesis using Rem s1 by simp
  next
    case (Isin x)
    have "isin s x = Some (x \<in> elems s)" using isin_law Cons.prems Isin by simp
    moreover obtain s' bs where "run_ops add remove isin s ops = Some (s', bs)" "inv s'"
      "spec_ops (elems s) ops = (elems s', bs)"
      using Cons.IH [of s] Cons.prems by auto
    ultimately show ?thesis using Isin by simp
  qed
qed

corollary run_from_empty:
  "list_all (ok \<circ> op_arg) ops \<Longrightarrow> length ops < cap \<Longrightarrow>
   \<exists>s' bs. run_ops add remove isin empty ops = Some (s', bs) \<and> inv s' \<and> spec_ops {} ops = (elems s', bs)"
  using run_refines [of empty ops] empty_inv empty_elems by simp

end

end
