(* ===== verification/Map_Iface.thy ===== *)
theory Map_Iface
  imports Redis_Prelude
begin

text \<open>
  The contract between a key-value store and the code that uses it. The keyspace (\<^verbatim>\<open>db.c\<close>),
  the command table and every other client of \<^verbatim>\<open>dict.c\<close> rely on it. Keys are compared by an
  equivalence \<open>eq\<close> of the configuration, stored values are copied by \<open>vdup\<close>, and a
  lookup may reorganise the representation, so it returns a new one. The laws hold up to a
  capacity, and \<^term>\<open>None\<close> is undefined behaviour or a failed assertion.
\<close>

datatype ('k, 'v) kv_op = KAdd 'k 'v | KReplace 'k 'v | KDelete 'k | KFetch 'k
datatype 'v kv_res = Flag bool | Val "'v option"

text \<open>Running a sequence of operations on a representation, and on a map.\<close>

fun run_kv :: "('s \<Rightarrow> 'k \<Rightarrow> 'v \<Rightarrow> ('s \<times> bool) option) \<Rightarrow> ('s \<Rightarrow> 'k \<Rightarrow> 'v \<Rightarrow> ('s \<times> bool) option) \<Rightarrow>
    ('s \<Rightarrow> 'k \<Rightarrow> ('s \<times> bool) option) \<Rightarrow> ('s \<Rightarrow> 'k \<Rightarrow> ('s \<times> 'v option) option) \<Rightarrow>
    's \<Rightarrow> ('k, 'v) kv_op list \<Rightarrow> ('s \<times> 'v kv_res list) option" where
  "run_kv add repl del fetch s [] = Some (s, [])"
| "run_kv add repl del fetch s (op # ops) =
     do {
       (s', r) \<leftarrow> (case op of
           KAdd k v \<Rightarrow> map_option (map_prod id Flag) (add s k v)
         | KReplace k v \<Rightarrow> map_option (map_prod id Flag) (repl s k v)
         | KDelete k \<Rightarrow> map_option (map_prod id Flag) (del s k)
         | KFetch k \<Rightarrow> map_option (map_prod id Val) (fetch s k));
       (s'', rs) \<leftarrow> run_kv add repl del fetch s' ops;
       Some (s'', r # rs)
     }"

definition kv_upd :: "('k \<Rightarrow> 'k \<Rightarrow> bool) \<Rightarrow> 'k \<Rightarrow> 'v option \<Rightarrow> ('k \<Rightarrow> 'v option) \<Rightarrow> 'k \<Rightarrow> 'v option" where
  "kv_upd eq k v m = (\<lambda>x. if eq k x then v else m x)"

fun spec_kv :: "('k \<Rightarrow> 'k \<Rightarrow> bool) \<Rightarrow> ('v \<Rightarrow> 'v) \<Rightarrow> ('k \<Rightarrow> 'v option) \<Rightarrow> ('k, 'v) kv_op list \<Rightarrow>
    ('k \<Rightarrow> 'v option) \<times> 'v kv_res list" where
  "spec_kv eq vd m [] = (m, [])"
| "spec_kv eq vd m (KAdd k v # ops) =
     (let (m', rs) = spec_kv eq vd (if m k = None then kv_upd eq k (Some (vd v)) m else m) ops
      in (m', Flag (m k = None) # rs))"
| "spec_kv eq vd m (KReplace k v # ops) =
     (let (m', rs) = spec_kv eq vd (kv_upd eq k (Some (vd v)) m) ops in (m', Flag (m k = None) # rs))"
| "spec_kv eq vd m (KDelete k # ops) =
     (let (m', rs) = spec_kv eq vd (kv_upd eq k None m) ops in (m', Flag (m k \<noteq> None) # rs))"
| "spec_kv eq vd m (KFetch k # ops) =
     (let (m', rs) = spec_kv eq vd m ops in (m', Val (m k) # rs))"

locale kv_store =
  fixes add repl :: "'s \<Rightarrow> 'k \<Rightarrow> 'v \<Rightarrow> ('s \<times> bool) option"
    and del :: "'s \<Rightarrow> 'k \<Rightarrow> ('s \<times> bool) option"
    and fetch :: "'s \<Rightarrow> 'k \<Rightarrow> ('s \<times> 'v option) option"
    and lookup :: "'s \<Rightarrow> 'k \<Rightarrow> 'v option"
    and inv :: "'s \<Rightarrow> bool"
    and cfg :: "'s \<Rightarrow> 'c"
    and eq :: "'c \<Rightarrow> 'k \<Rightarrow> 'k \<Rightarrow> bool"
    and vdup :: "'c \<Rightarrow> 'v \<Rightarrow> 'v"
    and count :: "'s \<Rightarrow> nat"
    and cap :: nat
  assumes add_law: "inv s \<Longrightarrow> count s \<le> cap \<Longrightarrow>
      \<exists>s'. add s k v = Some (s', lookup s k = None) \<and> inv s' \<and> cfg s' = cfg s \<and> count s' \<le> Suc (count s) \<and>
        lookup s' = (if lookup s k = None then kv_upd (eq (cfg s)) k (Some (vdup (cfg s) v)) (lookup s) else lookup s)"
    and repl_law: "inv s \<Longrightarrow> count s \<le> cap \<Longrightarrow>
      \<exists>s'. repl s k v = Some (s', lookup s k = None) \<and> inv s' \<and> cfg s' = cfg s \<and> count s' \<le> Suc (count s) \<and>
        lookup s' = kv_upd (eq (cfg s)) k (Some (vdup (cfg s) v)) (lookup s)"
    and del_law: "inv s \<Longrightarrow>
      \<exists>s'. del s k = Some (s', lookup s k \<noteq> None) \<and> inv s' \<and> cfg s' = cfg s \<and> count s' \<le> count s \<and>
        lookup s' = kv_upd (eq (cfg s)) k None (lookup s)"
    and fetch_law: "inv s \<Longrightarrow>
      \<exists>s'. fetch s k = Some (s', lookup s k) \<and> inv s' \<and> cfg s' = cfg s \<and> count s' \<le> count s \<and> lookup s' = lookup s"
begin

text \<open>Any sequence of operations that stays below the capacity behaves as on the abstract map.\<close>

lemma run_kv_refines:
  assumes "inv s" "count s + length ops \<le> cap"
  shows "\<exists>s' rs. run_kv add repl del fetch s ops = Some (s', rs) \<and> inv s' \<and> cfg s' = cfg s \<and>
    spec_kv (eq (cfg s)) (vdup (cfg s)) (lookup s) ops = (lookup s', rs)"
  using assms
proof (induction ops arbitrary: s)
  case Nil
  then show ?case by simp
next
  case (Cons op ops)
  have le: "count s \<le> cap" using Cons.prems(2) by simp
  have IH: "\<exists>s' rs. run_kv add repl del fetch s1 ops = Some (s', rs) \<and> inv s' \<and> cfg s' = cfg s \<and>
      spec_kv (eq (cfg s)) (vdup (cfg s)) (lookup s1) ops = (lookup s', rs)"
    if "inv s1" "cfg s1 = cfg s" "count s1 \<le> Suc (count s)" for s1
    using Cons.IH [OF that(1)] Cons.prems(2) that(2,3) by simp
  show ?case
  proof (cases op)
    case (KAdd k v)
    obtain s1 where s1: "add s k v = Some (s1, lookup s k = None)" "inv s1" "cfg s1 = cfg s" "count s1 \<le> Suc (count s)"
      "lookup s1 = (if lookup s k = None then kv_upd (eq (cfg s)) k (Some (vdup (cfg s) v)) (lookup s) else lookup s)"
      using add_law [OF Cons.prems(1) le] by blast
    show ?thesis using IH [OF s1(2-4)] s1(1) by (auto simp: KAdd s1(5) [symmetric])
  next
    case (KReplace k v)
    obtain s1 where s1: "repl s k v = Some (s1, lookup s k = None)" "inv s1" "cfg s1 = cfg s" "count s1 \<le> Suc (count s)"
      "lookup s1 = kv_upd (eq (cfg s)) k (Some (vdup (cfg s) v)) (lookup s)"
      using repl_law [OF Cons.prems(1) le] by blast
    show ?thesis using IH [OF s1(2-4)] s1(1) by (auto simp: KReplace s1(5) [symmetric])
  next
    case (KDelete k)
    obtain s1 where s1: "del s k = Some (s1, lookup s k \<noteq> None)" "inv s1" "cfg s1 = cfg s" "count s1 \<le> count s"
      "lookup s1 = kv_upd (eq (cfg s)) k None (lookup s)"
      using del_law [OF Cons.prems(1)] by blast
    show ?thesis using IH [OF s1(2,3) le_SucI [OF s1(4)]] s1(1) by (auto simp: KDelete s1(5) [symmetric])
  next
    case (KFetch k)
    obtain s1 where s1: "fetch s k = Some (s1, lookup s k)" "inv s1" "cfg s1 = cfg s" "count s1 \<le> count s"
      "lookup s1 = lookup s"
      using fetch_law [OF Cons.prems(1)] by blast
    show ?thesis using IH [OF s1(2,3) le_SucI [OF s1(4)]] s1(1) by (auto simp: KFetch s1(5))
  qed
qed

end

end
