(* ===== verification/Intset.thy ===== *)
theory Intset
  imports Redis_Prelude Set_Iface
begin

text \<open>
  The integer set of \<^verbatim>\<open>intset.c\<close>: a heap block that holds the members in ascending order,
  all of them in the same width of 2, 4 or 8 bytes. The model works on the bytes of the block.
  The header fields are the values a little-endian host reads, where the \<^verbatim>\<open>...ifbe\<close>
  macros of \<^verbatim>\<open>endianconv.h\<close> are no-ops. \<^verbatim>\<open>uint32_t\<close> arithmetic wraps modulo
  \<open>2 ^ 32\<close>, and a conversion to \<^verbatim>\<open>int\<close> is written \<open>c_int\<close>.
\<close>

section \<open>Data and operations\<close>

record intset =
  is_encoding :: nat
  is_length :: nat
  is_contents :: mem

definition INTSET_ENC_INT16 :: nat where "INTSET_ENC_INT16 = 2"
definition INTSET_ENC_INT32 :: nat where "INTSET_ENC_INT32 = 4"
definition INTSET_ENC_INT64 :: nat where "INTSET_ENC_INT64 = 8"

definition c_int :: "int \<Rightarrow> int" where
  "c_int v = signed_take_bit 31 v"

definition c_uint32 :: "int \<Rightarrow> nat" where
  "c_uint32 v = nat (v mod 2 ^ 32)"

definition intsetValueEncoding :: "int \<Rightarrow> nat" where
  "intsetValueEncoding v =
     (if v < - 2147483648 \<or> v > 2147483647 then INTSET_ENC_INT64
      else if v < - 32768 \<or> v > 32767 then INTSET_ENC_INT32
      else INTSET_ENC_INT16)"

definition intsetGetEncoded :: "intset \<Rightarrow> int \<Rightarrow> nat \<Rightarrow> int option" where
  "intsetGetEncoded s pos enc =
     (if pos < 0 then None
      else if enc = INTSET_ENC_INT64 then map_option le_sdec (rd (nat pos * 8) 8 (is_contents s))
      else if enc = INTSET_ENC_INT32 then map_option le_sdec (rd (nat pos * 4) 4 (is_contents s))
      else map_option le_sdec (rd (nat pos * 2) 2 (is_contents s)))"

definition intsetGet0 :: "intset \<Rightarrow> int \<Rightarrow> int option" where
  "intsetGet0 s pos = intsetGetEncoded s pos (is_encoding s)"

definition intsetSet :: "intset \<Rightarrow> int \<Rightarrow> int \<Rightarrow> intset option" where
  "intsetSet s pos value =
     (if pos < 0 then None
      else map_option (\<lambda>m. s\<lparr>is_contents := m\<rparr>)
        (if is_encoding s = INTSET_ENC_INT64 then wr (nat pos * 8) (le_enc 8 value) (is_contents s)
         else if is_encoding s = INTSET_ENC_INT32 then wr (nat pos * 4) (le_enc 4 value) (is_contents s)
         else wr (nat pos * 2) (le_enc 2 value) (is_contents s)))"

definition intsetNew :: intset where
  "intsetNew = \<lparr>is_encoding = INTSET_ENC_INT16, is_length = 0, is_contents = []\<rparr>"

definition intsetResize :: "intset \<Rightarrow> nat \<Rightarrow> intset" where
  "intsetResize s len =
     (let size = c_uint32 (int len * int (is_encoding s))
      in s\<lparr>is_contents := realloc_mem size (is_contents s)\<rparr>)"

text \<open>The binary search of \<^verbatim>\<open>intsetSearch\<close>; the result is \<open>(min, mid, cur)\<close>.\<close>

partial_function (option) intsetSearch_loop ::
    "intset \<Rightarrow> int \<Rightarrow> int \<Rightarrow> int \<Rightarrow> int \<Rightarrow> int \<Rightarrow> (int \<times> int \<times> int) option" where
  "intsetSearch_loop s value mn mx mid cur =
     (if mx \<ge> mn then
        (let mid' = c_int (((mn mod 2 ^ 32 + mx mod 2 ^ 32) mod 2 ^ 32) div 2) in
         do {
           cur' \<leftarrow> intsetGet0 s mid';
           if value > cur' then intsetSearch_loop s value (mid' + 1) mx mid' cur'
           else if value < cur' then intsetSearch_loop s value mn (mid' - 1) mid' cur'
           else Some (mn, mid', cur')
         })
      else Some (mn, mid, cur))"

declare intsetSearch_loop.simps [code]

definition intsetSearch :: "intset \<Rightarrow> int \<Rightarrow> (bool \<times> nat) option" where
  "intsetSearch s value =
     (let mx = c_int (int (is_length s) - 1) in
      if is_length s = 0 then Some (False, 0)
      else do {
        hi \<leftarrow> intsetGet0 s mx;
        if value > hi then Some (False, is_length s)
        else do {
          lo \<leftarrow> intsetGet0 s 0;
          if value < lo then Some (False, 0)
          else do {
            (mn, mid, cur) \<leftarrow> intsetSearch_loop s value 0 mx (- 1) (- 1);
            if value = cur then Some (True, c_uint32 mid) else Some (False, c_uint32 mn)
          }
        }
      })"

text \<open>The loop of \<^verbatim>\<open>intsetUpgradeAndAdd\<close>, from the last element to the first.\<close>

fun intsetUpgrade_loop :: "nat \<Rightarrow> int \<Rightarrow> nat \<Rightarrow> intset \<Rightarrow> intset option" where
  "intsetUpgrade_loop 0 prepend curenc s = Some s"
| "intsetUpgrade_loop (Suc n) prepend curenc s =
     do {
       v \<leftarrow> intsetGetEncoded s (int n) curenc;
       s' \<leftarrow> intsetSet s (int n + prepend) v;
       intsetUpgrade_loop n prepend curenc s'
     }"

definition intsetUpgradeAndAdd :: "intset \<Rightarrow> int \<Rightarrow> intset option" where
  "intsetUpgradeAndAdd s value =
     (let curenc = is_encoding s;
          newenc = intsetValueEncoding value;
          length = c_int (int (is_length s));
          prepend = (if value < 0 then 1 else 0);
          s1 = intsetResize (s\<lparr>is_encoding := newenc\<rparr>) (c_uint32 (int (is_length s) + 1))
      in if length < 0 then None
         else do {
           s2 \<leftarrow> intsetUpgrade_loop (nat length) prepend curenc s1;
           s3 \<leftarrow> (if prepend = 1 then intsetSet s2 0 value
                 else intsetSet s2 (c_int (int (is_length s2))) value);
           Some (s3\<lparr>is_length := c_uint32 (int (is_length s3) + 1)\<rparr>)
         })"

definition intsetMoveTail :: "intset \<Rightarrow> nat \<Rightarrow> nat \<Rightarrow> intset option" where
  "intsetMoveTail s from to =
     (let n = c_uint32 (int (is_length s) - int from);
          w = (if is_encoding s = INTSET_ENC_INT64 then 8
               else if is_encoding s = INTSET_ENC_INT32 then 4 else 2)
      in map_option (\<lambda>m. s\<lparr>is_contents := m\<rparr>)
           (memmove (to * w) (from * w) (c_uint32 (int n * int w)) (is_contents s)))"

definition intsetAdd :: "intset \<Rightarrow> int \<Rightarrow> (intset \<times> bool) option" where
  "intsetAdd s value =
     (let valenc = intsetValueEncoding value in
      if valenc > is_encoding s then map_option (\<lambda>s'. (s', True)) (intsetUpgradeAndAdd s value)
      else do {
        (found, pos) \<leftarrow> intsetSearch s value;
        if found then Some (s, False)
        else do {
          let s1 = intsetResize s (c_uint32 (int (is_length s) + 1));
          s2 \<leftarrow> (if pos < is_length s1 then intsetMoveTail s1 pos (c_uint32 (int pos + 1)) else Some s1);
          s3 \<leftarrow> intsetSet s2 (c_int (int pos)) value;
          Some (s3\<lparr>is_length := c_uint32 (int (is_length s3) + 1)\<rparr>, True)
        }
      })"

definition intsetRemove :: "intset \<Rightarrow> int \<Rightarrow> (intset \<times> bool) option" where
  "intsetRemove s value =
     (let valenc = intsetValueEncoding value in
      if valenc \<le> is_encoding s then do {
        (found, pos) \<leftarrow> intsetSearch s value;
        if found then do {
          let len = is_length s;
          s1 \<leftarrow> (if pos < c_uint32 (int len - 1) then intsetMoveTail s (c_uint32 (int pos + 1)) pos else Some s);
          let s2 = intsetResize s1 (c_uint32 (int len - 1));
          Some (s2\<lparr>is_length := c_uint32 (int len - 1)\<rparr>, True)
        } else Some (s, False)
      } else Some (s, False))"

definition intsetFind :: "intset \<Rightarrow> int \<Rightarrow> bool option" where
  "intsetFind s value =
     (if intsetValueEncoding value \<le> is_encoding s then map_option fst (intsetSearch s value)
      else Some False)"

text \<open>\<^verbatim>\<open>rand()\<close> is the argument \<open>r\<close>; a remainder by 0 is undefined.\<close>

definition intsetRandom :: "nat \<Rightarrow> intset \<Rightarrow> int option" where
  "intsetRandom r s =
     (if is_length s = 0 then None else intsetGet0 s (c_int (int (r mod is_length s))))"

text \<open>\<open>Some None\<close> is the return value 0 (position out of range).\<close>

definition intsetGet :: "intset \<Rightarrow> nat \<Rightarrow> int option option" where
  "intsetGet s pos =
     (if pos < is_length s then map_option Some (intsetGet0 s (c_int (int pos))) else Some None)"

definition intsetLen :: "intset \<Rightarrow> nat" where
  "intsetLen s = is_length s"

definition intsetBlobLen :: "intset \<Rightarrow> nat" where
  "intsetBlobLen s = 8 + c_uint32 (int (is_length s) * int (is_encoding s))"

section \<open>Representation\<close>

text \<open>
  \<open>intset_rep s vs\<close>: the block \<open>s\<close> is well formed and holds the strictly ascending values \<open>vs\<close>.
  The bound on the length keeps \<^verbatim>\<open>len*encoding\<close> of \<^verbatim>\<open>intsetResize\<close> below \<open>2 ^ 32\<close>.
\<close>

definition intset_rep :: "intset \<Rightarrow> int list \<Rightarrow> bool" where
  "intset_rep s vs \<longleftrightarrow>
     is_encoding s \<in> {INTSET_ENC_INT16, INTSET_ENC_INT32, INTSET_ENC_INT64} \<and>
     is_length s = length vs \<and>
     is_contents s = map Some (concat (map (le_enc (is_encoding s)) vs)) \<and>
     list_all (fits (is_encoding s)) vs \<and> sorted_wrt (<) vs \<and> length vs < 2 ^ 29"

lemmas enc_defs = INTSET_ENC_INT16_def INTSET_ENC_INT32_def INTSET_ENC_INT64_def

definition is_enc :: "nat \<Rightarrow> bool" where
  "is_enc e \<longleftrightarrow> e = 2 \<or> e = 4 \<or> e = 8"

lemma c_int_id [simp]: "- 2147483648 \<le> v \<Longrightarrow> v < 2147483648 \<Longrightarrow> c_int v = v"
  by (simp add: c_int_def signed_take_bit_int_eq_self_iff)

lemma c_uint32_id [simp]: "0 \<le> v \<Longrightarrow> v < 4294967296 \<Longrightarrow> c_uint32 v = nat v"
  by (simp add: c_uint32_def)

lemma c_uint32_mult: "a * b < 4294967296 \<Longrightarrow> c_uint32 (int a * int b) = a * b"
proof -
  assume "a * b < 4294967296"
  then have "int (a * b) < 4294967296" by linarith
  then have "c_uint32 (int (a * b)) = nat (int (a * b))" by (intro c_uint32_id) auto
  then show ?thesis by (simp only: of_nat_mult [symmetric] nat_int)
qed

lemma fits_encoding: "is_int64 v \<Longrightarrow> fits (intsetValueEncoding v) v"
  by (auto simp: fits_def intsetValueEncoding_def enc_defs is_int64_def)

lemma fits_iff: "is_enc e \<Longrightarrow> is_int64 v \<Longrightarrow> fits e v \<longleftrightarrow> intsetValueEncoding v \<le> e"
  by (auto simp: is_enc_def fits_def intsetValueEncoding_def enc_defs is_int64_def)

lemma getEncoded_eq:
  "is_enc e \<Longrightarrow> intsetGetEncoded s (int i) e = map_option le_sdec (rd (i * e) e (is_contents s))"
  by (auto simp: is_enc_def intsetGetEncoded_def enc_defs)

lemma set_eq:
  "is_enc (is_encoding s) \<Longrightarrow> intsetSet s (int i) v = map_option (\<lambda>m. s\<lparr>is_contents := m\<rparr>)
     (wr (i * is_encoding s) (le_enc (is_encoding s) v) (is_contents s))"
  by (auto simp: is_enc_def intsetSet_def enc_defs)

lemma rep_is_enc: "intset_rep s vs \<Longrightarrow> is_enc (is_encoding s)"
  by (auto simp: intset_rep_def is_enc_def enc_defs)

lemma is_enc_pos: "is_enc e \<Longrightarrow> 0 < e"
  by (auto simp: is_enc_def)

text \<open>Reading the \<open>i\<close>-th value out of a packed block.\<close>

lemma take_drop_pack:
  "i < length vs \<Longrightarrow> take e (drop (i * e) (concat (map (le_enc e) vs))) = le_enc e (vs ! i)"
  by (simp add: drop_concat_const Cons_nth_drop_Suc [symmetric])

lemma get_pack:
  assumes "is_enc e" "i < length vs" "fits e (vs ! i)"
    and "take (length vs * e) (is_contents s) = map Some (concat (map (le_enc e) vs))"
  shows "intsetGetEncoded s (int i) e = Some (vs ! i)"
proof -
  let ?m = "is_contents s" and ?p = "concat (map (le_enc e) vs)"
  have len: "length ?p = length vs * e" by (simp add: length_concat_const)
  have le: "i * e + e \<le> length vs * e"
    using assms(2) by (metis Suc_leI mult_Suc mult_le_mono1 add.commute)
  have tl: "length (take (length vs * e) ?m) = length vs * e" using assms(4) len by simp
  then have lm: "length vs * e \<le> length ?m" by simp
  have "take e (drop (i * e) ?m) = take e (drop (i * e) (take (length vs * e) ?m))"
    using le by (simp add: drop_take min_def)
  also have "\<dots> = map Some (le_enc e (vs ! i))"
    using assms(2) by (simp only: assms(4) drop_map take_map take_drop_pack)
  finally have "rd (i * e) e ?m = Some (le_enc e (vs ! i))"
    using le lm by (intro rd_Some) auto
  then show ?thesis
    using assms by (simp add: getEncoded_eq le_sdec_enc is_enc_pos)
qed

lemma rep_get:
  assumes "intset_rep s vs" "i < length vs"
  shows "intsetGet0 s (int i) = Some (vs ! i)"
  unfolding intsetGet0_def
  using assms rep_is_enc [OF assms(1)]
  by (intro get_pack) (auto simp: intset_rep_def list_all_length length_concat_const)

subsection \<open>Binary search\<close>

text \<open>\<open>ins_pos vs v p\<close>: everything before position \<open>p\<close> is smaller than \<open>v\<close>, everything from it on is larger.\<close>

definition ins_pos :: "int list \<Rightarrow> int \<Rightarrow> nat \<Rightarrow> bool" where
  "ins_pos vs v p \<longleftrightarrow> p \<le> length vs \<and> (\<forall>i < p. vs ! i < v) \<and> (\<forall>i. p \<le> i \<and> i < length vs \<longrightarrow> v < vs ! i)"

definition search_post :: "int list \<Rightarrow> int \<Rightarrow> int \<times> int \<times> int \<Rightarrow> bool" where
  "search_post vs v = (\<lambda>(mn, mid, cur).
     if cur = v then 0 \<le> mid \<and> mid < int (length vs) \<and> vs ! nat mid = v
     else 0 \<le> mn \<and> ins_pos vs v (nat mn))"

lemma search_loop_correct:
  assumes rep: "intset_rep s vs" and "0 \<le> mn" "mn \<le> mx + 1" "mx < int (length vs)"
    and "\<forall>i < nat mn. vs ! i < v" "\<forall>i. mx < int i \<and> i < length vs \<longrightarrow> v < vs ! i"
    and "mn \<le> mx \<or> cur \<noteq> v"
  shows "\<exists>r. intsetSearch_loop s v mn mx mid cur = Some r \<and> search_post vs v r"
  using assms(2-)
proof (induction "nat (mx - mn + 1)" arbitrary: mn mx mid cur rule: less_induct)
  case less
  have bnd: "length vs < 2 ^ 29" and srt: "sorted_wrt (<) vs"
    using rep by (auto simp: intset_rep_def)
  show ?case
  proof (cases "mn \<le> mx")
    case False
    then have "ins_pos vs v (nat mn)" "cur \<noteq> v"
      using less.prems by (auto simp: ins_pos_def)
    then show ?thesis
      using False less.prems(1) by (subst intsetSearch_loop.simps) (auto simp: search_post_def)
  next
    case True
    define m where "m = (mn + mx) div 2"
    have m: "mn \<le> m" "m \<le> mx" using True by (auto simp: m_def)
    have b: "0 \<le> mn" "0 \<le> mx" "mn < 2147483648" "mx < 2147483648"
      using True less.prems(1,3) bnd by auto
    have "mn mod 2 ^ 32 = mn" "mx mod 2 ^ 32 = mx" "(mn + mx) mod 2 ^ 32 = mn + mx"
      using b by simp_all
    moreover have "c_int m = m" using m b by (intro c_int_id) linarith+
    ultimately have mid: "c_int (((mn mod 2 ^ 32 + mx mod 2 ^ 32) mod 2 ^ 32) div 2) = m"
      by (simp only: m_def)
    have mlen: "nat m < length vs" using m less.prems(1,3) by linarith
    have get: "intsetGet0 s m = Some (vs ! nat m)"
      using rep_get [OF rep mlen] m less.prems(1) by simp
    have mono: "i < j \<Longrightarrow> j < length vs \<Longrightarrow> vs ! i < vs ! j" for i j
      using srt by (simp add: sorted_wrt_iff_nth_less)
    have unfold: "intsetSearch_loop s v mn mx mid cur =
        (if v > vs ! nat m then intsetSearch_loop s v (m + 1) mx m (vs ! nat m)
         else if v < vs ! nat m then intsetSearch_loop s v mn (m - 1) m (vs ! nat m)
         else Some (mn, m, vs ! nat m))"
      using True by (subst intsetSearch_loop.simps) (simp only: mid get Let_def bind.bind_lunit if_True)
    consider "vs ! nat m < v" | "v < vs ! nat m" | "v = vs ! nat m" by linarith
    then show ?thesis
    proof cases
      case 1
      have below: "vs ! i < v" if "i < nat (m + 1)" for i
      proof (cases "i = nat m")
        case True
        then show ?thesis using 1 by simp
      next
        case False
        then have "i < nat m" using that by linarith
        then show ?thesis using mono [of i "nat m"] mlen 1 by linarith
      qed
      have "\<exists>r. intsetSearch_loop s v (m + 1) mx m (vs ! nat m) = Some r \<and> search_post vs v r"
        by (rule less.hyps) (use less.prems(1-5) m below less_imp_neq [OF 1] in auto)
      with 1 show ?thesis by (simp add: unfold)
    next
      case 2
      have above: "v < vs ! i" if "m - 1 < int i" "i < length vs" for i
      proof (cases "i = nat m")
        case True
        then show ?thesis using 2 by simp
      next
        case False
        then have "nat m < i" using that by linarith
        then show ?thesis using mono [of "nat m" i] that 2 by linarith
      qed
      have "\<exists>r. intsetSearch_loop s v mn (m - 1) m (vs ! nat m) = Some r \<and> search_post vs v r"
        by (rule less.hyps) (use less.prems(1-5) m above less_imp_neq [OF 2] in auto)
      with 2 show ?thesis by (simp add: unfold)
    next
      case 3
      then have "intsetSearch_loop s v mn mx mid cur = Some (mn, m, v)"
        using unfold by simp
      moreover have "search_post vs v (mn, m, v)"
        using 3 mlen m less.prems(1,3) by (simp add: search_post_def)
      ultimately show ?thesis by blast
    qed
  qed
qed

lemma ins_posI: "ins_pos vs v p \<Longrightarrow> v \<notin> set vs"
  by (auto simp: ins_pos_def in_set_conv_nth) (metis less_irrefl not_le)

lemma intset_search_correct:
  assumes rep: "intset_rep s vs"
  shows "\<exists>found pos. intsetSearch s v = Some (found, pos) \<and>
    (if found then pos < length vs \<and> vs ! pos = v else ins_pos vs v pos)"
proof -
  have len: "is_length s = length vs" and bnd: "length vs < 2 ^ 29" and srt: "sorted_wrt (<) vs"
    using rep by (auto simp: intset_rep_def)
  have mono: "i < j \<Longrightarrow> j < length vs \<Longrightarrow> vs ! i < vs ! j" for i j
    using srt by (simp add: sorted_wrt_iff_nth_less)
  show ?thesis
  proof (cases "vs = []")
    case True
    then show ?thesis using len by (auto simp: intsetSearch_def ins_pos_def)
  next
    case False
    let ?n = "length vs"
    have n: "0 < ?n" using False by simp
    have mx: "c_int (int (is_length s) - 1) = int (?n - 1)"
    proof -
      have eq: "int (?n - 1) = int ?n - 1" using n by linarith
      have "c_int (int ?n - 1) = int ?n - 1" using n bnd by (intro c_int_id) simp_all
      then show ?thesis using len eq by (simp only:)
    qed
    have hi: "intsetGet0 s (int (?n - 1)) = Some (vs ! (?n - 1))"
      by (rule rep_get [OF rep]) (use n in simp)
    have lo: "intsetGet0 s 0 = Some (vs ! 0)"
      using rep_get [OF rep, of 0] n by simp
    have unfold: "intsetSearch s v =
        (if v > vs ! (?n - 1) then Some (False, ?n) else if v < vs ! 0 then Some (False, 0)
         else intsetSearch_loop s v 0 (int (?n - 1)) (- 1) (- 1) \<bind>
           (\<lambda>(mn, mid, cur). if v = cur then Some (True, c_uint32 mid) else Some (False, c_uint32 mn)))"
      unfolding intsetSearch_def Let_def mx hi lo using n len by simp
    consider "v > vs ! (?n - 1)" | "v < vs ! 0" "\<not> v > vs ! (?n - 1)"
      | "vs ! 0 \<le> v" "v \<le> vs ! (?n - 1)" by linarith
    then show ?thesis
    proof cases
      case 1
      have "vs ! i < v" if "i < ?n" for i
      proof (cases "i = ?n - 1")
        case False
        then have "i < ?n - 1" using that by linarith
        then show ?thesis using mono [of i "?n - 1"] that 1 by linarith
      qed (use 1 in simp)
      then show ?thesis using 1 by (auto simp: unfold ins_pos_def)
    next
      case 2
      have "v < vs ! i" if "i < ?n" for i
        using mono [of 0 i] that 2 by (cases "i = 0") auto
      then show ?thesis using 2 by (auto simp: unfold ins_pos_def)
    next
      case 3
      obtain mn mid cur where r: "intsetSearch_loop s v 0 (int (?n - 1)) (- 1) (- 1) = Some (mn, mid, cur)"
        and post: "search_post vs v (mn, mid, cur)"
        using search_loop_correct [OF rep, of 0 "int (?n - 1)" v "- 1" "- 1"] n by auto
      have bnd': "v \<noteq> cur \<Longrightarrow> mn < 2 ^ 32" "v = cur \<Longrightarrow> mid < 2 ^ 32"
        using post bnd by (auto simp: search_post_def ins_pos_def)
      have eq: "intsetSearch s v = (if v = cur then Some (True, c_uint32 mid) else Some (False, c_uint32 mn))"
        using 3 unfolding unfold r by simp
      show ?thesis
      proof (cases "v = cur")
        case True
        then have "intsetSearch s v = Some (True, nat mid)" "nat mid < ?n" "vs ! nat mid = v"
          using eq post bnd'(2) by (auto simp: search_post_def)
        then show ?thesis by auto
      next
        case False
        then have "intsetSearch s v = Some (False, nat mn)" "ins_pos vs v (nat mn)"
          using eq post bnd'(1) by (auto simp: search_post_def)
        then show ?thesis by auto
      qed
    qed
  qed
qed

lemma search_found_iff:
  assumes "if found then pos < length vs \<and> vs ! pos = v else ins_pos vs v pos"
  shows "found \<longleftrightarrow> v \<in> set vs"
  using assms ins_posI [of vs v pos] by (auto split: if_splits)

lemma ins_pos_insort:
  assumes "sorted_wrt (<) vs" "ins_pos vs v p"
  shows "take p vs @ v # drop p vs = insort v vs" (is "?l = _")
proof (rule sorted_distinct_set_unique)
  have lt: "x < v" if "x \<in> set (take p vs)" for x
    using that assms(2) by (auto simp: ins_pos_def in_set_conv_nth)
  have gt: "v < x" if "x \<in> set (drop p vs)" for x
    using that assms(2) by (auto simp: ins_pos_def in_set_conv_nth)
  have "sorted_wrt (<) (take p vs @ drop p vs)" using assms(1) by simp
  then have "sorted_wrt (<) ?l"
    using lt gt by (simp only: sorted_wrt_append sorted_wrt.simps) (auto intro: less_trans)
  then show "sorted ?l" "distinct ?l"
    by (auto simp: strict_sorted_iff)
  show "sorted (insort v vs)" "distinct (insort v vs)"
    using assms ins_posI [OF assms(2)] by (auto simp: strict_sorted_iff sorted_insort distinct_insort)
  show "set ?l = set (insort v vs)"
    by (metis set_insort_key append_take_drop_id set_append set_simps(2) Un_insert_right)
qed

subsection \<open>The upgrade loop\<close>

text \<open>
  Converting from the last element to the first never overwrites an element that is still to be
  read: the new width is larger than the old one.
\<close>

lemma upgrade_loop_correct:
  assumes "is_enc cur" "is_enc (is_encoding s)" "cur < is_encoding s" "p = 0 \<or> p = 1"
    and "(length vs + p) * is_encoding s \<le> length (is_contents s)"
    and "take (length vs * cur) (is_contents s) = map Some (concat (map (le_enc cur) vs))"
    and "list_all (fits cur) vs"
  shows "\<exists>s'. intsetUpgrade_loop (length vs) (int p) cur s = Some s' \<and>
    is_encoding s' = is_encoding s \<and> is_length s' = is_length s \<and>
    length (is_contents s') = length (is_contents s) \<and>
    take (length vs * is_encoding s) (drop (p * is_encoding s) (is_contents s')) =
      map Some (concat (map (le_enc (is_encoding s)) vs)) \<and>
    drop ((length vs + p) * is_encoding s) (is_contents s') = drop ((length vs + p) * is_encoding s) (is_contents s)"
  using assms
proof (induction vs arbitrary: s rule: rev_induct)
  case Nil
  then show ?case by simp
next
  case (snoc v vs)
  let ?e = "is_encoding s" and ?m = "is_contents s" and ?n = "length vs"
  let ?o = "(?n + p) * ?e"
  have lm: "?o + ?e \<le> length ?m" using snoc.prems(5) by (simp add: algebra_simps)
  have get: "intsetGetEncoded s (int ?n) cur = Some v"
    using get_pack [of cur ?n "vs @ [v]" s] snoc.prems by (simp add: nth_append)
  define s1 where "s1 = s\<lparr>is_contents := take ?o ?m @ map Some (le_enc ?e v) @ drop (?o + ?e) ?m\<rparr>"
  have set: "intsetSet s (int (?n + p)) v = Some s1"
    using lm snoc.prems(2) by (subst set_eq) (auto simp: wr_def s1_def)
  have le: "?n * cur \<le> ?o"
    using snoc.prems(3) by (simp add: mult_le_mono)
  have "take (?n * cur) (is_contents s1) = take (?n * cur) ?m"
    using le lm by (simp add: s1_def min_def)
  also have "\<dots> = take (?n * cur) (take ((?n + 1) * cur) ?m)"
    by (simp add: min_def)
  also have "\<dots> = map Some (concat (map (le_enc cur) vs))"
    using snoc.prems(6) by (simp add: take_map length_concat_const)
  finally have old: "take (?n * cur) (is_contents s1) = map Some (concat (map (le_enc cur) vs))" .
  have s1: "is_encoding s1 = ?e" "is_length s1 = is_length s" "length (is_contents s1) = length ?m"
    using lm by (simp_all add: s1_def)
  obtain s' where s': "intsetUpgrade_loop ?n (int p) cur s1 = Some s'"
    "is_encoding s' = ?e" "is_length s' = is_length s" "length (is_contents s') = length ?m"
    "take (?n * ?e) (drop (p * ?e) (is_contents s')) = map Some (concat (map (le_enc ?e) vs))"
    "drop ?o (is_contents s') = drop ?o (is_contents s1)"
    using snoc.IH [of s1] snoc.prems old s1 lm by auto
  have d: "drop ?o (is_contents s1) = map Some (le_enc ?e v) @ drop (?o + ?e) ?m"
    using lm by (simp add: s1_def)
  have o: "?o = ?n * ?e + p * ?e" by (simp add: algebra_simps)
  have "take ((?n + 1) * ?e) (drop (p * ?e) (is_contents s')) =
      take (?n * ?e) (drop (p * ?e) (is_contents s')) @ take ?e (drop (?n * ?e) (drop (p * ?e) (is_contents s')))"
    by (simp only: add_mult_distrib mult_1 take_add)
  also have "drop (?n * ?e) (drop (p * ?e) (is_contents s')) = drop ?o (is_contents s')"
    by (simp only: drop_drop o)
  also have "take ?e \<dots> = map Some (le_enc ?e v)"
    by (simp add: s'(6) d)
  finally have new: "take ((?n + 1) * ?e) (drop (p * ?e) (is_contents s')) =
      map Some (concat (map (le_enc ?e) (vs @ [v])))"
    by (simp add: s'(5))
  have "drop (?o + ?e) (is_contents s') = drop ?e (drop ?o (is_contents s'))"
    by (simp add: add.commute)
  also have "\<dots> = drop (?o + ?e) ?m" by (simp add: s'(6) d)
  finally have tl: "drop (?o + ?e) (is_contents s') = drop (?o + ?e) ?m" .
  have len1: "length (vs @ [v]) = ?n + 1" and len2: "(?n + 1 + p) * ?e = ?o + ?e" by simp_all
  have "intsetUpgrade_loop (?n + 1) (int p) cur s = Some s'"
    using get set s'(1) by simp
  with s'(2-4) new tl show ?case
    unfolding len1 len2 by blast
qed


lemma rep_pack: "intset_rep s vs \<Longrightarrow> is_contents s = map Some (concat (map (le_enc (is_encoding s)) vs))"
  by (simp add: intset_rep_def)

lemma encoding_is_enc: "is_enc (intsetValueEncoding v)"
  by (auto simp: is_enc_def intsetValueEncoding_def enc_defs)

text \<open>A value wider than the block's encoding lies outside of the range of the members.\<close>

lemma outside_range:
  assumes "is_enc e" "e < intsetValueEncoding v" "fits e x" "is_int64 v"
  shows "v < 0 \<Longrightarrow> v < x" "\<not> v < 0 \<Longrightarrow> x < v"
  using assms by (auto simp: is_enc_def fits_def intsetValueEncoding_def enc_defs is_int64_def split: if_splits)

lemma insort_outside:
  assumes "\<forall>x \<in> set vs. fits e x" "is_enc e" "e < intsetValueEncoding v" "is_int64 v"
  shows "insort v vs = (if v < 0 then v # vs else vs @ [v])"
proof (cases "v < 0")
  case True
  then have "\<forall>x \<in> set vs. v < x" using assms outside_range(1) by blast
  then show ?thesis using True by (cases vs) auto
next
  case False
  then have "\<forall>x \<in> set vs. x < v" using assms outside_range(2) by blast
  then have "insort v vs = vs @ [v]" by (induction vs) auto
  then show ?thesis using False by simp
qed

lemma sorted_insort_strict: "sorted_wrt (<) vs \<Longrightarrow> v \<notin> set vs \<Longrightarrow> sorted_wrt (<) (insort v (vs :: int list))"
  by (simp add: strict_sorted_iff sorted_insort distinct_insort)

lemma repI:
  assumes "is_enc (is_encoding s)" "is_length s = length vs"
    "is_contents s = map Some (concat (map (le_enc (is_encoding s)) vs))"
    "list_all (fits (is_encoding s)) vs" "sorted_wrt (<) vs" "length vs < 2 ^ 29"
  shows "intset_rep s vs"
  using assms by (auto simp: intset_rep_def is_enc_def enc_defs)

lemma c_uint32_enc:
  assumes "is_enc e" "n < 2 ^ 29"
  shows "c_uint32 (int n * int e) = n * e"
proof (rule c_uint32_mult)
  have "e \<le> 8" using assms(1) by (auto simp: is_enc_def)
  then have "n * e \<le> n * 8" by (rule mult_le_mono2)
  also have "n * 8 < 4294967296" using assms(2) by simp
  finally show "n * e < 4294967296" .
qed

lemma resize_eq:
  assumes "is_enc (is_encoding s)" "n < 2 ^ 29"
  shows "intsetResize s n = s\<lparr>is_contents := realloc_mem (n * is_encoding s) (is_contents s)\<rparr>"
  by (simp only: intsetResize_def c_uint32_enc [OF assms] Let_def)

lemma upgrade_correct:
  assumes rep: "intset_rep s vs" and wide: "intsetValueEncoding v > is_encoding s"
    and v: "is_int64 v" and room: "Suc (length vs) < 2 ^ 29"
  shows "\<exists>s'. intsetUpgradeAndAdd s v = Some s' \<and> intset_rep s' (insort v vs) \<and> v \<notin> set vs \<and>
    is_encoding s' = intsetValueEncoding v"
proof -
  let ?c = "is_encoding s" and ?e = "intsetValueEncoding v" and ?n = "length vs"
  have enc: "is_enc ?c" "is_enc ?e" using rep rep_is_enc encoding_is_enc by auto
  have len: "is_length s = ?n" and fit: "\<forall>x \<in> set vs. fits ?c x" and srt: "sorted_wrt (<) vs"
    using rep by (auto simp: intset_rep_def list_all_iff)
  have c1: "c_int (int (is_length s)) = int ?n" using room len by simp
  have c2: "c_uint32 (int (is_length s) + 1) = Suc ?n" using room len by simp
  define p :: nat where "p = (if v < 0 then 1 else 0)"
  define s1 where "s1 = intsetResize (s\<lparr>is_encoding := ?e\<rparr>) (Suc ?n)"
  have s1_eq: "s1 = s\<lparr>is_encoding := ?e, is_contents := realloc_mem (Suc ?n * ?e) (is_contents s)\<rparr>"
    using enc room unfolding s1_def by (subst resize_eq) simp_all
  have lc: "length (is_contents s) = ?n * ?c"
    using rep_pack [OF rep] by (simp add: length_concat_const)
  have ce: "?n * ?c \<le> Suc ?n * ?e" using wide by (intro mult_le_mono) auto
  have m1: "is_contents s1 = is_contents s @ replicate (Suc ?n * ?e - ?n * ?c) None"
    using lc ce by (simp add: s1_eq realloc_mem_def del: mult_Suc)
  have s1: "is_encoding s1 = ?e" "is_length s1 = ?n" "length (is_contents s1) = Suc ?n * ?e"
    using len by (simp_all add: s1_eq del: mult_Suc)
  have old: "take (?n * ?c) (is_contents s1) = map Some (concat (map (le_enc ?c) vs))"
    using lc rep_pack [OF rep] by (simp add: m1)
  have p01: "p = 0 \<or> p = 1" and np: "(?n + p) * ?e \<le> Suc ?n * ?e" by (simp_all add: p_def)
  have fit': "list_all (fits ?c) vs" using fit by (simp add: list_all_iff)
  obtain s2 where s2: "intsetUpgrade_loop ?n (int p) ?c s1 = Some s2" "is_encoding s2 = ?e"
    "is_length s2 = ?n" "length (is_contents s2) = Suc ?n * ?e"
    "take (?n * ?e) (drop (p * ?e) (is_contents s2)) = map Some (concat (map (le_enc ?e) vs))"
    using upgrade_loop_correct [of ?c s1 p vs, unfolded s1, OF enc wide p01 np old fit'] by blast
  define q where "q = (if v < 0 then 0 else ?n)"
  have wr: "wr (q * ?e) (le_enc ?e v) (is_contents s2) = Some (map Some (concat (map (le_enc ?e) (insort v vs))))"
  proof (cases "v < 0")
    case True
    then have "drop ?e (is_contents s2) = map Some (concat (map (le_enc ?e) vs))"
      using s2(4,5) by (simp add: p_def)
    then show ?thesis
      using True s2(4) insort_outside [OF fit enc(1) wide v] by (simp add: wr_def q_def)
  next
    case False
    then have "take (?n * ?e) (is_contents s2) = map Some (concat (map (le_enc ?e) vs))"
      using s2(5) by (simp add: p_def)
    then show ?thesis
      using False s2(4) insort_outside [OF fit enc(1) wide v] by (simp add: wr_def q_def)
  qed
  define s3 where "s3 = s2\<lparr>is_contents := map Some (concat (map (le_enc ?e) (insort v vs)))\<rparr>"
  have set: "intsetSet s2 (int q) v = Some s3"
    using wr s2(2) enc(2) by (simp add: set_eq s3_def)
  have prep: "(if v < 0 then 1 else 0) = int p" by (simp add: p_def)
  have st: "(if int p = 1 then intsetSet s2 0 v else intsetSet s2 (c_int (int (is_length s2))) v) = Some s3"
    using set room by (cases "v < 0") (simp_all add: p_def q_def s2(3))
  have l3: "c_uint32 (int (is_length s3) + 1) = Suc ?n"
    using room by (simp add: s3_def s2(3))
  have "intsetUpgradeAndAdd s v = Some (s3\<lparr>is_length := Suc ?n\<rparr>)"
    unfolding intsetUpgradeAndAdd_def Let_def c1 c2 prep s1_def [symmetric]
    using st by (auto simp: s2(1) l3 split: if_splits)
  moreover have notin: "v \<notin> set vs"
  proof
    assume "v \<in> set vs"
    then have "fits ?c v" using fit by blast
    then show False using outside_range [OF enc(1) wide _ v] by blast
  qed
  moreover have "intset_rep (s3\<lparr>is_length := Suc ?n\<rparr>) (insort v vs)"
  proof (rule repI)
    have "fits ?e x" if "x \<in> set vs" for x using fit that wide fits_mono [of ?c x ?e] by simp
    then show "list_all (fits (is_encoding (s3\<lparr>is_length := Suc ?n\<rparr>))) (insort v vs)"
      using fits_encoding [OF v] s2(2) by (simp add: s3_def list_all_iff set_insort_key)
  qed (use enc s2 srt notin room in \<open>simp_all add: s3_def sorted_insort_strict\<close>)
  ultimately show ?thesis using s2(2) by (auto simp: s3_def)
qed


lemma moveTail_eq:
  assumes "is_enc (is_encoding s)" "from \<le> is_length s" "is_length s < 2 ^ 29"
  shows "intsetMoveTail s from to = map_option (\<lambda>m. s\<lparr>is_contents := m\<rparr>)
    (memmove (to * is_encoding s) (from * is_encoding s) ((is_length s - from) * is_encoding s) (is_contents s))"
proof -
  let ?k = "is_length s - from"
  have k: "c_uint32 (int (is_length s) - int from) = ?k" using assms(2,3) by (subst c_uint32_id) auto
  have "c_uint32 (int ?k * int (is_encoding s)) = ?k * is_encoding s"
    using assms(1,3) by (intro c_uint32_enc) simp_all
  moreover have "(if is_encoding s = 8 then 8 else if is_encoding s = 4 then 4 else 2) = is_encoding s"
    using assms(1) by (auto simp: is_enc_def)
  ultimately show ?thesis
    unfolding intsetMoveTail_def Let_def k enc_defs by simp
qed

lemma insert_in_place:
  assumes rep: "intset_rep s vs" and pos: "ins_pos vs v p" and v: "fits (is_encoding s) v"
    and room: "Suc (length vs) < 2 ^ 29"
  shows "\<exists>s2 s3. (if p < is_length s then intsetMoveTail (intsetResize s (Suc (length vs))) p (Suc p)
      else Some (intsetResize s (Suc (length vs)))) = Some s2 \<and>
    intsetSet s2 (int p) v = Some s3 \<and> is_length s3 = length vs \<and> is_encoding s3 = is_encoding s \<and>
    intset_rep (s3\<lparr>is_length := Suc (length vs)\<rparr>) (insort v vs)"
proof -
  let ?e = "is_encoding s" and ?n = "length vs"
  let ?A = "concat (map (le_enc ?e) (take p vs))" and ?B = "concat (map (le_enc ?e) (drop p vs))"
  have enc: "is_enc ?e" and len: "is_length s = ?n" and p: "p \<le> ?n"
    using rep rep_is_enc pos by (auto simp: intset_rep_def ins_pos_def)
  have fit: "\<forall>x \<in> set vs. fits ?e x" and srt: "sorted_wrt (<) vs"
    using rep by (auto simp: intset_rep_def list_all_iff)
  have notin: "v \<notin> set vs" using ins_posI [OF pos] .
  have la: "length ?A = p * ?e" and lb: "length ?B = (?n - p) * ?e"
    using p by (simp_all add: length_concat_const)
  have "concat (map (le_enc ?e) vs) = ?A @ ?B"
    by (metis append_take_drop_id concat_append map_append)
  then have m: "is_contents s = map Some ?A @ map Some ?B"
    using rep_pack [OF rep] by simp
  have tot: "Suc ?n * ?e - (p * ?e + (?n - p) * ?e) = ?e"
    using p by (simp add: add_mult_distrib [symmetric])
  define s1 where "s1 = intsetResize s (Suc ?n)"
  have le: "p * ?e + (?n - p) * ?e \<le> Suc ?n * ?e"
    using p by (simp add: add_mult_distrib [symmetric])
  have s1: "s1 = s\<lparr>is_contents := map Some ?A @ map Some ?B @ replicate ?e None\<rparr>"
    unfolding s1_def using resize_eq [OF enc room] m tot le la lb by (simp add: realloc_mem_def)
  obtain G where G: "length G = ?e"
    and s2: "(if p < is_length s then intsetMoveTail s1 p (Suc p) else Some s1) =
      Some (s\<lparr>is_contents := map Some ?A @ G @ map Some ?B\<rparr>)"
  proof (cases "p < ?n")
    case True
    let ?m = "map Some ?A @ map Some ?B @ replicate ?e None"
    let ?G = "take ?e (map Some ?B @ replicate ?e None)"
    have "memmove (Suc p * ?e) (p * ?e) ((?n - p) * ?e) ?m =
      Some (take (Suc p * ?e) ?m @ take ((?n - p) * ?e) (drop (p * ?e) ?m) @ drop (Suc p * ?e + (?n - p) * ?e) ?m)"
      using la lb by (simp add: memmove_def)
    also have "take (Suc p * ?e) ?m = map Some ?A @ ?G"
      using la by simp
    also have "take ((?n - p) * ?e) (drop (p * ?e) ?m) = map Some ?B"
      using la lb by simp
    also have "drop (Suc p * ?e + (?n - p) * ?e) ?m = []"
      using la lb by simp
    finally have "intsetMoveTail s1 p (Suc p) = Some (s\<lparr>is_contents := map Some ?A @ ?G @ map Some ?B\<rparr>)"
      using enc len room p by (subst moveTail_eq) (simp_all add: s1)
    moreover have "length ?G = ?e" by simp
    ultimately show thesis using that [of ?G] True len by simp
  next
    case False
    then show thesis using that [of "replicate ?e None"] s1 p len by simp
  qed
  have set: "intsetSet (s\<lparr>is_contents := map Some ?A @ G @ map Some ?B\<rparr>) (int p) v =
      Some (s\<lparr>is_contents := map Some ?A @ map Some (le_enc ?e v) @ map Some ?B\<rparr>)"
    using enc la G by (subst set_eq) (simp_all add: wr_mid)
  have ins: "insort v vs = take p vs @ v # drop p vs"
    using ins_pos_insort [OF srt pos] by simp
  have "intset_rep (s\<lparr>is_contents := map Some ?A @ map Some (le_enc ?e v) @ map Some ?B, is_length := Suc ?n\<rparr>) (insort v vs)"
  proof (rule repI)
    show "is_contents (s\<lparr>is_contents := map Some ?A @ map Some (le_enc ?e v) @ map Some ?B, is_length := Suc ?n\<rparr>) =
      map Some (concat (map (le_enc (is_encoding (s\<lparr>is_contents := map Some ?A @ map Some (le_enc ?e v) @ map Some ?B, is_length := Suc ?n\<rparr>))) (insort v vs)))"
      by (simp add: ins)
  qed (use enc room fit v srt notin in \<open>simp_all add: list_all_iff set_insort_key sorted_insort_strict\<close>)
  then show ?thesis
    unfolding s1_def [symmetric] s2 using set len by simp
qed

lemma intset_add_correct:
  assumes rep: "intset_rep s vs" and v: "is_int64 v" and room: "Suc (length vs) < 2 ^ 29"
  shows "\<exists>s'. intsetAdd s v = Some (s', v \<notin> set vs) \<and>
    intset_rep s' (if v \<in> set vs then vs else insort v vs) \<and>
    is_encoding s' = max (is_encoding s) (intsetValueEncoding v)"
proof (cases "intsetValueEncoding v > is_encoding s")
  case True
  then show ?thesis
    using upgrade_correct [OF rep _ v room] by (auto simp: intsetAdd_def)
next
  case False
  have len: "is_length s = length vs" using rep by (simp add: intset_rep_def)
  have fit: "fits (is_encoding s) v"
    using False fits_iff [OF rep_is_enc [OF rep] v] by simp
  obtain found pos where r: "intsetSearch s v = Some (found, pos)"
    and post: "if found then pos < length vs \<and> vs ! pos = v else ins_pos vs v pos"
    using intset_search_correct [OF rep] by blast
  have found: "found \<longleftrightarrow> v \<in> set vs" by (rule search_found_iff [OF post])
  show ?thesis
  proof (cases found)
    case True
    then show ?thesis
      using False r found rep by (simp add: intsetAdd_def)
  next
    case nf: False
    then have pos: "ins_pos vs v pos" using post by simp
    then have pl: "pos \<le> length vs" by (simp add: ins_pos_def)
    have c: "c_uint32 (int (length vs) + 1) = Suc (length vs)" "c_uint32 (int pos + 1) = Suc pos"
      "c_int (int pos) = int pos"
      using room pl by simp_all
    define s1 where "s1 = intsetResize s (Suc (length vs))"
    have l1: "is_length s1 = is_length s" by (simp add: s1_def intsetResize_def)
    obtain s2 s3 where "(if pos < is_length s then intsetMoveTail s1 pos (Suc pos) else Some s1) = Some s2"
      "intsetSet s2 (int pos) v = Some s3" "is_length s3 = length vs" "is_encoding s3 = is_encoding s"
      "intset_rep (s3\<lparr>is_length := Suc (length vs)\<rparr>) (insort v vs)"
      using insert_in_place [OF rep pos fit room] unfolding s1_def by blast
    moreover from this have "intsetAdd s v = Some (s3\<lparr>is_length := Suc (length vs)\<rparr>, True)"
      using False nf unfolding intsetAdd_def Let_def r len by (auto simp: c s1_def [symmetric] l1 len split: if_splits)
    ultimately show ?thesis using found nf False by auto
  qed
qed


subsection \<open>Removal and lookup\<close>

lemma remove1_nth:
  assumes "sorted_wrt (<) vs" "p < length vs"
  shows "remove1 (vs ! p) (vs :: int list) = take p vs @ drop (Suc p) vs"
proof -
  have "vs ! p \<notin> set (take p vs)"
  proof
    assume "vs ! p \<in> set (take p vs)"
    then obtain i where "i < p" "vs ! i = vs ! p" using assms(2) by (auto simp: in_set_conv_nth)
    moreover from this have "vs ! i < vs ! p"
      using sorted_wrt_nth_less [OF assms(1) _ assms(2)] by blast
    ultimately show False by simp
  qed
  moreover have "vs = take p vs @ vs ! p # drop (Suc p) vs"
    using assms(2) by (simp add: id_take_nth_drop)
  ultimately show ?thesis
    by (metis remove1.simps(2) remove1_append)
qed

lemma sorted_remove1_strict: "sorted_wrt (<) vs \<Longrightarrow> sorted_wrt (<) (remove1 v (vs :: int list))"
  by (simp add: strict_sorted_iff sorted_remove1)

lemma remove_in_place:
  assumes rep: "intset_rep s vs" and p: "p < length vs"
  shows "\<exists>s1. (if p < length vs - 1 then intsetMoveTail s (Suc p) p else Some s) = Some s1 \<and>
    intset_rep ((intsetResize s1 (length vs - 1))\<lparr>is_length := length vs - 1\<rparr>) (remove1 (vs ! p) vs)"
proof -
  let ?e = "is_encoding s" and ?n = "length vs"
  let ?A = "concat (map (le_enc ?e) (take p vs))" and ?x = "le_enc ?e (vs ! p)"
    and ?B = "concat (map (le_enc ?e) (drop (Suc p) vs))"
  have enc: "is_enc ?e" and len: "is_length s = ?n" and bnd: "?n < 2 ^ 29"
    using rep rep_is_enc by (auto simp: intset_rep_def)
  have fit: "\<forall>x \<in> set vs. fits ?e x" and srt: "sorted_wrt (<) vs"
    using rep by (auto simp: intset_rep_def list_all_iff)
  have la: "length ?A = p * ?e" and lb: "length ?B = (?n - Suc p) * ?e"
    using p by (simp_all add: length_concat_const)
  have "concat (map (le_enc ?e) vs) = ?A @ ?x @ ?B"
    by (subst id_take_nth_drop [OF p]) simp
  then have m: "is_contents s = map Some ?A @ map Some ?x @ map Some ?B"
    using rep_pack [OF rep] by simp
  have split: "(?n - 1) * ?e = p * ?e + (?n - Suc p) * ?e"
    using p by (simp add: add_mult_distrib [symmetric])
  obtain G where s1: "(if p < ?n - 1 then intsetMoveTail s (Suc p) p else Some s) =
      Some (s\<lparr>is_contents := map Some ?A @ map Some ?B @ G\<rparr>)"
  proof (cases "p < ?n - 1")
    case True
    let ?G = "drop (p * ?e + (?n - Suc p) * ?e) (is_contents s)"
    have "memmove (p * ?e) (Suc p * ?e) ((?n - Suc p) * ?e) (is_contents s) =
      Some (map Some ?A @ map Some ?B @ ?G)"
      using la lb by (simp add: memmove_def m)
    then have "intsetMoveTail s (Suc p) p = Some (s\<lparr>is_contents := map Some ?A @ map Some ?B @ ?G\<rparr>)"
      using enc p len bnd by (subst moveTail_eq) simp_all
    then show thesis using that True by simp
  next
    case False
    then have "drop (Suc p) vs = []" using p by simp
    then have "is_contents s = map Some ?A @ map Some ?B @ map Some ?x" using m by simp
    then have "s = s\<lparr>is_contents := map Some ?A @ map Some ?B @ map Some ?x\<rparr>"
      by (cases s) simp
    then show thesis using that [of "map Some ?x"] False by simp
  qed
  let ?s1 = "s\<lparr>is_contents := map Some ?A @ map Some ?B @ G\<rparr>"
  have lG: "(?n - 1) * ?e \<le> length (map Some ?A @ map Some ?B @ G)"
    using la lb split by simp
  have rz: "intsetResize ?s1 (?n - 1) = s\<lparr>is_contents := map Some ?A @ map Some ?B\<rparr>"
    using enc bnd la lb split by (subst resize_eq) (simp_all add: realloc_mem_def)
  have "intset_rep (s\<lparr>is_contents := map Some ?A @ map Some ?B, is_length := ?n - 1\<rparr>) (remove1 (vs ! p) vs)"
    (is "intset_rep ?s2 _")
  proof (rule repI)
    show "is_contents ?s2 = map Some (concat (map (le_enc (is_encoding ?s2)) (remove1 (vs ! p) vs)))"
      using remove1_nth [OF srt p] by simp
    show "list_all (fits (is_encoding ?s2)) (remove1 (vs ! p) vs)"
      using fit set_remove1_subset [of "vs ! p" vs] by (auto simp: list_all_iff)
  qed (use enc bnd srt p in \<open>simp_all add: sorted_remove1_strict length_remove1\<close>)
  then show ?thesis
    unfolding s1 using rz by simp
qed

lemma remove_correct:
  assumes rep: "intset_rep s vs" and v: "is_int64 v"
  shows "\<exists>s'. intsetRemove s v = Some (s', v \<in> set vs) \<and> intset_rep s' (remove1 v vs)"
proof (cases "intsetValueEncoding v \<le> is_encoding s")
  case False
  then have "v \<notin> set vs"
    using rep fits_iff [OF rep_is_enc [OF rep] v] by (auto simp: intset_rep_def list_all_iff)
  then show ?thesis using False rep by (simp add: intsetRemove_def remove1_idem)
next
  case True
  have len: "is_length s = length vs" and bnd: "length vs < 2 ^ 29"
    using rep by (simp_all add: intset_rep_def)
  obtain found pos where r: "intsetSearch s v = Some (found, pos)"
    and post: "if found then pos < length vs \<and> vs ! pos = v else ins_pos vs v pos"
    using intset_search_correct [OF rep] by blast
  have found: "found \<longleftrightarrow> v \<in> set vs" by (rule search_found_iff [OF post])
  show ?thesis
  proof (cases found)
    case False
    then show ?thesis
      using True r found rep by (simp add: intsetRemove_def remove1_idem)
  next
    case f: True
    then have p: "pos < length vs" "vs ! pos = v" using post by simp_all
    have "int (length vs) - 1 = int (length vs - 1)" using p(1) by linarith
    then have c: "c_uint32 (int (length vs) - 1) = length vs - 1" "c_uint32 (int pos + 1) = Suc pos"
      using bnd p(1) by (simp_all del: of_nat_diff)
    obtain s1 where "(if pos < length vs - 1 then intsetMoveTail s (Suc pos) pos else Some s) = Some s1"
      "intset_rep ((intsetResize s1 (length vs - 1))\<lparr>is_length := length vs - 1\<rparr>) (remove1 v vs)"
      using remove_in_place [OF rep p(1)] p(2) by blast
    then show ?thesis
      using True f found unfolding intsetRemove_def Let_def r len c by (auto simp: c(2) split: if_splits)
  qed
qed

lemma intset_find_correct:
  assumes rep: "intset_rep s vs" and v: "is_int64 v"
  shows "intsetFind s v = Some (v \<in> set vs)"
proof (cases "intsetValueEncoding v \<le> is_encoding s")
  case False
  then have "v \<notin> set vs"
    using rep fits_iff [OF rep_is_enc [OF rep] v] by (auto simp: intset_rep_def list_all_iff)
  then show ?thesis using False by (simp add: intsetFind_def)
next
  case True
  obtain found pos where r: "intsetSearch s v = Some (found, pos)"
    and post: "if found then pos < length vs \<and> vs ! pos = v else ins_pos vs v pos"
    using intset_search_correct [OF rep] by blast
  then show ?thesis
    using True search_found_iff [OF post] by (simp add: intsetFind_def)
qed

subsection \<open>The set contract\<close>

definition intset_vals :: "intset \<Rightarrow> int list" where
  "intset_vals s = map (\<lambda>i. the (intsetGet0 s (int i))) [0..<is_length s]"

definition intset_inv :: "intset \<Rightarrow> bool" where
  "intset_inv s \<longleftrightarrow> intset_rep s (intset_vals s)"

lemma rep_vals: "intset_rep s vs \<Longrightarrow> intset_vals s = vs"
proof (rule nth_equalityI)
  assume rep: "intset_rep s vs"
  then show len: "length (intset_vals s) = length vs" by (simp add: intset_vals_def intset_rep_def)
  fix i assume "i < length (intset_vals s)"
  then show "intset_vals s ! i = vs ! i"
    using rep_get [OF rep, of i] len by (simp add: intset_vals_def)
qed

lemma rep_inv: "intset_rep s vs \<Longrightarrow> intset_inv s"
  by (simp add: intset_inv_def rep_vals)

lemma rep_distinct: "intset_rep s vs \<Longrightarrow> distinct vs"
  by (simp add: intset_rep_def strict_sorted_iff)

lemma new_rep: "intset_rep intsetNew []"
  by (simp add: intset_rep_def intsetNew_def)

interpretation iset: bounded_set intsetNew intsetAdd intsetRemove intsetFind
  "\<lambda>s. set (intset_vals s)" intset_inv is_int64 "2 ^ 29"
proof
  fix s x assume inv: "intset_inv s" and x: "is_int64 x"
  note rep = inv [unfolded intset_inv_def]
  show "intsetFind s x = Some (x \<in> set (intset_vals s))"
    by (rule intset_find_correct [OF rep x])
  obtain s' where s': "intsetRemove s x = Some (s', x \<in> set (intset_vals s))"
    "intset_rep s' (remove1 x (intset_vals s))"
    using remove_correct [OF rep x] by blast
  then show "\<exists>s'. intsetRemove s x = Some (s', x \<in> set (intset_vals s)) \<and> intset_inv s' \<and>
      set (intset_vals s') = set (intset_vals s) - {x}"
    using rep_inv [OF s'(2)] rep_vals [OF s'(2)] rep_distinct [OF rep] by simp
  assume "Suc (card (set (intset_vals s))) < 2 ^ 29"
  then have "Suc (length (intset_vals s)) < 2 ^ 29"
    using rep_distinct [OF rep] by (simp add: distinct_card)
  then obtain s' where s': "intsetAdd s x = Some (s', x \<notin> set (intset_vals s))"
    "intset_rep s' (if x \<in> set (intset_vals s) then intset_vals s else insort x (intset_vals s))"
    using intset_add_correct [OF rep x] by blast
  then show "\<exists>s'. intsetAdd s x = Some (s', x \<notin> set (intset_vals s)) \<and> intset_inv s' \<and>
      set (intset_vals s') = insert x (set (intset_vals s))"
    using rep_inv [OF s'(2)] rep_vals [OF s'(2)] by (auto simp: set_insort_key)
qed (simp_all add: rep_inv [OF new_rep] rep_vals [OF new_rep])

section \<open>Properties\<close>

text \<open>
  Property C11. Starting from \<^verbatim>\<open>intsetNew\<close>, every sequence of fewer than \<open>2 ^ 29\<close> calls of
  \<^verbatim>\<open>intsetAdd\<close>, \<^verbatim>\<open>intsetRemove\<close> and \<^verbatim>\<open>intsetFind\<close> with \<^verbatim>\<open>int64_t\<close>
  arguments runs to its end with every memory access inside the block and initialised, keeps the
  block well formed, and returns the same flags as the operations on a mathematical set.
\<close>

theorem intset_refines_set:
  assumes "list_all (is_int64 \<circ> op_arg) ops" "length ops < 2 ^ 29"
  shows "\<exists>s bs. run_ops intsetAdd intsetRemove intsetFind intsetNew ops = Some (s, bs) \<and>
    intset_inv s \<and> spec_ops {} ops = (set (intset_vals s), bs)"
  by (rule iset.run_from_empty [OF assms])

theorem intset_refines_set_witness:
  "\<exists>s bs. run_ops intsetAdd intsetRemove intsetFind intsetNew [Add 5, Add 70000, Rem 5, Isin (- 1)] = Some (s, bs) \<and>
    intset_inv s \<and> spec_ops {} [Add 5, Add 70000, Rem 5, Isin (- 1)] = (set (intset_vals s), bs)"
  by (rule intset_refines_set) (simp_all add: is_int64_def)

text \<open>
  Property C18. \<^verbatim>\<open>intsetAdd\<close> on a block that holds \<open>vs\<close>: the values stay strictly ascending and
  packed in one width, a new value is put at its sorted position, a value already present leaves
  the block as it is, the flag tells which of the two happened, and the width becomes the larger of
  the old one and the one the value needs (so no member is truncated by an upgrade).
\<close>

theorem intset_add_layout:
  assumes "intset_rep s vs" "is_int64 v" "Suc (length vs) < 2 ^ 29"
  shows "\<exists>s'. intsetAdd s v = Some (s', v \<notin> set vs) \<and>
    intset_rep s' (if v \<in> set vs then vs else insort v vs) \<and>
    is_encoding s' = max (is_encoding s) (intsetValueEncoding v)"
  using assms by (rule intset_add_correct)

theorem intset_add_layout_witness:
  "\<exists>s'. intsetAdd intsetNew 70000 = Some (s', 70000 \<notin> set ([] :: int list)) \<and>
    intset_rep s' (if 70000 \<in> set ([] :: int list) then [] else insort 70000 []) \<and>
    is_encoding s' = max (is_encoding intsetNew) (intsetValueEncoding 70000)"
  by (rule intset_add_layout [OF new_rep]) (simp_all add: is_int64_def)



end
