(* ===== verification/Dict.thy ===== *)
theory Dict
  imports Map_Iface "HOL-Library.Multiset"
begin

text \<open>
  The hash table of \<^verbatim>\<open>dict.c\<close>: two power-of-two bucket arrays with chaining, and
  incremental rehashing that moves the buckets of \<^verbatim>\<open>ht[0]\<close> to \<^verbatim>\<open>ht[1]\<close> one at a time
  while the table is in use.

  A chain is the list of its entries from the bucket pointer on, an entry pointer is the position
  (table, bucket, place in the chain) of the entry, and a value that was not set yet is \<^term>\<open>None\<close>.
  The result \<^term>\<open>None\<close> of an operation is undefined behaviour or a failed assertion. The
  functions of the \<^verbatim>\<open>dictType\<close> are the caller's code; what the table relies on is \<open>dtype_ok\<close>.
\<close>

section \<open>Data\<close>

record ('k, 'v) dictEntry =
  de_key :: 'k
  de_val :: "'v option"

record ('k, 'v) dictType =
  hashFunction :: "'k \<Rightarrow> u64"
  keyDup :: "('k \<Rightarrow> 'k) option"
  valDup :: "('v \<Rightarrow> 'v) option"
  keyCompare :: "('k \<Rightarrow> 'k \<Rightarrow> bool) option"

type_synonym ('k, 'v) chain = "('k, 'v) dictEntry list"

text \<open>\<open>table = []\<close> is the null pointer.\<close>

record ('k, 'v) dictht =
  table :: "('k, 'v) chain list"
  size :: nat
  sizemask :: u64
  used :: nat

record ('k, 'v) dict =
  d_type :: "('k, 'v) dictType"
  ht0 :: "('k, 'v) dictht"
  ht1 :: "('k, 'v) dictht"
  rehashidx :: int
  iterators :: nat

type_synonym entry_ref = "nat \<times> nat \<times> nat"

datatype dict_status = DICT_OK | DICT_ERR

definition DICT_HT_INITIAL_SIZE :: nat where "DICT_HT_INITIAL_SIZE = 4"
definition dict_force_resize_ratio :: nat where "dict_force_resize_ratio = 5"

definition dictIsRehashing :: "('k, 'v) dict \<Rightarrow> bool" where
  "dictIsRehashing d \<longleftrightarrow> rehashidx d \<noteq> - 1"

definition dictSize :: "('k, 'v) dict \<Rightarrow> nat" where
  "dictSize d = used (ht0 d) + used (ht1 d)"

definition dictHashKey :: "('k, 'v) dict \<Rightarrow> 'k \<Rightarrow> u64" where
  "dictHashKey d key = hashFunction (d_type d) key"

definition dictCompareKeys :: "('k, 'v) dictType \<Rightarrow> 'k \<Rightarrow> 'k \<Rightarrow> bool" where
  "dictCompareKeys t key1 key2 = (case keyCompare t of Some f \<Rightarrow> f key1 key2 | None \<Rightarrow> key1 = key2)"

text \<open>The values stored by \<^verbatim>\<open>dictSetKey\<close> and \<^verbatim>\<open>dictSetVal\<close>.\<close>

definition dictSetKey :: "('k, 'v) dict \<Rightarrow> 'k \<Rightarrow> 'k" where
  "dictSetKey d key = (case keyDup (d_type d) of Some f \<Rightarrow> f key | None \<Rightarrow> key)"

definition dictDupVal :: "('k, 'v) dict \<Rightarrow> 'v \<Rightarrow> 'v" where
  "dictDupVal d val = (case valDup (d_type d) of Some f \<Rightarrow> f val | None \<Rightarrow> val)"

section \<open>Creation and resizing\<close>

definition dictReset :: "unit \<Rightarrow> ('k, 'v) dictht" where
  "dictReset u = \<lparr>table = [], size = 0, sizemask = 0, used = 0\<rparr>"

definition dictCreate :: "('k, 'v) dictType \<Rightarrow> ('k, 'v) dict" where
  "dictCreate type = \<lparr>d_type = type, ht0 = dictReset (), ht1 = dictReset (), rehashidx = - 1, iterators = 0\<rparr>"

function dictNextPower_loop :: "nat \<Rightarrow> nat \<Rightarrow> nat" where
  "dictNextPower_loop i n = (if i \<ge> n \<or> i = 0 then i else dictNextPower_loop (i * 2) n)"
  by pat_completeness auto
termination
  by (relation "measure (\<lambda>(i, n). n - i)") auto

declare dictNextPower_loop.simps [simp del]

definition dictNextPower :: "nat \<Rightarrow> nat" where
  "dictNextPower n =
     (if int n \<ge> INT64_MAX then nat (INT64_MAX + 1) else dictNextPower_loop DICT_HT_INITIAL_SIZE n)"

definition dictExpand :: "('k, 'v) dict \<Rightarrow> nat \<Rightarrow> ('k, 'v) dict \<times> dict_status" where
  "dictExpand d n =
     (if dictIsRehashing d \<or> used (ht0 d) > n then (d, DICT_ERR)
      else
        let realsize = dictNextPower n in
        if realsize = size (ht0 d) then (d, DICT_ERR)
        else
          let h = \<lparr>table = replicate realsize [], size = realsize, sizemask = of_nat realsize - 1, used = 0\<rparr> in
          if table (ht0 d) = [] then (d\<lparr>ht0 := h\<rparr>, DICT_OK)
          else (d\<lparr>ht1 := h, rehashidx := 0\<rparr>, DICT_OK))"

text \<open>\<^verbatim>\<open>minimal\<close> is an \<^verbatim>\<open>int\<close>: the number of entries is truncated to 32 bits.\<close>

definition dictResize :: "bool \<Rightarrow> ('k, 'v) dict \<Rightarrow> ('k, 'v) dict \<times> dict_status" where
  "dictResize dict_can_resize d =
     (if \<not> dict_can_resize \<or> dictIsRehashing d then (d, DICT_ERR)
      else let minimal = signed_take_bit 31 (int (used (ht0 d))) in
        dictExpand d (if minimal < int DICT_HT_INITIAL_SIZE then DICT_HT_INITIAL_SIZE else nat minimal))"

definition dictExpandIfNeeded :: "bool \<Rightarrow> ('k, 'v) dict \<Rightarrow> ('k, 'v) dict \<times> dict_status" where
  "dictExpandIfNeeded dict_can_resize d =
     (if dictIsRehashing d then (d, DICT_OK)
      else if size (ht0 d) = 0 then dictExpand d DICT_HT_INITIAL_SIZE
      else if used (ht0 d) \<ge> size (ht0 d) \<and>
          (dict_can_resize \<or> used (ht0 d) div size (ht0 d) > dict_force_resize_ratio)
        then dictExpand d (used (ht0 d) * 2)
      else (d, DICT_OK))"

section \<open>Incremental rehashing\<close>

text \<open>
  The scan for a non-empty bucket. The result is the new \<^verbatim>\<open>rehashidx\<close>, the remaining
  \<^verbatim>\<open>empty_visits\<close> and whether the visits ran out.
\<close>

function skip_empty :: "('k, 'v) chain list \<Rightarrow> nat \<Rightarrow> int \<Rightarrow> (nat \<times> int \<times> bool) option" where
  "skip_empty tb idx ev =
     (if idx \<ge> length tb then None
      else if tb ! idx = [] then
        (if ev - 1 = 0 then Some (Suc idx, 0, True) else skip_empty tb (Suc idx) (ev - 1))
      else Some (idx, ev, False))"
  by pat_completeness auto
termination
  by (relation "measure (\<lambda>(tb, idx, ev). length tb - idx)") auto

declare skip_empty.simps [simp del]

text \<open>Moving the entries of one chain, in order, to the heads of their chains in \<^verbatim>\<open>ht[1]\<close>.\<close>

fun move_chain :: "('k, 'v) dict \<Rightarrow> ('k, 'v) chain \<Rightarrow> ('k, 'v) dict option" where
  "move_chain d [] = Some d"
| "move_chain d (de # des) =
     do {
       let h = unat (dictHashKey d (de_key de) AND sizemask (ht1 d));
       c \<leftarrow> nth_opt (table (ht1 d)) h;
       move_chain (d\<lparr>ht0 := (ht0 d)\<lparr>used := used (ht0 d) - 1\<rparr>,
                     ht1 := (ht1 d)\<lparr>table := (table (ht1 d))[h := de # c], used := used (ht1 d) + 1\<rparr>\<rparr>) des
     }"

text \<open>The main loop; the flag tells that the function returned 1 from inside of it.\<close>

fun dictRehash_loop :: "('k, 'v) dict \<Rightarrow> nat \<Rightarrow> int \<Rightarrow> (('k, 'v) dict \<times> bool) option" where
  "dictRehash_loop d 0 ev = Some (d, False)"
| "dictRehash_loop d (Suc n) ev =
     (if used (ht0 d) = 0 then Some (d, False)
      else if \<not> int (size (ht0 d)) > rehashidx d then None
      else do {
        (idx, ev', stop) \<leftarrow> skip_empty (table (ht0 d)) (nat (rehashidx d)) ev;
        if stop then Some (d\<lparr>rehashidx := int idx\<rparr>, True)
        else do {
          c \<leftarrow> nth_opt (table (ht0 d)) idx;
          d' \<leftarrow> move_chain d c;
          dictRehash_loop
            (d'\<lparr>ht0 := (ht0 d')\<lparr>table := (table (ht0 d'))[idx := []]\<rparr>, rehashidx := int idx + 1\<rparr>) n ev'
        }
      })"

text \<open>The flag of the result is the return value (1: there are still keys to move).\<close>

definition dictRehash :: "('k, 'v) dict \<Rightarrow> nat \<Rightarrow> (('k, 'v) dict \<times> bool) option" where
  "dictRehash d n =
     (if \<not> dictIsRehashing d then Some (d, False)
      else do {
        (d', stop) \<leftarrow> dictRehash_loop d n (int n * 10);
        if stop then Some (d', True)
        else if used (ht0 d') = 0
          then Some (d'\<lparr>ht0 := ht1 d', ht1 := dictReset (), rehashidx := - 1\<rparr>, False)
        else Some (d', True)
      })"

definition dictRehashStep :: "('k, 'v) dict \<Rightarrow> ('k, 'v) dict option" where
  "dictRehashStep d = (if iterators d = 0 then map_option fst (dictRehash d 1) else Some d)"

section \<open>Lookup\<close>

text \<open>The walk along a chain: the place of the first entry with an equal key.\<close>

fun chain_find :: "('k, 'v) dictType \<Rightarrow> 'k \<Rightarrow> ('k, 'v) chain \<Rightarrow> nat option" where
  "chain_find t key [] = None"
| "chain_find t key (he # hes) =
     (if key = de_key he \<or> dictCompareKeys t key (de_key he) then Some 0
      else map_option Suc (chain_find t key hes))"

text \<open>
  The loop over the two tables that \<^verbatim>\<open>dictFind\<close>, \<^verbatim>\<open>dictGenericDelete\<close> and
  \<^verbatim>\<open>_dictKeyIndex\<close> share: the entry that was found, and the bucket index computed last.
\<close>

definition dict_search :: "('k, 'v) dict \<Rightarrow> 'k \<Rightarrow> u64 \<Rightarrow> (entry_ref option \<times> nat) option" where
  "dict_search d key h =
     do {
       let idx = unat (h AND sizemask (ht0 d));
       c \<leftarrow> nth_opt (table (ht0 d)) idx;
       case chain_find (d_type d) key c of
         Some p \<Rightarrow> Some (Some (0, idx, p), idx)
       | None \<Rightarrow>
           if \<not> dictIsRehashing d then Some (None, idx)
           else do {
             let idx1 = unat (h AND sizemask (ht1 d));
             c1 \<leftarrow> nth_opt (table (ht1 d)) idx1;
             case chain_find (d_type d) key c1 of
               Some p \<Rightarrow> Some (Some (1, idx1, p), idx1)
             | None \<Rightarrow> Some (None, idx1)
           }
     }"

definition dictFind :: "('k, 'v) dict \<Rightarrow> 'k \<Rightarrow> (('k, 'v) dict \<times> entry_ref option) option" where
  "dictFind d key =
     (if used (ht0 d) + used (ht1 d) = 0 then Some (d, None)
      else do {
        d1 \<leftarrow> (if dictIsRehashing d then dictRehashStep d else Some d);
        (r, idx) \<leftarrow> dict_search d1 key (dictHashKey d1 key);
        Some (d1, r)
      })"

definition entry_at :: "('k, 'v) dict \<Rightarrow> entry_ref \<Rightarrow> ('k, 'v) dictEntry option" where
  "entry_at d = (\<lambda>(t, i, p). do {
     c \<leftarrow> nth_opt (table (if t = 0 then ht0 d else ht1 d)) i;
     nth_opt c p
   })"

definition dictFetchValue :: "('k, 'v) dict \<Rightarrow> 'k \<Rightarrow> (('k, 'v) dict \<times> 'v option) option" where
  "dictFetchValue d key =
     do {
       (d1, he) \<leftarrow> dictFind d key;
       case he of None \<Rightarrow> Some (d1, None)
       | Some r \<Rightarrow> do { e \<leftarrow> entry_at d1 r; Some (d1, de_val e) }
     }"

section \<open>Insertion\<close>

text \<open>\<open>Inl r\<close> is the result -1 with \<^verbatim>\<open>existing\<close> set to \<open>r\<close>.\<close>

definition dictKeyIndex :: "bool \<Rightarrow> ('k, 'v) dict \<Rightarrow> 'k \<Rightarrow> u64 \<Rightarrow>
    (('k, 'v) dict \<times> (entry_ref option + nat)) option" where
  "dictKeyIndex dict_can_resize d key hash =
     (case dictExpandIfNeeded dict_can_resize d of
        (d1, DICT_ERR) \<Rightarrow> Some (d1, Inl None)
      | (d1, DICT_OK) \<Rightarrow> do {
          (r, idx) \<leftarrow> dict_search d1 key hash;
          Some (d1, case r of Some e \<Rightarrow> Inl (Some e) | None \<Rightarrow> Inr idx)
        })"

text \<open>\<open>Inr r\<close> is the new entry, \<open>Inl r\<close> is a null result with \<^verbatim>\<open>existing\<close> set to \<open>r\<close>.\<close>

definition dictAddRaw :: "bool \<Rightarrow> ('k, 'v) dict \<Rightarrow> 'k \<Rightarrow>
    (('k, 'v) dict \<times> (entry_ref option + entry_ref)) option" where
  "dictAddRaw dict_can_resize d key =
     do {
       d1 \<leftarrow> (if dictIsRehashing d then dictRehashStep d else Some d);
       (d2, r) \<leftarrow> dictKeyIndex dict_can_resize d1 key (dictHashKey d1 key);
       case r of
         Inl existing \<Rightarrow> Some (d2, Inl existing)
       | Inr index \<Rightarrow>
           let entry = \<lparr>de_key = dictSetKey d2 key, de_val = None\<rparr> in
           if dictIsRehashing d2 then do {
             c \<leftarrow> nth_opt (table (ht1 d2)) index;
             Some (d2\<lparr>ht1 := (ht1 d2)\<lparr>table := (table (ht1 d2))[index := entry # c], used := used (ht1 d2) + 1\<rparr>\<rparr>,
                   Inr (1, index, 0))
           } else do {
             c \<leftarrow> nth_opt (table (ht0 d2)) index;
             Some (d2\<lparr>ht0 := (ht0 d2)\<lparr>table := (table (ht0 d2))[index := entry # c], used := used (ht0 d2) + 1\<rparr>\<rparr>,
                   Inr (0, index, 0))
           }
     }"

definition upd_entry :: "nat \<Rightarrow> nat \<Rightarrow> 'v \<Rightarrow> ('k, 'v) dictht \<Rightarrow> ('k, 'v) dictht option" where
  "upd_entry i p v h =
     do {
       c \<leftarrow> nth_opt (table h) i;
       e \<leftarrow> nth_opt c p;
       Some (h\<lparr>table := (table h)[i := c[p := e\<lparr>de_val := Some v\<rparr>]]\<rparr>)
     }"

definition dictSetVal :: "('k, 'v) dict \<Rightarrow> entry_ref \<Rightarrow> 'v \<Rightarrow> ('k, 'v) dict option" where
  "dictSetVal d r val =
     (case r of (t, i, p) \<Rightarrow>
        if t = 0 then map_option (\<lambda>h. d\<lparr>ht0 := h\<rparr>) (upd_entry i p (dictDupVal d val) (ht0 d))
        else map_option (\<lambda>h. d\<lparr>ht1 := h\<rparr>) (upd_entry i p (dictDupVal d val) (ht1 d)))"

definition dictAdd :: "bool \<Rightarrow> ('k, 'v) dict \<Rightarrow> 'k \<Rightarrow> 'v \<Rightarrow> (('k, 'v) dict \<times> dict_status) option" where
  "dictAdd dict_can_resize d key val =
     do {
       (d1, r) \<leftarrow> dictAddRaw dict_can_resize d key;
       case r of Inl _ \<Rightarrow> Some (d1, DICT_ERR)
       | Inr entry \<Rightarrow> do { d2 \<leftarrow> dictSetVal d1 entry val; Some (d2, DICT_OK) }
     }"

text \<open>The flag is the return value (1: the key was added). A null \<^verbatim>\<open>existing\<close> would be dereferenced.\<close>

definition dictReplace :: "bool \<Rightarrow> ('k, 'v) dict \<Rightarrow> 'k \<Rightarrow> 'v \<Rightarrow> (('k, 'v) dict \<times> bool) option" where
  "dictReplace dict_can_resize d key val =
     do {
       (d1, r) \<leftarrow> dictAddRaw dict_can_resize d key;
       case r of
         Inr entry \<Rightarrow> do { d2 \<leftarrow> dictSetVal d1 entry val; Some (d2, True) }
       | Inl None \<Rightarrow> None
       | Inl (Some existing) \<Rightarrow> do { d2 \<leftarrow> dictSetVal d1 existing val; Some (d2, False) }
     }"

definition dictAddOrFind :: "bool \<Rightarrow> ('k, 'v) dict \<Rightarrow> 'k \<Rightarrow> (('k, 'v) dict \<times> entry_ref option) option" where
  "dictAddOrFind dict_can_resize d key =
     do {
       (d1, r) \<leftarrow> dictAddRaw dict_can_resize d key;
       Some (d1, case r of Inr entry \<Rightarrow> Some entry | Inl existing \<Rightarrow> existing)
     }"

section \<open>Deletion\<close>

definition unlink_entry :: "nat \<Rightarrow> nat \<Rightarrow> ('k, 'v) dictht \<Rightarrow> ('k, 'v) dictht option" where
  "unlink_entry i p h =
     do {
       c \<leftarrow> nth_opt (table h) i;
       Some (h\<lparr>table := (table h)[i := take p c @ drop (Suc p) c], used := used h - 1\<rparr>)
     }"

text \<open>The result is the unlinked entry; freeing it has no effect on the table.\<close>

definition dictGenericDelete :: "('k, 'v) dict \<Rightarrow> 'k \<Rightarrow>
    (('k, 'v) dict \<times> ('k, 'v) dictEntry option) option" where
  "dictGenericDelete d key =
     (if used (ht0 d) = 0 \<and> used (ht1 d) = 0 then Some (d, None)
      else do {
        d1 \<leftarrow> (if dictIsRehashing d then dictRehashStep d else Some d);
        (r, idx) \<leftarrow> dict_search d1 key (dictHashKey d1 key);
        case r of
          None \<Rightarrow> Some (d1, None)
        | Some (t, i, p) \<Rightarrow> do {
            e \<leftarrow> entry_at d1 (t, i, p);
            d2 \<leftarrow> (if t = 0 then map_option (\<lambda>h. d1\<lparr>ht0 := h\<rparr>) (unlink_entry i p (ht0 d1))
                  else map_option (\<lambda>h. d1\<lparr>ht1 := h\<rparr>) (unlink_entry i p (ht1 d1)));
            Some (d2, Some e)
          }
      })"

definition dictDelete :: "('k, 'v) dict \<Rightarrow> 'k \<Rightarrow> (('k, 'v) dict \<times> dict_status) option" where
  "dictDelete d key =
     do {
       (d1, e) \<leftarrow> dictGenericDelete d key;
       Some (d1, if e \<noteq> None then DICT_OK else DICT_ERR)
     }"

definition dictUnlink :: "('k, 'v) dict \<Rightarrow> 'k \<Rightarrow> (('k, 'v) dict \<times> ('k, 'v) dictEntry option) option" where
  "dictUnlink d key = dictGenericDelete d key"

text \<open>
  The loop of \<^verbatim>\<open>_dictClear\<close>, which stops when \<^verbatim>\<open>used\<close> reaches 0; the result lists the
  entries that were freed.
\<close>

fun dictClear_loop :: "('k, 'v) chain list \<Rightarrow> nat \<Rightarrow> ('k, 'v) dictEntry list" where
  "dictClear_loop [] n = []"
| "dictClear_loop (c # cs) n = (if n > 0 then c @ dictClear_loop cs (n - length c) else [])"

definition dictClear :: "('k, 'v) dictht \<Rightarrow> ('k, 'v) dictht \<times> ('k, 'v) dictEntry list" where
  "dictClear h = (dictReset (), dictClear_loop (take (size h) (table h)) (used h))"

definition dictEmpty :: "('k, 'v) dict \<Rightarrow> ('k, 'v) dict \<times> ('k, 'v) dictEntry list" where
  "dictEmpty d =
     (let (h0, f0) = dictClear (ht0 d); (h1, f1) = dictClear (ht1 d)
      in (d\<lparr>ht0 := h0, ht1 := h1, rehashidx := - 1, iterators := 0\<rparr>, f0 @ f1))"

section \<open>The invariant\<close>

definition same :: "('k, 'v) dictType \<Rightarrow> 'k \<Rightarrow> 'k \<Rightarrow> bool" where
  "same t x y \<longleftrightarrow> x = y \<or> dictCompareKeys t x y"

text \<open>What the table relies on: key comparison is an equivalence, equal keys have equal hashes, and a copied key is equal to the original.\<close>

definition dtype_ok :: "('k, 'v) dictType \<Rightarrow> bool" where
  "dtype_ok t \<longleftrightarrow> equivp (same t) \<and> (\<forall>x y. same t x y \<longrightarrow> hashFunction t x = hashFunction t y) \<and>
     (\<forall>f k. keyDup t = Some f \<longrightarrow> same t k (f k))"

definition cls :: "('k, 'v) dictType \<Rightarrow> 'k \<Rightarrow> 'k set" where
  "cls t k = {x. same t k x}"

lemma cls_eq_iff: "dtype_ok t \<Longrightarrow> cls t x = cls t y \<longleftrightarrow> same t x y"
  unfolding dtype_ok_def cls_def
  by (metis (mono_tags, lifting) Collect_cong equivp_def mem_Collect_eq)

definition ht_shape :: "('k, 'v) dictht \<Rightarrow> bool" where
  "ht_shape h \<longleftrightarrow> (\<exists>k. 2 \<le> k \<and> k < 64 \<and> size h = 2 ^ k \<and> length (table h) = 2 ^ k \<and> sizemask h = mask k)"

definition bucket :: "('k, 'v) dictType \<Rightarrow> ('k, 'v) dictht \<Rightarrow> 'k \<Rightarrow> nat" where
  "bucket t h k = unat (hashFunction t k AND sizemask h)"

definition placed :: "('k, 'v) dictType \<Rightarrow> ('k, 'v) dictht \<Rightarrow> bool" where
  "placed t h \<longleftrightarrow> (\<forall>i < length (table h). \<forall>e \<in> set (table h ! i). bucket t h (de_key e) = i)"

definition ht_inv :: "('k, 'v) dictType \<Rightarrow> ('k, 'v) dictht \<Rightarrow> bool" where
  "ht_inv t h \<longleftrightarrow> used h = length (concat (table h)) \<and>
     (if table h = [] then size h = 0 else ht_shape h \<and> placed t h)"

definition dict_entries :: "('k, 'v) dict \<Rightarrow> ('k, 'v) dictEntry list" where
  "dict_entries d = concat (table (ht0 d)) @ concat (table (ht1 d))"

definition dict_keys :: "('k, 'v) dict \<Rightarrow> 'k set list" where
  "dict_keys d = map (\<lambda>e. cls (d_type d) (de_key e)) (dict_entries d)"

definition dict_inv :: "('k, 'v) dict \<Rightarrow> bool" where
  "dict_inv d \<longleftrightarrow> dtype_ok (d_type d) \<and> ht_inv (d_type d) (ht0 d) \<and> ht_inv (d_type d) (ht1 d) \<and>
     distinct (dict_keys d) \<and>
     (if rehashidx d = - 1 then table (ht1 d) = []
      else table (ht0 d) \<noteq> [] \<and> table (ht1 d) \<noteq> [] \<and> 0 \<le> rehashidx d \<and>
        (\<forall>i < length (table (ht0 d)). int i < rehashidx d \<longrightarrow> table (ht0 d) ! i = []))"

text \<open>The finite map a table stands for, on keys up to \<^const>\<open>same\<close>.\<close>

definition dict_map :: "('k, 'v) dict \<Rightarrow> 'k \<Rightarrow> 'v option option" where
  "dict_map d k = map_of (map (\<lambda>e. (cls (d_type d) (de_key e), de_val e)) (dict_entries d)) (cls (d_type d) k)"

lemma bucket_bound:
  assumes "ht_shape h"
  shows "bucket t h k < length (table h)"
proof -
  obtain n where n: "n < 64" "length (table h) = 2 ^ n" "sizemask h = mask n"
    using assms by (auto simp: ht_shape_def)
  have "unat (take_bit n (hashFunction t k)) < 2 ^ n"
    by (simp add: unsigned_take_bit_eq)
  then show ?thesis by (simp add: bucket_def n take_bit_eq_mask)
qed

lemma bucket_cong: "sizemask h = sizemask h' \<Longrightarrow> bucket t h = bucket t h'"
  by (auto simp: bucket_def fun_eq_iff)

lemma ht_shape_ne: "ht_shape h \<Longrightarrow> table h \<noteq> []"
  by (auto simp: ht_shape_def)

lemma ht_inv_shape: "ht_inv t h \<Longrightarrow> table h \<noteq> [] \<Longrightarrow> ht_shape h"
  by (simp add: ht_inv_def)

subsection \<open>Changing one chain\<close>

definition set_chain :: "('k, 'v) dictht \<Rightarrow> nat \<Rightarrow> ('k, 'v) chain \<Rightarrow> ('k, 'v) dictht" where
  "set_chain h i c = h\<lparr>table := (table h)[i := c], used := used h + length c - length (table h ! i)\<rparr>"

lemma set_chain_simps [simp]:
  "size (set_chain h i c) = size h" "sizemask (set_chain h i c) = sizemask h"
  "table (set_chain h i c) = (table h)[i := c]"
  by (simp_all add: set_chain_def)

lemma set_chain_inv:
  assumes "ht_inv t h" "i < length (table h)" "\<forall>e \<in> set c. bucket t h (de_key e) = i"
  shows "ht_inv t (set_chain h i c)"
proof -
  have sh: "ht_shape h" using assms(1,2) by (auto intro: ht_inv_shape)
  have "length (concat (table h)) + length c = length (concat ((table h)[i := c])) + length (table h ! i)"
    using assms(2) by (subst concat_nth_split [of i]) (simp_all add: concat_update)
  then have "used (set_chain h i c) = length (concat ((table h)[i := c]))"
    using assms(1) by (simp add: set_chain_def ht_inv_def)
  moreover have "ht_shape (set_chain h i c)" using sh by (simp add: ht_shape_def)
  moreover have "placed t (set_chain h i c)"
    using assms sh ht_shape_ne [OF sh] bucket_cong [of "set_chain h i c" h t]
    by (auto simp: placed_def ht_inv_def nth_list_update)
  ultimately show ?thesis using ht_shape_ne [OF sh] by (simp add: ht_inv_def)
qed

lemma set_chain_mset:
  "i < length (table h) \<Longrightarrow>
   mset (concat (table (set_chain h i c))) + mset (table h ! i) = mset (concat (table h)) + mset c"
  by (subst (2) concat_nth_split [of i]) (simp_all add: concat_update)

subsection \<open>Moving a chain\<close>

lemma move_chain_correct:
  assumes "ht_inv (d_type d) (ht1 d)" "table (ht1 d) \<noteq> []"
  shows "\<exists>h1. move_chain d c = Some (d\<lparr>ht0 := (ht0 d)\<lparr>used := used (ht0 d) - length c\<rparr>, ht1 := h1\<rparr>) \<and>
    ht_inv (d_type d) h1 \<and> table h1 \<noteq> [] \<and> mset (concat (table h1)) = mset (concat (table (ht1 d))) + mset c"
  using assms
proof (induction c arbitrary: d)
  case Nil
  have "d\<lparr>ht0 := (ht0 d)\<lparr>used := used (ht0 d)\<rparr>, ht1 := ht1 d\<rparr> = d" by simp
  with Nil show ?case by (intro exI [of _ "ht1 d"]) simp
next
  case (Cons e c)
  let ?t = "d_type d" and ?h1 = "ht1 d"
  let ?i = "bucket ?t ?h1 (de_key e)"
  have i: "?i < length (table ?h1)"
    by (rule bucket_bound [OF ht_inv_shape [OF Cons.prems]])
  define g where "g = set_chain ?h1 ?i (e # table ?h1 ! ?i)"
  define d1 where "d1 = d\<lparr>ht0 := (ht0 d)\<lparr>used := used (ht0 d) - 1\<rparr>, ht1 := g\<rparr>"
  have g: "ht_inv ?t g"
    unfolding g_def using Cons.prems i by (intro set_chain_inv) (auto simp: ht_inv_def placed_def)
  have gm: "mset (concat (table g)) = mset (concat (table ?h1)) + {#e#}"
    using set_chain_mset [OF i, of "e # table ?h1 ! ?i"] by (simp add: g_def)
  have ne: "table g \<noteq> []" using Cons.prems(2) by (simp add: g_def)
  have step: "move_chain d (e # c) = move_chain d1 c"
    using i by (simp add: bucket_def dictHashKey_def d1_def g_def set_chain_def Let_def)
  have "ht_inv (d_type d1) (ht1 d1)" "table (ht1 d1) \<noteq> []" using g ne by (simp_all add: d1_def)
  from Cons.IH [OF this] obtain h1 where h1:
    "move_chain d1 c = Some (d1\<lparr>ht0 := (ht0 d1)\<lparr>used := used (ht0 d1) - length c\<rparr>, ht1 := h1\<rparr>)"
    "ht_inv (d_type d1) h1" "table h1 \<noteq> []" "mset (concat (table h1)) = mset (concat (table (ht1 d1))) + mset c"
    by blast
  then show ?case
    using step gm by (intro exI [of _ h1]) (simp add: d1_def)
qed

subsection \<open>Skipping empty buckets\<close>

lemma skip_empty_correct:
  assumes "j < length tb" "idx \<le> j" "tb ! j \<noteq> []"
  shows "\<exists>idx' ev' stop. skip_empty tb idx ev = Some (idx', ev', stop) \<and> idx \<le> idx' \<and> idx' \<le> j \<and>
    (\<forall>i. idx \<le> i \<and> i < idx' \<longrightarrow> tb ! i = []) \<and> (if stop then idx < idx' else tb ! idx' \<noteq> [])"
  using assms
proof (induction tb idx ev rule: skip_empty.induct)
  case (1 tb idx ev)
  show ?case
  proof (cases "tb ! idx = []")
    case False
    then have "skip_empty tb idx ev = Some (idx, ev, False)"
      using "1.prems" by (simp add: skip_empty.simps [of tb idx ev])
    then show ?thesis
      using "1.prems"(2) False by (intro exI [of _ idx] exI [of _ ev] exI [of _ False]) auto
  next
    case True
    then have j: "Suc idx \<le> j" using "1.prems" by (metis Suc_leI le_neq_implies_less)
    show ?thesis
    proof (cases "ev - 1 = 0")
      case ev: True
      then have "skip_empty tb idx ev = Some (Suc idx, 0, True)"
        using "1.prems" True by (subst skip_empty.simps) simp
      moreover have "\<forall>i. idx \<le> i \<and> i < Suc idx \<longrightarrow> tb ! i = []"
        using True by (metis le_antisym less_Suc_eq_le)
      ultimately show ?thesis using j by auto
    next
      case False
      then obtain idx' ev' stop where r: "skip_empty tb (Suc idx) (ev - 1) = Some (idx', ev', stop)"
        "Suc idx \<le> idx'" "idx' \<le> j" "\<forall>i. Suc idx \<le> i \<and> i < idx' \<longrightarrow> tb ! i = []"
        "if stop then Suc idx < idx' else tb ! idx' \<noteq> []"
        using "1.IH" [OF _ True False "1.prems"(1) j "1.prems"(3)] "1.prems"(1,2) by fastforce
      have "skip_empty tb idx ev = Some (idx', ev', stop)"
        using r(1) False True "1.prems" by (simp add: skip_empty.simps [of tb idx ev])
      moreover have "\<forall>i. idx \<le> i \<and> i < idx' \<longrightarrow> tb ! i = []"
        using r(4) True by (metis Suc_leI le_neq_implies_less)
      moreover have "if stop then idx < idx' else tb ! idx' \<noteq> []"
        using r(2,5) by (simp split: if_splits)
      ultimately show ?thesis using r(2,3) by (intro exI conjI) auto
    qed
  qed
qed


subsection \<open>Rehashing\<close>

lemma dict_keys_mset:
  assumes "mset (dict_entries d') = mset (dict_entries d)" "d_type d' = d_type d"
  shows "mset (dict_keys d') = mset (dict_keys d)"
  using assms by (simp add: dict_keys_def mset_map)

lemma distinct_keys_cong:
  "mset (dict_entries d') = mset (dict_entries d) \<Longrightarrow> d_type d' = d_type d \<Longrightarrow> distinct (dict_keys d') = distinct (dict_keys d)"
  by (rule mset_eq_imp_distinct_iff) (rule dict_keys_mset)

text \<open>The whole content and configuration is unchanged.\<close>

definition same_content :: "('k, 'v) dict \<Rightarrow> ('k, 'v) dict \<Rightarrow> bool" where
  "same_content d d' \<longleftrightarrow> d_type d' = d_type d \<and> iterators d' = iterators d \<and>
     mset (dict_entries d') = mset (dict_entries d)"

lemma same_content_refl [simp]: "same_content d d"
  by (simp add: same_content_def)

lemma same_content_trans: "same_content d d' \<Longrightarrow> same_content d' d'' \<Longrightarrow> same_content d d''"
  by (simp add: same_content_def)

lemma used_pos_bucket:
  assumes "dict_inv d" "dictIsRehashing d" "used (ht0 d) \<noteq> 0"
  obtains j where "j < length (table (ht0 d))" "rehashidx d \<le> int j" "table (ht0 d) ! j \<noteq> []"
proof -
  have "concat (table (ht0 d)) \<noteq> []" using assms by (auto simp: dict_inv_def ht_inv_def)
  then obtain c where "c \<in> set (table (ht0 d))" "c \<noteq> []" by auto
  then obtain j where j: "j < length (table (ht0 d))" "table (ht0 d) ! j \<noteq> []"
    by (metis in_set_conv_nth)
  moreover have "rehashidx d \<le> int j"
    using assms(1,2) j by (force simp: dict_inv_def dictIsRehashing_def)
  ultimately show thesis using that by blast
qed

lemma clear_bucket:
  assumes inv: "dict_inv d" and reh: "dictIsRehashing d" and idx: "idx < length (table (ht0 d))"
    and below: "\<forall>i < idx. table (ht0 d) ! i = []"
    and h1: "ht_inv (d_type d) h1" "table h1 \<noteq> []"
      "mset (concat (table h1)) = mset (concat (table (ht1 d))) + mset (table (ht0 d) ! idx)"
  defines "d' \<equiv> d\<lparr>ht0 := set_chain (ht0 d) idx [], ht1 := h1, rehashidx := int idx + 1\<rparr>"
  shows "dict_inv d' \<and> same_content d d' \<and> dictIsRehashing d'"
proof -
  have m0: "mset (concat (table (set_chain (ht0 d) idx []))) + mset (table (ht0 d) ! idx) = mset (concat (table (ht0 d)))"
    using set_chain_mset [OF idx, of "[]"] by simp
  have cont: "same_content d d'"
    using h1(3) m0 by (simp add: same_content_def d'_def dict_entries_def)
  have "ht_inv (d_type d) (set_chain (ht0 d) idx [])"
    using inv idx by (intro set_chain_inv) (auto simp: dict_inv_def)
  moreover have "distinct (dict_keys d')"
    using inv cont distinct_keys_cong [of d' d] by (simp add: same_content_def dict_inv_def)
  moreover have "\<forall>i < length (table (ht0 d)). int i < int idx + 1 \<longrightarrow> (table (ht0 d))[idx := []] ! i = []"
    using below idx by (auto simp: nth_list_update)
  ultimately have "dict_inv d'"
    using inv reh h1 by (auto simp: dict_inv_def d'_def dictIsRehashing_def)
  with cont show ?thesis by (simp add: d'_def dictIsRehashing_def)
qed

lemma ht_upd_commute: "(h :: ('k, 'v) dictht)\<lparr>used := u, table := tb\<rparr> = h\<lparr>table := tb, used := u\<rparr>"
  by simp

lemma dict_upd_commute: "(d :: ('k, 'v) dict)\<lparr>ht1 := h1, ht0 := h0\<rparr> = d\<lparr>ht0 := h0, ht1 := h1\<rparr>"
  by simp

lemma below_rehashidx:
  "dict_inv d \<Longrightarrow> dictIsRehashing d \<Longrightarrow> i < nat (rehashidx d) \<Longrightarrow> i < length (table (ht0 d)) \<Longrightarrow> table (ht0 d) ! i = []"
  by (auto simp: dict_inv_def dictIsRehashing_def)

lemma rehash_loop_correct:
  assumes "dict_inv d" "dictIsRehashing d"
  shows "\<exists>d' stop. dictRehash_loop d n ev = Some (d', stop) \<and> dict_inv d' \<and> dictIsRehashing d' \<and>
    same_content d d' \<and> size (ht0 d') = size (ht0 d) \<and> rehashidx d \<le> rehashidx d' \<and>
    (stop \<longrightarrow> used (ht0 d') \<noteq> 0) \<and> (0 < n \<and> used (ht0 d) \<noteq> 0 \<longrightarrow> rehashidx d < rehashidx d')"
  using assms
proof (induction n arbitrary: d ev)
  case 0
  then show ?case by auto
next
  case (Suc n)
  note inv = Suc.prems(1) and reh = Suc.prems(2)
  show ?case
  proof (cases "used (ht0 d) = 0")
    case True
    then show ?thesis using Suc.prems by auto
  next
    case False
    obtain j where j: "j < length (table (ht0 d))" "rehashidx d \<le> int j" "table (ht0 d) ! j \<noteq> []"
      using used_pos_bucket [OF inv reh False] by blast
    have r0: "0 \<le> rehashidx d" and sz: "size (ht0 d) = length (table (ht0 d))"
      using inv reh by (auto simp: dict_inv_def dictIsRehashing_def ht_inv_def ht_shape_def)
    obtain idx ev' stop where sk: "skip_empty (table (ht0 d)) (nat (rehashidx d)) ev = Some (idx, ev', stop)"
      "nat (rehashidx d) \<le> idx" "idx \<le> j" "\<forall>i. nat (rehashidx d) \<le> i \<and> i < idx \<longrightarrow> table (ht0 d) ! i = []"
      "if stop then nat (rehashidx d) < idx else table (ht0 d) ! idx \<noteq> []"
    proof -
      have "nat (rehashidx d) \<le> j" using j(2) by simp
      from skip_empty_correct [OF j(1) this j(3), of ev] show thesis using that by blast
    qed
    have below: "\<forall>i < idx. table (ht0 d) ! i = []"
      using sk(3,4) below_rehashidx [OF inv reh] j(1) by (metis le_less_trans less_imp_le not_le)
    show ?thesis
    proof (cases stop)
      case True
      define d' where "d' = d\<lparr>rehashidx := int idx\<rparr>"
      have "dictRehash_loop d (Suc n) ev = Some (d', True)"
        using False sk(1) True j sz by (simp add: d'_def)
      moreover have "dict_inv d'"
        using inv reh below by (auto simp: dict_inv_def d'_def dictIsRehashing_def dict_keys_def dict_entries_def)
      ultimately show ?thesis
        using True sk(2,5) r0 False by (auto simp: d'_def dictIsRehashing_def same_content_def dict_entries_def)
    next
      case ns: False
      have idx: "idx < length (table (ht0 d))" using sk(3) j(1) by simp
      obtain h1 where mv: "move_chain d (table (ht0 d) ! idx) =
          Some (d\<lparr>ht0 := (ht0 d)\<lparr>used := used (ht0 d) - length (table (ht0 d) ! idx)\<rparr>, ht1 := h1\<rparr>)"
        and h1: "ht_inv (d_type d) h1" "table h1 \<noteq> []"
          "mset (concat (table h1)) = mset (concat (table (ht1 d))) + mset (table (ht0 d) ! idx)"
        using move_chain_correct [of d "table (ht0 d) ! idx"] inv reh
        by (auto simp: dict_inv_def dictIsRehashing_def)
      define d1 where "d1 = d\<lparr>ht0 := set_chain (ht0 d) idx [], ht1 := h1, rehashidx := int idx + 1\<rparr>"
      have d1: "dict_inv d1" "same_content d d1" "dictIsRehashing d1"
        using clear_bucket [OF inv reh idx below h1] by (simp_all add: d1_def)
      have step: "dictRehash_loop d (Suc n) ev = dictRehash_loop d1 n ev'"
        using False sk(1) ns j sz mv idx by (simp add: d1_def set_chain_def ht_upd_commute dict_upd_commute)
      obtain d' stop' where d': "dictRehash_loop d1 n ev' = Some (d', stop')" "dict_inv d'" "dictIsRehashing d'"
        "same_content d1 d'" "size (ht0 d') = size (ht0 d1)" "rehashidx d1 \<le> rehashidx d'"
        "stop' \<longrightarrow> used (ht0 d') \<noteq> 0"
        using Suc.IH [OF d1(1,3)] by blast
      have "rehashidx d < rehashidx d'" using d'(6) sk(2) r0 by (simp add: d1_def)
      then show ?thesis
        using step d' same_content_trans [OF d1(2) d'(4)] by (auto simp: d1_def)
    qed
  qed
qed

lemma rehash_correct:
  assumes "dict_inv d"
  shows "\<exists>d' more. dictRehash d n = Some (d', more) \<and> dict_inv d' \<and> same_content d d' \<and> more = dictIsRehashing d' \<and>
    (0 < n \<and> dictIsRehashing d \<and> more \<longrightarrow> rehashidx d < rehashidx d' \<and> size (ht0 d') = size (ht0 d))"
proof (cases "dictIsRehashing d")
  case False
  then show ?thesis using assms by (simp add: dictRehash_def)
next
  case True
  obtain d1 stop where d1: "dictRehash_loop d n (int n * 10) = Some (d1, stop)" "dict_inv d1" "dictIsRehashing d1"
    "same_content d d1" "size (ht0 d1) = size (ht0 d)" "rehashidx d \<le> rehashidx d1"
    "stop \<longrightarrow> used (ht0 d1) \<noteq> 0" "0 < n \<and> used (ht0 d) \<noteq> 0 \<longrightarrow> rehashidx d < rehashidx d1"
    using rehash_loop_correct [OF assms True] by blast
  show ?thesis
  proof (cases "used (ht0 d1) = 0")
    case zero: True
    define d2 where "d2 = d1\<lparr>ht0 := ht1 d1, ht1 := dictReset (), rehashidx := - 1\<rparr>"
    have "concat (table (ht0 d1)) = []"
      using d1(2) zero by (simp add: dict_inv_def ht_inv_def)
    then have "dict_entries d2 = dict_entries d1"
      by (simp add: d2_def dict_entries_def dictReset_def)
    then have "dict_inv d2" "same_content d1 d2"
      using d1(2) by (auto simp: dict_inv_def d2_def dictReset_def ht_inv_def same_content_def dict_keys_def)
    moreover have "dictRehash d n = Some (d2, False)"
      using True d1(1,7) zero by (simp add: dictRehash_def d2_def)
    moreover have "\<not> dictIsRehashing d2" by (simp add: d2_def dictIsRehashing_def)
    ultimately show ?thesis using same_content_trans [OF d1(4)] by auto
  next
    case False
    then have "dictRehash d n = Some (d1, True)"
      using True d1(1) by (simp add: dictRehash_def)
    moreover have "used (ht0 d) \<noteq> 0 \<or> n = 0 \<or> d1 = d"
      using d1(1) by (cases n) (auto split: if_splits)
    ultimately show ?thesis using d1 False by auto
  qed
qed

lemma rehash_step_correct:
  assumes "dict_inv d"
  shows "\<exists>d'. dictRehashStep d = Some d' \<and> dict_inv d' \<and> same_content d d'"
  using assms rehash_correct [OF assms, of 1] by (auto simp: dictRehashStep_def)


subsection \<open>Resizing\<close>

lemma dictNextPower_loop_pow:
  assumes "2 \<le> k" "n \<le> 2 ^ 62"
  shows "\<exists>j. k \<le> j \<and> (k \<le> 62 \<longrightarrow> j \<le> 62) \<and> dictNextPower_loop (2 ^ k) n = 2 ^ j \<and> n \<le> 2 ^ j"
  using assms(1)
proof (induction "62 - k" arbitrary: k rule: less_induct)
  case less
  show ?case
  proof (cases "n \<le> 2 ^ k")
    case True
    then show ?thesis by (subst dictNextPower_loop.simps) auto
  next
    case False
    then have k: "k < 62"
      using assms(2) by (metis le_trans not_le one_le_numeral power_increasing)
    then obtain j where j: "Suc k \<le> j" "Suc k \<le> 62 \<longrightarrow> j \<le> 62"
      "dictNextPower_loop (2 ^ Suc k) n = 2 ^ j" "n \<le> 2 ^ j"
    proof -
      have "62 - Suc k < 62 - k" "2 \<le> Suc k" using k less.prems by linarith+
      from less.hyps [OF this] show thesis using that by blast
    qed
    have "dictNextPower_loop (2 ^ k) n = dictNextPower_loop (2 ^ k * 2) n"
      using False by (subst dictNextPower_loop.simps) simp
    also have "(2::nat) ^ k * 2 = 2 ^ Suc k" by simp
    finally show ?thesis using j k by auto
  qed
qed

lemma dictNextPower_pow:
  assumes "n \<le> 2 ^ 62"
  shows "\<exists>j. 2 \<le> j \<and> j \<le> 62 \<and> dictNextPower n = 2 ^ j \<and> n \<le> 2 ^ j"
proof -
  have "int n \<le> int (2 ^ 62)" using assms by (simp only: of_nat_le_iff)
  then have "int n < INT64_MAX" by simp
  then show ?thesis
    using dictNextPower_loop_pow [OF _ assms, of 2]
    by (simp add: dictNextPower_def DICT_HT_INITIAL_SIZE_def)
qed

lemma fresh_ht_inv:
  assumes "2 \<le> k" "k \<le> 62"
  shows "ht_inv t \<lparr>table = replicate (2 ^ k) [], size = 2 ^ k, sizemask = of_nat (2 ^ k) - 1, used = 0\<rparr>"
proof -
  have "of_nat (2 ^ k) - 1 = (mask k :: u64)" by (simp add: mask_eq_exp_minus_1)
  then show ?thesis
    using assms unfolding ht_inv_def ht_shape_def placed_def by auto
qed

lemma expand_correct:
  assumes inv: "dict_inv d" and nr: "\<not> dictIsRehashing d"
    and n: "used (ht0 d) \<le> n" "n \<le> 2 ^ 62" and ne: "dictNextPower n \<noteq> size (ht0 d)"
  shows "\<exists>d'. dictExpand d n = (d', DICT_OK) \<and> dict_inv d' \<and> same_content d d' \<and>
    (table (ht0 d) = [] \<longleftrightarrow> \<not> dictIsRehashing d') \<and> table (ht0 d') \<noteq> []"
proof -
  obtain k where k: "2 \<le> k" "k \<le> 62" "dictNextPower n = 2 ^ k"
    using dictNextPower_pow [OF n(2)] by blast
  define h :: "('a, 'b) dictht" where "h = \<lparr>table = replicate (2 ^ k) [], size = 2 ^ k, sizemask = of_nat (2 ^ k) - 1, used = 0\<rparr>"
  have h: "ht_inv t h" "concat (table h) = []" "table h \<noteq> []" for t
    using fresh_ht_inv [OF k(1,2)] by (simp_all add: h_def)
  have t1: "table (ht1 d) = []" using inv nr by (simp add: dict_inv_def dictIsRehashing_def)
  show ?thesis
  proof (cases "table (ht0 d) = []")
    case True
    have "dictExpand d n = (d\<lparr>ht0 := h\<rparr>, DICT_OK)"
      using nr n ne k True by (simp add: dictExpand_def h_def Let_def)
    moreover have "dict_entries (d\<lparr>ht0 := h\<rparr>) = dict_entries d"
      using True h(2) by (simp add: dict_entries_def)
    ultimately show ?thesis
      using inv h nr True by (auto simp: dict_inv_def same_content_def dict_keys_def dictIsRehashing_def)
  next
    case False
    let ?d = "d\<lparr>ht1 := h, rehashidx := 0\<rparr>"
    have "dictExpand d n = (?d, DICT_OK)"
      using nr n ne k False by (simp add: dictExpand_def h_def Let_def)
    moreover have "dict_entries ?d = dict_entries d"
      using t1 h(2) by (simp add: dict_entries_def)
    ultimately show ?thesis
      using inv h False by (auto simp: dict_inv_def same_content_def dict_keys_def dictIsRehashing_def)
  qed
qed

lemma expand_if_needed_correct:
  assumes inv: "dict_inv d" and small: "used (ht0 d) \<le> 2 ^ 61"
  shows "\<exists>d'. dictExpandIfNeeded can d = (d', DICT_OK) \<and> dict_inv d' \<and> same_content d d' \<and> table (ht0 d') \<noteq> []"
proof -
  have i0: "ht_inv (d_type d) (ht0 d)" using inv by (simp add: dict_inv_def)
  have sz: "size (ht0 d) = 0 \<longleftrightarrow> table (ht0 d) = []"
    using i0 by (auto simp: ht_inv_def ht_shape_def split: if_splits)
  consider "dictIsRehashing d" | "\<not> dictIsRehashing d" "size (ht0 d) = 0"
    | "\<not> dictIsRehashing d" "size (ht0 d) \<noteq> 0" "used (ht0 d) \<ge> size (ht0 d) \<and>
          (can \<or> used (ht0 d) div size (ht0 d) > dict_force_resize_ratio)"
    | "\<not> dictIsRehashing d" "size (ht0 d) \<noteq> 0" "\<not> (used (ht0 d) \<ge> size (ht0 d) \<and>
          (can \<or> used (ht0 d) div size (ht0 d) > dict_force_resize_ratio))" by blast
  then show ?thesis
  proof cases
    case 1
    then show ?thesis using inv by (simp add: dictExpandIfNeeded_def dict_inv_def dictIsRehashing_def)
  next
    case 2
    have "used (ht0 d) = 0" using 2 sz i0 by (simp add: ht_inv_def)
    moreover obtain j where "2 \<le> j" "dictNextPower DICT_HT_INITIAL_SIZE = 2 ^ j"
      using dictNextPower_pow [of DICT_HT_INITIAL_SIZE] by (auto simp: DICT_HT_INITIAL_SIZE_def)
    ultimately show ?thesis
      using expand_correct [OF inv 2(1), of DICT_HT_INITIAL_SIZE] 2
      by (auto simp: dictExpandIfNeeded_def DICT_HT_INITIAL_SIZE_def)
  next
    case 3
    let ?n = "used (ht0 d) * 2"
    have n: "?n \<le> 2 ^ 62" using small by simp
    obtain j where j: "dictNextPower ?n = 2 ^ j" "?n \<le> 2 ^ j"
      using dictNextPower_pow [OF n] by blast
    then have "dictNextPower ?n \<noteq> size (ht0 d)" using 3 by linarith
    then show ?thesis
      using expand_correct [OF inv 3(1) _ n] 3 by (auto simp: dictExpandIfNeeded_def)
  next
    case 4
    then show ?thesis using inv sz by (auto simp: dictExpandIfNeeded_def)
  qed
qed


section \<open>Lookup\<close>

lemma chain_find_None: "chain_find t k c = None \<longleftrightarrow> (\<forall>e \<in> set c. \<not> same t k (de_key e))"
  by (induction c) (auto simp: same_def)

lemma chain_find_Some: "chain_find t k c = Some p \<Longrightarrow> p < length c \<and> same t k (de_key (c ! p))"
  by (induction c arbitrary: p) (auto simp: same_def split: if_splits)

lemma same_bucket:
  assumes "dtype_ok t" "same t x y"
  shows "bucket t h x = bucket t h y"
  using assms by (simp add: dtype_ok_def bucket_def)

lemma same_sym: "dtype_ok t \<Longrightarrow> same t x y = same t y x"
  unfolding dtype_ok_def by (metis equivp_def)

lemma same_trans: "dtype_ok t \<Longrightarrow> same t x y \<Longrightarrow> same t y z \<Longrightarrow> same t x z"
  unfolding dtype_ok_def by (metis equivp_def)

text \<open>An entry with an equal key is in the bucket of the key.\<close>

lemma same_in_bucket:
  assumes "dtype_ok t" "ht_inv t h" "e \<in> set (concat (table h))" "same t k (de_key e)"
  shows "e \<in> set (table h ! bucket t h k)"
proof -
  obtain i where i: "i < length (table h)" "e \<in> set (table h ! i)"
    using assms(3) by (auto simp: in_set_conv_nth) (metis nth_mem)
  then have "table h \<noteq> []" by auto
  then have "bucket t h (de_key e) = i"
    using assms(2) i by (simp add: ht_inv_def placed_def)
  with same_bucket [OF assms(1,4)] i show ?thesis by simp
qed

definition valid_ref :: "('k, 'v) dict \<Rightarrow> entry_ref \<Rightarrow> ('k, 'v) dictEntry \<Rightarrow> bool" where
  "valid_ref d r e \<longleftrightarrow> (case r of (t, i, p) \<Rightarrow>
     (t = 0 \<and> i < length (table (ht0 d)) \<and> p < length (table (ht0 d) ! i) \<and> table (ht0 d) ! i ! p = e) \<or>
     (t = 1 \<and> i < length (table (ht1 d)) \<and> p < length (table (ht1 d) ! i) \<and> table (ht1 d) ! i ! p = e))"

lemma valid_ref_entry_at: "valid_ref d r e \<Longrightarrow> entry_at d r = Some e"
  by (auto simp: valid_ref_def entry_at_def split: prod.splits)

lemma valid_ref_entries: "valid_ref d r e \<Longrightarrow> e \<in> set (dict_entries d)"
  by (auto simp: valid_ref_def dict_entries_def split: prod.splits) (metis nth_mem)+

lemma search_correct:
  assumes inv: "dict_inv d" and ne: "table (ht0 d) \<noteq> []"
  shows "\<exists>r idx. dict_search d k (dictHashKey d k) = Some (r, idx) \<and>
    (case r of
       None \<Rightarrow> (\<forall>e \<in> set (dict_entries d). \<not> same (d_type d) k (de_key e)) \<and>
         idx = bucket (d_type d) (if dictIsRehashing d then ht1 d else ht0 d) k
     | Some ref \<Rightarrow> \<exists>e. valid_ref d ref e \<and> same (d_type d) k (de_key e))"
proof -
  let ?t = "d_type d"
  have ok: "dtype_ok ?t" and i0: "ht_inv ?t (ht0 d)" and i1: "ht_inv ?t (ht1 d)"
    using inv by (simp_all add: dict_inv_def)
  let ?b0 = "bucket ?t (ht0 d) k" and ?b1 = "bucket ?t (ht1 d) k"
  have b0: "?b0 < length (table (ht0 d))" by (rule bucket_bound [OF ht_inv_shape [OF i0 ne]])
  have e0: "unat (dictHashKey d k AND sizemask (ht0 d)) = ?b0" and e1: "unat (dictHashKey d k AND sizemask (ht1 d)) = ?b1"
    by (simp_all add: bucket_def dictHashKey_def)
  show ?thesis
  proof (cases "chain_find ?t k (table (ht0 d) ! ?b0)")
    case (Some p)
    then have "dict_search d k (dictHashKey d k) = Some (Some (0, ?b0, p), ?b0)"
      using b0 by (simp add: dict_search_def e0 Let_def)
    moreover have "valid_ref d (0, ?b0, p) (table (ht0 d) ! ?b0 ! p)"
      using chain_find_Some [OF Some] b0 by (simp add: valid_ref_def)
    ultimately show ?thesis using chain_find_Some [OF Some] by auto
  next
    case None
    have n0: "\<forall>e \<in> set (concat (table (ht0 d))). \<not> same ?t k (de_key e)"
      using None same_in_bucket [OF ok i0] by (auto simp: chain_find_None)
    show ?thesis
    proof (cases "dictIsRehashing d")
      case False
      then have "dict_search d k (dictHashKey d k) = Some (None, ?b0)"
        using None b0 by (simp add: dict_search_def e0 Let_def)
      moreover have "dict_entries d = concat (table (ht0 d))"
        using False inv by (simp add: dict_entries_def dict_inv_def dictIsRehashing_def)
      ultimately show ?thesis using n0 False by simp
    next
      case True
      have "table (ht1 d) \<noteq> []" using True inv by (simp add: dict_inv_def dictIsRehashing_def)
      then have b1: "?b1 < length (table (ht1 d))" by (rule bucket_bound [OF ht_inv_shape [OF i1]])
      show ?thesis
      proof (cases "chain_find ?t k (table (ht1 d) ! ?b1)")
        case (Some p)
        then have "dict_search d k (dictHashKey d k) = Some (Some (1, ?b1, p), ?b1)"
          using b0 b1 None True by (simp add: dict_search_def e0 e1 Let_def)
        moreover have "valid_ref d (1, ?b1, p) (table (ht1 d) ! ?b1 ! p)"
          using chain_find_Some [OF Some] b1 by (simp add: valid_ref_def)
        ultimately show ?thesis using chain_find_Some [OF Some] by auto
      next
        case n1: None
        then have "dict_search d k (dictHashKey d k) = Some (None, ?b1)"
          using b0 b1 None True by (simp add: dict_search_def e0 e1 Let_def)
        moreover have "\<forall>e \<in> set (concat (table (ht1 d))). \<not> same ?t k (de_key e)"
          using n1 same_in_bucket [OF ok i1] by (auto simp: chain_find_None)
        ultimately show ?thesis using n0 True by (auto simp: dict_entries_def)
      qed
    qed
  qed
qed

subsection \<open>The abstract map\<close>

lemma dict_map_Some_iff:
  assumes "dict_inv d"
  shows "dict_map d k = Some v \<longleftrightarrow> (\<exists>e \<in> set (dict_entries d). same (d_type d) k (de_key e) \<and> de_val e = v)"
proof -
  have ok: "dtype_ok (d_type d)" and dist: "distinct (dict_keys d)" using assms by (simp_all add: dict_inv_def)
  let ?l = "map (\<lambda>e. (cls (d_type d) (de_key e), de_val e)) (dict_entries d)"
  have "map fst ?l = dict_keys d" by (simp add: dict_keys_def comp_def)
  then have "distinct (map fst ?l)" using dist by simp
  then have "dict_map d k = Some v \<longleftrightarrow> (cls (d_type d) k, v) \<in> set ?l"
    by (simp only: dict_map_def map_of_eq_Some_iff)
  also have "\<dots> \<longleftrightarrow> (\<exists>e \<in> set (dict_entries d). same (d_type d) k (de_key e) \<and> de_val e = v)"
    using cls_eq_iff [OF ok] by auto
  finally show ?thesis .
qed

lemma dict_map_None_iff:
  assumes "dict_inv d"
  shows "dict_map d k = None \<longleftrightarrow> (\<forall>e \<in> set (dict_entries d). \<not> same (d_type d) k (de_key e))"
  using dict_map_Some_iff [OF assms, of k] by (metis not_Some_eq)

lemma dict_map_cong:
  assumes "dict_inv d" "dict_inv d'" "set (dict_entries d') = set (dict_entries d)" "d_type d' = d_type d"
  shows "dict_map d' = dict_map d"
proof
  fix k
  show "dict_map d' k = dict_map d k"
    using dict_map_Some_iff [OF assms(1), of k] dict_map_Some_iff [OF assms(2), of k] assms(3,4)
    by (metis not_Some_eq)
qed

lemma same_content_map: "dict_inv d \<Longrightarrow> dict_inv d' \<Longrightarrow> same_content d d' \<Longrightarrow> dict_map d' = dict_map d"
  by (rule dict_map_cong) (auto simp: same_content_def dest: mset_eq_setD)

lemma dict_map_insert:
  assumes "dict_inv d" "dict_inv d'" "d_type d' = d_type d"
    and m: "mset (dict_entries d') = add_mset e (mset (dict_entries d))" and e: "same (d_type d) k (de_key e)"
  shows "dict_map d' = (\<lambda>x. if same (d_type d) k x then Some (de_val e) else dict_map d x)"
proof
  fix x
  have ok: "dtype_ok (d_type d)" using assms(1) by (simp add: dict_inv_def)
  have set: "set (dict_entries d') = insert e (set (dict_entries d))"
    using m by (metis set_mset_add_mset_insert set_mset_mset)
  show "dict_map d' x = (if same (d_type d) k x then Some (de_val e) else dict_map d x)"
  proof (cases "same (d_type d) k x")
    case True
    then have "same (d_type d) x (de_key e)" using e ok same_sym same_trans by metis
    then show ?thesis using True dict_map_Some_iff [OF assms(2), of x "de_val e"] set assms(3) by auto
  next
    case False
    then have "\<not> same (d_type d) x (de_key e)" using e ok same_sym same_trans by metis
    then have "dict_map d' x = Some v \<longleftrightarrow> dict_map d x = Some v" for v
      using dict_map_Some_iff [OF assms(1), of x] dict_map_Some_iff [OF assms(2), of x] set assms(3) by auto
    then show ?thesis using False by (metis not_Some_eq)
  qed
qed

lemma dict_map_delete:
  assumes "dict_inv d" "dict_inv d'" "d_type d' = d_type d"
    and m: "mset (dict_entries d) = add_mset e (mset (dict_entries d'))" and e: "same (d_type d) k (de_key e)"
  shows "dict_map d' = (\<lambda>x. if same (d_type d) k x then None else dict_map d x)"
proof -
  have ok: "dtype_ok (d_type d)" using assms(1) by (simp add: dict_inv_def)
  have d: "dict_map d = (\<lambda>x. if same (d_type d) k x then Some (de_val e) else dict_map d' x)"
    using dict_map_insert [OF assms(2,1) assms(3) [symmetric] m] e assms(3) by simp
  have "mset (dict_keys d) = add_mset (cls (d_type d) (de_key e)) (mset (dict_keys d'))"
    using m assms(3) by (simp add: dict_keys_def)
  moreover have "distinct (dict_keys d)" using assms(1) by (simp add: dict_inv_def)
  ultimately have "cls (d_type d) (de_key e) \<notin> set (dict_keys d')"
    by (metis distinct.simps(2) mset.simps(2) mset_eq_imp_distinct_iff)
  then have "\<forall>e' \<in> set (dict_entries d'). \<not> same (d_type d) x (de_key e')" if x: "same (d_type d) k x" for x
  proof (intro ballI notI)
    fix e' assume e': "e' \<in> set (dict_entries d')" "same (d_type d) x (de_key e')"
    assume notin: "cls (d_type d) (de_key e) \<notin> set (dict_keys d')"
    have "same (d_type d) k (de_key e')" by (rule same_trans [OF ok x e'(2)])
    moreover have "same (d_type d) (de_key e) k" using e same_sym [OF ok] by blast
    ultimately have "same (d_type d) (de_key e) (de_key e')" using same_trans [OF ok] by blast
    then have "cls (d_type d) (de_key e) = cls (d_type d) (de_key e')" using cls_eq_iff [OF ok] by blast
    with e'(1) notin assms(3) show False by (auto simp: dict_keys_def)
  qed
  then have "dict_map d' x = None" if "same (d_type d) k x" for x
    using that dict_map_None_iff [OF assms(2)] assms(3) by simp
  with d show ?thesis by (auto simp: fun_eq_iff)
qed


section \<open>Changing one chain of a dictionary\<close>

definition chain_at :: "('k, 'v) dict \<Rightarrow> nat \<Rightarrow> nat \<Rightarrow> ('k, 'v) chain" where
  "chain_at d t i = table (if t = 0 then ht0 d else ht1 d) ! i"

definition dict_set_chain :: "('k, 'v) dict \<Rightarrow> nat \<Rightarrow> nat \<Rightarrow> ('k, 'v) chain \<Rightarrow> ('k, 'v) dict" where
  "dict_set_chain d t i c =
     (if t = 0 then d\<lparr>ht0 := set_chain (ht0 d) i c\<rparr> else d\<lparr>ht1 := set_chain (ht1 d) i c\<rparr>)"

lemma dict_set_chain_simps [simp]:
  "d_type (dict_set_chain d t i c) = d_type d" "rehashidx (dict_set_chain d t i c) = rehashidx d"
  "iterators (dict_set_chain d t i c) = iterators d"
  "dictIsRehashing (dict_set_chain d t i c) = dictIsRehashing d"
  by (simp_all add: dict_set_chain_def dictIsRehashing_def)

lemma dict_set_chain_mset:
  assumes "i < length (table (if t = 0 then ht0 d else ht1 d))"
  shows "mset (dict_entries (dict_set_chain d t i c)) + mset (chain_at d t i) = mset (dict_entries d) + mset c"
  using assms set_chain_mset [of i "ht0 d" c] set_chain_mset [of i "ht1 d" c]
  by (auto simp: dict_set_chain_def dict_entries_def chain_at_def union_ac)

lemma dict_set_chain_inv:
  assumes inv: "dict_inv d" and t: "t = 0 \<or> t = 1" and i: "i < length (table (if t = 0 then ht0 d else ht1 d))"
    and place: "\<forall>e \<in> set c. bucket (d_type d) (if t = 0 then ht0 d else ht1 d) (de_key e) = i"
    and dist: "distinct (dict_keys (dict_set_chain d t i c))"
    and reh: "t = 0 \<and> dictIsRehashing d \<and> int i < rehashidx d \<longrightarrow> c = []"
  shows "dict_inv (dict_set_chain d t i c)"
proof (cases "t = 0")
  case True
  have "ht_inv (d_type d) (set_chain (ht0 d) i c)"
    using inv i place True by (intro set_chain_inv) (auto simp: dict_inv_def)
  then show ?thesis
    using inv dist reh True i
    by (auto simp: dict_inv_def dict_set_chain_def dictIsRehashing_def nth_list_update)
next
  case False
  have h: "ht_inv (d_type d) (set_chain (ht1 d) i c)"
    using inv i place False by (intro set_chain_inv) (auto simp: dict_inv_def)
  have "table (ht1 d) \<noteq> []" using i False by auto
  then show ?thesis
    using inv dist False h by (auto simp: dict_inv_def dict_set_chain_def)
qed

lemma valid_refD:
  assumes "valid_ref d (t, i, p) e"
  shows "t = 0 \<or> t = 1" "i < length (table (if t = 0 then ht0 d else ht1 d))"
    "p < length (chain_at d t i)" "chain_at d t i ! p = e"
  using assms by (auto simp: valid_ref_def chain_at_def)

lemma inv_place:
  assumes "dict_inv d" "i < length (table (if t = 0 then ht0 d else ht1 d))" "e \<in> set (chain_at d t i)"
  shows "bucket (d_type d) (if t = 0 then ht0 d else ht1 d) (de_key e) = i"
proof -
  let ?h = "if t = 0 then ht0 d else ht1 d"
  have "ht_inv (d_type d) ?h" using assms(1) by (simp add: dict_inv_def)
  moreover have "table ?h \<noteq> []" using assms(2) by auto
  ultimately show ?thesis using assms(2,3) unfolding ht_inv_def placed_def chain_at_def by auto
qed

lemma inv_below:
  assumes "dict_inv d" "t = 0 \<and> dictIsRehashing d \<and> int i < rehashidx d" "i < length (table (if t = 0 then ht0 d else ht1 d))"
  shows "chain_at d t i = []"
  using assms by (simp add: dict_inv_def dictIsRehashing_def chain_at_def)

subsection \<open>Setting a value\<close>

lemma mset_replace:
  "p < length xs \<Longrightarrow> mset (xs[p := y]) + {#xs ! p#} = mset xs + {#y#}"
  by (simp add: mset_update)

lemma mset_exchange:
  fixes X :: "'a multiset"
  assumes "X + c = D + n" "n + e = c + e'"
  shows "X + e = D + e'"
proof -
  have "c + (X + e) = (X + c) + e" by (simp add: ac_simps)
  also have "\<dots> = D + (n + e)" unfolding assms(1) by (simp add: ac_simps)
  also have "\<dots> = c + (D + e')" unfolding assms(2) by (simp add: ac_simps)
  finally show ?thesis by (rule add_left_imp_eq)
qed

lemma set_val_correct:
  assumes inv: "dict_inv d" and ref: "valid_ref d r e"
  shows "\<exists>d'. dictSetVal d r v = Some d' \<and> dict_inv d' \<and> d_type d' = d_type d \<and> iterators d' = iterators d \<and>
    mset (dict_entries d') + {#e#} = mset (dict_entries d) + {#e\<lparr>de_val := Some (dictDupVal d v)\<rparr>#}"
proof -
  obtain t i p where r: "r = (t, i, p)" by (cases r) auto
  note ref' = valid_refD [OF ref [unfolded r]]
  let ?c = "chain_at d t i" and ?e = "e\<lparr>de_val := Some (dictDupVal d v)\<rparr>"
  let ?d = "dict_set_chain d t i (?c[p := ?e])"
  have mc: "mset (?c[p := ?e]) + {#e#} = mset ?c + {#?e#}"
    using mset_replace [OF ref'(3)] unfolding ref'(4) .
  have m: "mset (dict_entries ?d) + {#e#} = mset (dict_entries d) + {#?e#}"
    by (rule mset_exchange [OF dict_set_chain_mset [OF ref'(2)] mc])
  have "mset (dict_keys ?d) = mset (dict_keys d)"
    using arg_cong [OF m, of "image_mset (\<lambda>e. cls (d_type d) (de_key e))"] by (simp add: dict_keys_def)
  then have dist: "distinct (dict_keys ?d)"
    using inv by (metis dict_inv_def mset_eq_imp_distinct_iff)
  have dinv: "dict_inv ?d"
  proof (rule dict_set_chain_inv [OF inv ref'(1,2) _ dist])
    show "\<forall>e' \<in> set (?c[p := ?e]). bucket (d_type d) (if t = 0 then ht0 d else ht1 d) (de_key e') = i"
      using inv_place [OF inv ref'(2)] ref'(3,4) by (auto dest!: set_update_subset_insert [THEN subsetD])
    show "t = 0 \<and> dictIsRehashing d \<and> int i < rehashidx d \<longrightarrow> ?c[p := ?e] = []"
      using inv_below [OF inv _ ref'(2)] by simp
  qed
  have "dictSetVal d r v = Some ?d"
    using ref'
    by (auto simp: r dictSetVal_def upd_entry_def dict_set_chain_def set_chain_def chain_at_def split: if_splits)
  with dinv m show ?thesis by simp
qed

subsection \<open>Unlinking an entry\<close>

lemma unlink_correct:
  assumes inv: "dict_inv d" and ref: "valid_ref d (t, i, p) e"
  shows "\<exists>d'. (if t = 0 then map_option (\<lambda>h. d\<lparr>ht0 := h\<rparr>) (unlink_entry i p (ht0 d))
      else map_option (\<lambda>h. d\<lparr>ht1 := h\<rparr>) (unlink_entry i p (ht1 d))) = Some d' \<and>
    dict_inv d' \<and> d_type d' = d_type d \<and> iterators d' = iterators d \<and>
    mset (dict_entries d) = add_mset e (mset (dict_entries d'))"
proof -
  note ref' = valid_refD [OF ref]
  let ?c = "chain_at d t i"
  let ?c' = "take p ?c @ drop (Suc p) ?c"
  let ?d = "dict_set_chain d t i ?c'"
  have "?c = take p ?c @ e # drop (Suc p) ?c"
    using ref'(3,4) id_take_nth_drop by metis
  then have mc: "mset ?c = add_mset e (mset ?c')"
    by (metis mset.simps(2) mset_append union_mset_add_mset_right)
  have m: "mset (dict_entries d) = add_mset e (mset (dict_entries ?d))"
    using dict_set_chain_mset [OF ref'(2), of ?c'] mc
    by (metis (no_types, lifting) add_right_cancel union_mset_add_mset_left union_mset_add_mset_right)
  have "mset (dict_keys d) = add_mset (cls (d_type d) (de_key e)) (mset (dict_keys ?d))"
    using m by (simp add: dict_keys_def)
  then have dist: "distinct (dict_keys ?d)"
    using inv by (metis dict_inv_def distinct.simps(2) mset.simps(2) mset_eq_imp_distinct_iff)
  have dinv: "dict_inv ?d"
  proof (rule dict_set_chain_inv [OF inv ref'(1,2) _ dist])
    show "\<forall>e' \<in> set ?c'. bucket (d_type d) (if t = 0 then ht0 d else ht1 d) (de_key e') = i"
      using inv_place [OF inv ref'(2)] by (auto dest: in_set_takeD in_set_dropD)
    show "t = 0 \<and> dictIsRehashing d \<and> int i < rehashidx d \<longrightarrow> ?c' = []"
      using inv_below [OF inv _ ref'(2)] by simp
  qed
  have "length ?c' = length ?c - 1" using ref'(3) by simp
  then have "(if t = 0 then map_option (\<lambda>h. d\<lparr>ht0 := h\<rparr>) (unlink_entry i p (ht0 d))
      else map_option (\<lambda>h. d\<lparr>ht1 := h\<rparr>) (unlink_entry i p (ht1 d))) = Some ?d"
    using ref'
    by (auto simp: unlink_entry_def dict_set_chain_def set_chain_def chain_at_def split: if_splits)
  with dinv m show ?thesis by simp
qed

section \<open>The operations\<close>

lemma step_if_rehashing:
  assumes "dict_inv d"
  shows "\<exists>d'. (if dictIsRehashing d then dictRehashStep d else Some d) = Some d' \<and> dict_inv d' \<and> same_content d d'"
  using assms rehash_step_correct [OF assms] by auto

lemma size_entries: "dict_inv d \<Longrightarrow> dictSize d = length (dict_entries d)"
  by (simp add: dictSize_def dict_inv_def ht_inv_def dict_entries_def)

lemma same_content_size: "same_content d d' \<Longrightarrow> length (dict_entries d') = length (dict_entries d)"
  by (metis same_content_def size_mset)

lemma find_correct:
  assumes inv: "dict_inv d"
  shows "\<exists>d' r. dictFind d k = Some (d', r) \<and> dict_inv d' \<and> same_content d d' \<and>
    (case r of None \<Rightarrow> dict_map d k = None
     | Some ref \<Rightarrow> \<exists>e. valid_ref d' ref e \<and> same (d_type d) k (de_key e) \<and> dict_map d k = Some (de_val e))"
proof (cases "used (ht0 d) + used (ht1 d) = 0")
  case True
  then have "dict_entries d = []" using size_entries [OF inv] by (simp add: dictSize_def)
  then show ?thesis using True inv by (simp add: dictFind_def dict_map_def)
next
  case False
  obtain d' where d': "(if dictIsRehashing d then dictRehashStep d else Some d) = Some d'" "dict_inv d'" "same_content d d'"
    using step_if_rehashing [OF inv] by blast
  have t: "d_type d' = d_type d" using d'(3) by (simp add: same_content_def)
  have m: "dict_map d' = dict_map d" by (rule same_content_map [OF inv d'(2,3)])
  have "dict_entries d' \<noteq> []"
    using False size_entries [OF inv] same_content_size [OF d'(3)] by (auto simp: dictSize_def)
  then have ne: "table (ht0 d') \<noteq> []"
    using d'(2) by (auto simp: dict_inv_def dict_entries_def split: if_splits)
  obtain r idx where s: "dict_search d' k (dictHashKey d' k) = Some (r, idx)"
    and post: "case r of None \<Rightarrow> (\<forall>e \<in> set (dict_entries d'). \<not> same (d_type d') k (de_key e)) \<and>
         idx = bucket (d_type d') (if dictIsRehashing d' then ht1 d' else ht0 d') k
     | Some ref \<Rightarrow> \<exists>e. valid_ref d' ref e \<and> same (d_type d') k (de_key e)"
    using search_correct [OF d'(2) ne] by blast
  have "dictFind d k = Some (d', r)"
    using False by (auto simp: dictFind_def d'(1) s)
  moreover have "case r of None \<Rightarrow> dict_map d k = None
     | Some ref \<Rightarrow> \<exists>e. valid_ref d' ref e \<and> same (d_type d) k (de_key e) \<and> dict_map d k = Some (de_val e)"
  proof (cases r)
    case None
    then show ?thesis using post dict_map_None_iff [OF d'(2), of k] m by simp
  next
    case (Some ref)
    then obtain e where "valid_ref d' ref e" "same (d_type d') k (de_key e)" using post by auto
    then show ?thesis
      using Some dict_map_Some_iff [OF d'(2), of k "de_val e"] valid_ref_entries m t by fastforce
  qed
  ultimately show ?thesis using d'(2,3) by blast
qed

lemma fetch_correct:
  assumes inv: "dict_inv d"
  shows "\<exists>d'. dictFetchValue d k = Some (d', case dict_map d k of None \<Rightarrow> None | Some v \<Rightarrow> v) \<and>
    dict_inv d' \<and> same_content d d'"
proof -
  obtain d' r where f: "dictFind d k = Some (d', r)" "dict_inv d'" "same_content d d'"
    and post: "case r of None \<Rightarrow> dict_map d k = None
     | Some ref \<Rightarrow> \<exists>e. valid_ref d' ref e \<and> same (d_type d) k (de_key e) \<and> dict_map d k = Some (de_val e)"
    using find_correct [OF inv] by blast
  show ?thesis
    using f post by (cases r) (auto simp: dictFetchValue_def dest!: valid_ref_entry_at)
qed

lemma add_raw_correct:
  assumes inv: "dict_inv d" and small: "dictSize d \<le> 2 ^ 61"
  shows "\<exists>d' r. dictAddRaw can d k = Some (d', r) \<and> dict_inv d' \<and> d_type d' = d_type d \<and> iterators d' = iterators d \<and>
    (case r of
       Inl ex \<Rightarrow> same_content d d' \<and> (\<exists>ref e. ex = Some ref \<and> valid_ref d' ref e \<and>
         same (d_type d) k (de_key e) \<and> dict_map d k = Some (de_val e))
     | Inr ref \<Rightarrow> dict_map d k = None \<and> (\<exists>e. valid_ref d' ref e \<and> same (d_type d) k (de_key e) \<and>
         mset (dict_entries d') = add_mset e (mset (dict_entries d))))"
proof -
  obtain d1 where d1: "(if dictIsRehashing d then dictRehashStep d else Some d) = Some d1" "dict_inv d1" "same_content d d1"
    using step_if_rehashing [OF inv] by blast
  have "used (ht0 d1) \<le> dictSize d1" by (simp add: dictSize_def)
  also have "dictSize d1 = dictSize d"
    using size_entries inv d1(2) same_content_size [OF d1(3)] by metis
  finally have u1: "used (ht0 d1) \<le> 2 ^ 61" using small by simp
  obtain d2 where d2: "dictExpandIfNeeded can d1 = (d2, DICT_OK)" "dict_inv d2" "same_content d1 d2" "table (ht0 d2) \<noteq> []"
    using expand_if_needed_correct [OF d1(2) u1] by blast
  have c2: "same_content d d2" using same_content_trans [OF d1(3) d2(3)] .
  have t: "d_type d2 = d_type d" "d_type d1 = d_type d" "iterators d2 = iterators d"
    using c2 d1(3) by (simp_all add: same_content_def)
  have m: "dict_map d2 = dict_map d" by (rule same_content_map [OF inv d2(2) c2])
  have hk: "dictHashKey d1 k = dictHashKey d2 k" using t by (simp add: dictHashKey_def)
  obtain r idx where s: "dict_search d2 k (dictHashKey d2 k) = Some (r, idx)"
    and post: "case r of None \<Rightarrow> (\<forall>e \<in> set (dict_entries d2). \<not> same (d_type d2) k (de_key e)) \<and>
         idx = bucket (d_type d2) (if dictIsRehashing d2 then ht1 d2 else ht0 d2) k
     | Some ref \<Rightarrow> \<exists>e. valid_ref d2 ref e \<and> same (d_type d2) k (de_key e)"
    using search_correct [OF d2(2,4)] by blast
  show ?thesis
  proof (cases r)
    case (Some ref)
    then obtain e where e: "valid_ref d2 ref e" "same (d_type d) k (de_key e)" using post t by auto
    then have "dict_map d k = Some (de_val e)"
      using dict_map_Some_iff [OF d2(2), of k "de_val e"] valid_ref_entries m t by fastforce
    moreover have "dictAddRaw can d k = Some (d2, Inl (Some ref))"
      by (simp add: dictAddRaw_def dictKeyIndex_def d1(1) d2(1) hk s Some)
    ultimately show ?thesis using e d2(2) t c2 by auto
  next
    case None
    then have none: "dict_map d k = None" and idx: "idx = bucket (d_type d2) (if dictIsRehashing d2 then ht1 d2 else ht0 d2) k"
      using post dict_map_None_iff [OF d2(2), of k] m by simp_all
    let ?t = "if dictIsRehashing d2 then 1 else 0 :: nat"
    let ?h = "if ?t = 0 then ht0 d2 else ht1 d2"
    let ?e = "\<lparr>de_key = dictSetKey d2 k, de_val = None\<rparr>"
    let ?d = "dict_set_chain d2 ?t idx (?e # chain_at d2 ?t idx)"
    have ok: "dtype_ok (d_type d)" using inv by (simp add: dict_inv_def)
    have sk: "same (d_type d) k (de_key ?e)"
      using ok t by (auto simp: dictSetKey_def dtype_ok_def same_def split: option.splits)
    have hne: "table ?h \<noteq> []" "ht_inv (d_type d2) ?h"
      using d2(2,4) by (auto simp: dict_inv_def dictIsRehashing_def)
    have ib: "idx = bucket (d_type d2) ?h k" using idx by simp
    have il: "idx < length (table ?h)"
      unfolding ib by (rule bucket_bound [OF ht_inv_shape [OF hne(2,1)]])
    have mset: "mset (dict_entries ?d) = add_mset ?e (mset (dict_entries d2))"
      using dict_set_chain_mset [OF il, of "?e # chain_at d2 ?t idx"] by simp
    have "mset (dict_keys ?d) = add_mset (cls (d_type d2) (de_key ?e)) (mset (dict_keys d2))"
      using mset by (simp add: dict_keys_def)
    moreover have "cls (d_type d2) (de_key ?e) \<notin> set (dict_keys d2)"
    proof
      assume "cls (d_type d2) (de_key ?e) \<in> set (dict_keys d2)"
      then obtain e' where "e' \<in> set (dict_entries d2)" "same (d_type d) (de_key ?e) (de_key e')"
        using cls_eq_iff [OF ok] t by (auto simp: dict_keys_def)
      then show False
        using same_trans [OF ok sk] none dict_map_None_iff [OF d2(2), of k] m t by auto
    qed
    ultimately have dist: "distinct (dict_keys ?d)"
      using d2(2) by (metis dict_inv_def distinct.simps(2) mset.simps(2) mset_eq_imp_distinct_iff)
    have dinv: "dict_inv ?d"
    proof (rule dict_set_chain_inv [OF d2(2) _ il _ dist])
      have "bucket (d_type d2) ?h (de_key ?e) = idx"
        unfolding ib using same_bucket [OF ok sk, of ?h] t by simp
      then show "\<forall>e \<in> set (?e # chain_at d2 ?t idx). bucket (d_type d2) ?h (de_key e) = idx"
        using inv_place [OF d2(2) il] by auto
    qed auto
    have ref: "valid_ref ?d (?t, idx, 0) ?e"
      using il by (auto simp: valid_ref_def dict_set_chain_def)
    have "dictAddRaw can d k = Some (?d, Inr (?t, idx, 0))"
      using il by (cases "dictIsRehashing d2")
        (simp_all add: dictAddRaw_def dictKeyIndex_def d1(1) d2(1) hk s None dict_set_chain_def set_chain_def chain_at_def)
    then show ?thesis
      using dinv t none ref sk mset c2 by (auto simp: same_content_def)
  qed
qed

lemma same_refl: "dtype_ok t \<Longrightarrow> same t k k"
  by (simp add: same_def)

lemma add_correct:
  assumes inv: "dict_inv d" and small: "dictSize d \<le> 2 ^ 61"
  shows "\<exists>d'. dictAdd can d k v = Some (d', if dict_map d k = None then DICT_OK else DICT_ERR) \<and>
    dict_inv d' \<and> d_type d' = d_type d \<and> iterators d' = iterators d \<and>
    (if dict_map d k = None
     then \<exists>e. mset (dict_entries d') = add_mset e (mset (dict_entries d)) \<and> same (d_type d) k (de_key e) \<and>
       de_val e = Some (dictDupVal d v)
     else same_content d d')"
proof -
  obtain d1 r where a: "dictAddRaw can d k = Some (d1, r)" "dict_inv d1" "d_type d1 = d_type d" "iterators d1 = iterators d"
    and post: "case r of
       Inl ex \<Rightarrow> same_content d d1 \<and> (\<exists>ref e. ex = Some ref \<and> valid_ref d1 ref e \<and>
         same (d_type d) k (de_key e) \<and> dict_map d k = Some (de_val e))
     | Inr ref \<Rightarrow> dict_map d k = None \<and> (\<exists>e. valid_ref d1 ref e \<and> same (d_type d) k (de_key e) \<and>
         mset (dict_entries d1) = add_mset e (mset (dict_entries d)))"
    using add_raw_correct [OF assms] by blast
  show ?thesis
  proof (cases r)
    case (Inl ex)
    then show ?thesis using a post by (auto simp: dictAdd_def)
  next
    case (Inr ref)
    then obtain e where e: "valid_ref d1 ref e" "same (d_type d) k (de_key e)" and none: "dict_map d k = None"
      and m: "mset (dict_entries d1) = add_mset e (mset (dict_entries d))" using post by auto
    let ?e = "e\<lparr>de_val := Some (dictDupVal d1 v)\<rparr>"
    obtain d2 where d2: "dictSetVal d1 ref v = Some d2" "dict_inv d2" "d_type d2 = d_type d1" "iterators d2 = iterators d1"
      "mset (dict_entries d2) + {#e#} = mset (dict_entries d1) + {#?e#}"
      using set_val_correct [OF a(2) e(1)] by blast
    have "mset (dict_entries d2) = add_mset ?e (mset (dict_entries d))"
      using d2(5) unfolding m by simp
    moreover have "dictDupVal d1 v = dictDupVal d v" using a(3) by (simp add: dictDupVal_def)
    ultimately have "\<exists>e. mset (dict_entries d2) = add_mset e (mset (dict_entries d)) \<and> same (d_type d) k (de_key e) \<and>
       de_val e = Some (dictDupVal d v)" using e(2) by (intro exI [of _ ?e]) simp
    moreover have "dictAdd can d k v = Some (d2, DICT_OK)" by (simp add: dictAdd_def a(1) Inr d2(1))
    ultimately show ?thesis using d2(2-4) a(3,4) none by auto
  qed
qed

lemma replace_correct:
  assumes inv: "dict_inv d" and small: "dictSize d \<le> 2 ^ 61"
  shows "\<exists>d' e. dictReplace can d k v = Some (d', dict_map d k = None) \<and>
    dict_inv d' \<and> d_type d' = d_type d \<and> iterators d' = iterators d \<and>
    same (d_type d) k (de_key e) \<and> de_val e = Some (dictDupVal d v) \<and>
    (if dict_map d k = None then mset (dict_entries d') = add_mset e (mset (dict_entries d))
     else \<exists>e0 \<in> set (dict_entries d). same (d_type d) k (de_key e0) \<and> mset (dict_entries d') + {#e0#} = mset (dict_entries d) + {#e#})"
proof -
  obtain d1 r where a: "dictAddRaw can d k = Some (d1, r)" "dict_inv d1" "d_type d1 = d_type d" "iterators d1 = iterators d"
    and post: "case r of
       Inl ex \<Rightarrow> same_content d d1 \<and> (\<exists>ref e. ex = Some ref \<and> valid_ref d1 ref e \<and>
         same (d_type d) k (de_key e) \<and> dict_map d k = Some (de_val e))
     | Inr ref \<Rightarrow> dict_map d k = None \<and> (\<exists>e. valid_ref d1 ref e \<and> same (d_type d) k (de_key e) \<and>
         mset (dict_entries d1) = add_mset e (mset (dict_entries d)))"
    using add_raw_correct [OF assms] by blast
  have dup: "dictDupVal d1 v = dictDupVal d v" using a(3) by (simp add: dictDupVal_def)
  show ?thesis
  proof (cases r)
    case (Inl ex)
    then obtain ref e where e: "ex = Some ref" "valid_ref d1 ref e" "same (d_type d) k (de_key e)"
      "dict_map d k = Some (de_val e)" and m: "mset (dict_entries d1) = mset (dict_entries d)"
      using post by (auto simp: same_content_def)
    let ?e = "e\<lparr>de_val := Some (dictDupVal d1 v)\<rparr>"
    obtain d2 where d2: "dictSetVal d1 ref v = Some d2" "dict_inv d2" "d_type d2 = d_type d1" "iterators d2 = iterators d1"
      "mset (dict_entries d2) + {#e#} = mset (dict_entries d1) + {#?e#}"
      using set_val_correct [OF a(2) e(2)] by blast
    have "dictReplace can d k v = Some (d2, dict_map d k = None)"
      using e(4) by (simp add: dictReplace_def a(1) Inl e(1) d2(1))
    moreover have "same (d_type d) k (de_key ?e)" "de_val ?e = Some (dictDupVal d v)"
      using e(3) dup by simp_all
    moreover have "if dict_map d k = None then mset (dict_entries d2) = add_mset ?e (mset (dict_entries d))
      else \<exists>e0 \<in> set (dict_entries d). same (d_type d) k (de_key e0) \<and> mset (dict_entries d2) + {#e0#} = mset (dict_entries d) + {#?e#}"
      using e(3,4) d2(5) valid_ref_entries [OF e(2)] mset_eq_setD [OF m] unfolding m by auto
    ultimately show ?thesis using d2(2-4) a(3,4) by metis
  next
    case (Inr ref)
    then obtain e where e: "valid_ref d1 ref e" "same (d_type d) k (de_key e)" and none: "dict_map d k = None"
      and m: "mset (dict_entries d1) = add_mset e (mset (dict_entries d))" using post by auto
    let ?e = "e\<lparr>de_val := Some (dictDupVal d1 v)\<rparr>"
    obtain d2 where d2: "dictSetVal d1 ref v = Some d2" "dict_inv d2" "d_type d2 = d_type d1" "iterators d2 = iterators d1"
      "mset (dict_entries d2) + {#e#} = mset (dict_entries d1) + {#?e#}"
      using set_val_correct [OF a(2) e(1)] by blast
    have "mset (dict_entries d2) = add_mset ?e (mset (dict_entries d))"
      using d2(5) unfolding m by simp
    moreover have "dictReplace can d k v = Some (d2, dict_map d k = None)"
      by (simp add: dictReplace_def a(1) Inr d2(1) none)
    moreover have "same (d_type d) k (de_key ?e)" "de_val ?e = Some (dictDupVal d v)"
      using e(2) dup by simp_all
    ultimately show ?thesis using d2(2-4) a(3,4) none by metis
  qed
qed

lemma generic_delete_correct:
  assumes inv: "dict_inv d"
  shows "\<exists>d' r. dictGenericDelete d k = Some (d', r) \<and>
    dict_inv d' \<and> d_type d' = d_type d \<and> iterators d' = iterators d \<and>
    (case r of None \<Rightarrow> dict_map d k = None \<and> same_content d d'
     | Some e \<Rightarrow> dict_map d k = Some (de_val e) \<and> same (d_type d) k (de_key e) \<and>
         mset (dict_entries d) = add_mset e (mset (dict_entries d')))"
proof (cases "used (ht0 d) = 0 \<and> used (ht1 d) = 0")
  case True
  then have "dict_entries d = []" using size_entries [OF inv] by (simp add: dictSize_def)
  then show ?thesis using True inv by (simp add: dictGenericDelete_def dict_map_def)
next
  case False
  obtain d1 where d1: "(if dictIsRehashing d then dictRehashStep d else Some d) = Some d1" "dict_inv d1" "same_content d d1"
    using step_if_rehashing [OF inv] by blast
  have t: "d_type d1 = d_type d" "iterators d1 = iterators d" using d1(3) by (simp_all add: same_content_def)
  have m: "dict_map d1 = dict_map d" by (rule same_content_map [OF inv d1(2,3)])
  have "dict_entries d1 \<noteq> []"
    using False size_entries [OF inv] same_content_size [OF d1(3)] by (auto simp: dictSize_def)
  then have ne: "table (ht0 d1) \<noteq> []"
    using d1(2) by (auto simp: dict_inv_def dict_entries_def split: if_splits)
  obtain r idx where s: "dict_search d1 k (dictHashKey d1 k) = Some (r, idx)"
    and post: "case r of None \<Rightarrow> (\<forall>e \<in> set (dict_entries d1). \<not> same (d_type d1) k (de_key e)) \<and>
         idx = bucket (d_type d1) (if dictIsRehashing d1 then ht1 d1 else ht0 d1) k
     | Some ref \<Rightarrow> \<exists>e. valid_ref d1 ref e \<and> same (d_type d1) k (de_key e)"
    using search_correct [OF d1(2) ne] by blast
  show ?thesis
  proof (cases r)
    case None
    then have "dict_map d k = None" using post dict_map_None_iff [OF d1(2), of k] m by simp
    moreover have "dictGenericDelete d k = Some (d1, None)"
      using False by (auto simp: dictGenericDelete_def d1(1) s None)
    ultimately show ?thesis using d1(2,3) t by auto
  next
    case (Some ref)
    obtain t' i p where ref: "ref = (t', i, p)" by (cases ref) auto
    obtain e where e: "valid_ref d1 (t', i, p) e" "same (d_type d) k (de_key e)" using post Some ref t by auto
    have dm: "dict_map d k = Some (de_val e)"
      using dict_map_Some_iff [OF d1(2), of k "de_val e"] valid_ref_entries [OF e(1)] e(2) m t by auto
    obtain d2 where d2: "(if t' = 0 then map_option (\<lambda>h. d1\<lparr>ht0 := h\<rparr>) (unlink_entry i p (ht0 d1))
      else map_option (\<lambda>h. d1\<lparr>ht1 := h\<rparr>) (unlink_entry i p (ht1 d1))) = Some d2"
      "dict_inv d2" "d_type d2 = d_type d1" "iterators d2 = iterators d1"
      "mset (dict_entries d1) = add_mset e (mset (dict_entries d2))"
      using unlink_correct [OF d1(2) e(1)] by blast
    have "dictGenericDelete d k = Some (d2, Some e)"
      using False by (auto simp: dictGenericDelete_def d1(1) s Some ref valid_ref_entry_at [OF e(1)] d2(1))
    moreover have "mset (dict_entries d) = add_mset e (mset (dict_entries d2))"
      using d2(5) d1(3) by (simp add: same_content_def)
    ultimately show ?thesis using dm e(2) d2(2-4) t by auto
  qed
qed

section \<open>The dictionary as a key-value store\<close>

definition dict_lookup :: "('k, 'v) dict \<Rightarrow> 'k \<Rightarrow> 'v option" where
  "dict_lookup d k = Option.bind (dict_map d k) id"

text \<open>Between calls every entry has its value: only \<^const>\<open>dictAddRaw\<close> leaves one unset.\<close>

definition dict_ok :: "('k, 'v) dict \<Rightarrow> bool" where
  "dict_ok d \<longleftrightarrow> dict_inv d \<and> (\<forall>e \<in> set (dict_entries d). de_val e \<noteq> None)"

definition type_dup :: "('k, 'v) dictType \<Rightarrow> 'v \<Rightarrow> 'v" where
  "type_dup t v = (case valDup t of Some f \<Rightarrow> f v | None \<Rightarrow> v)"

lemma lookup_None_iff:
  assumes "dict_ok d"
  shows "dict_lookup d k = None \<longleftrightarrow> dict_map d k = None"
  using assms dict_map_Some_iff [of d k None]
  by (cases "dict_map d k") (auto simp: dict_lookup_def dict_ok_def)

lemma ok_mono:
  assumes "dict_ok d" "dict_inv d'" "set (dict_entries d') \<subseteq> insert e (set (dict_entries d))" "de_val e = Some v"
  shows "dict_ok d'"
  using assms by (auto simp: dict_ok_def)

lemma mset_add_length: "mset xs = add_mset x (mset ys) \<Longrightarrow> length xs = Suc (length ys)"
  by (metis size_add_mset size_mset)

lemma mset_add_set: "mset xs = add_mset x (mset ys) \<Longrightarrow> set xs = insert x (set ys)"
  by (metis set_mset_add_mset_insert set_mset_mset)

lemma mset_exchange_length: "mset xs + {#y#} = mset ys + {#x#} \<Longrightarrow> length xs = length ys"
  by (drule arg_cong [of _ _ size_class.size]) simp

lemma mset_subset_insert: "mset xs + {#y#} = mset ys + {#x#} \<Longrightarrow> set xs \<subseteq> insert x (set ys)"
  by (metis add_mset_add_single insert_subset set_mset_add_mset_insert set_mset_mset subset_insertI)

lemma dict_map_replace:
  assumes inv: "dict_inv d" "dict_inv d'" "d_type d' = d_type d"
    and m: "mset (dict_entries d') + {#e0#} = mset (dict_entries d) + {#e#}"
    and e: "same (d_type d) k (de_key e)" "same (d_type d) k (de_key e0)" "e0 \<in> set (dict_entries d)"
  shows "dict_map d' = (\<lambda>x. if same (d_type d) k x then Some (de_val e) else dict_map d x)"
proof
  fix x
  have ok: "dtype_ok (d_type d)" using inv(1) by (simp add: dict_inv_def)
  have s: "add_mset e0 (mset (dict_entries d')) = add_mset e (mset (dict_entries d))" using m by simp
  then have set: "insert e0 (set (dict_entries d')) = insert e (set (dict_entries d))"
    by (metis set_mset_add_mset_insert set_mset_mset)
  show "dict_map d' x = (if same (d_type d) k x then Some (de_val e) else dict_map d x)"
  proof (cases "same (d_type d) k x")
    case False
    then have "\<not> same (d_type d) x (de_key e)" "\<not> same (d_type d) x (de_key e0)"
      using e same_trans [OF ok] same_sym [OF ok] by metis+
    then have "y \<in> set (dict_entries d') \<longleftrightarrow> y \<in> set (dict_entries d)" if "same (d_type d) x (de_key y)" for y
      using set that by (metis insertE insertI2)
    then have "dict_map d' x = Some v \<longleftrightarrow> dict_map d x = Some v" for v
      unfolding dict_map_Some_iff [OF inv(1)] dict_map_Some_iff [OF inv(2)] inv(3) by metis
    then show ?thesis using False by (metis not_Some_eq)
  next
    case True
    have "e \<in> set (dict_entries d')"
    proof (cases "e = e0")
      case True
      with s have "mset (dict_entries d') = mset (dict_entries d)" by simp
      then show ?thesis using True e(3) mset_eq_setD by metis
    next
      case False
      then show ?thesis using set by blast
    qed
    moreover have "same (d_type d) x (de_key e)" using True e(1) same_trans [OF ok] same_sym [OF ok] by metis
    ultimately show ?thesis using True dict_map_Some_iff [OF inv(2), of x "de_val e"] inv(3) by auto
  qed
qed


lemma dict_store_add:
  assumes ok: "dict_ok d" and small: "dictSize d \<le> 2 ^ 61"
  shows "\<exists>d'. map_option (\<lambda>(d, st). (d, st = DICT_OK)) (dictAdd can d k v) = Some (d', dict_lookup d k = None) \<and>
    dict_ok d' \<and> d_type d' = d_type d \<and> dictSize d' \<le> Suc (dictSize d) \<and>
    dict_lookup d' = (if dict_lookup d k = None then kv_upd (same (d_type d)) k (Some (type_dup (d_type d) v)) (dict_lookup d)
      else dict_lookup d)"
proof -
  have inv: "dict_inv d" using ok by (simp add: dict_ok_def)
  obtain d' where d': "dictAdd can d k v = Some (d', if dict_map d k = None then DICT_OK else DICT_ERR)"
    "dict_inv d'" "d_type d' = d_type d"
    and post: "if dict_map d k = None
     then \<exists>e. mset (dict_entries d') = add_mset e (mset (dict_entries d)) \<and> same (d_type d) k (de_key e) \<and>
       de_val e = Some (dictDupVal d v)
     else same_content d d'"
    using add_correct [OF inv small] by blast
  show ?thesis
  proof (cases "dict_map d k = None")
    case True
    then obtain e where e: "mset (dict_entries d') = add_mset e (mset (dict_entries d))" "same (d_type d) k (de_key e)"
       "de_val e = Some (dictDupVal d v)" using post by auto
    have "dictSize d' = Suc (dictSize d)" using mset_add_length [OF e(1)] by (simp add: size_entries inv d'(2))
    moreover have "dict_ok d'"
      using ok_mono [OF ok d'(2) _ e(3)] mset_add_set [OF e(1)] by simp
    moreover have "dict_lookup d' = kv_upd (same (d_type d)) k (Some (type_dup (d_type d) v)) (dict_lookup d)"
      using dict_map_insert [OF inv d'(2,3) e(1,2)] e(3)
      by (auto simp: dict_lookup_def kv_upd_def type_dup_def dictDupVal_def)
    ultimately show ?thesis using d' True lookup_None_iff [OF ok] by simp
  next
    case False
    then have c: "same_content d d'" using post by simp
    then have "dict_ok d'" using ok d'(2) by (auto simp: dict_ok_def same_content_def dest: mset_eq_setD)
    moreover have "dictSize d' = dictSize d" using same_content_size [OF c] by (simp add: size_entries inv d'(2))
    moreover have "dict_lookup d' = dict_lookup d"
      using same_content_map [OF inv d'(2) c] by (simp add: dict_lookup_def fun_eq_iff)
    ultimately show ?thesis using d' False lookup_None_iff [OF ok, of k] by auto
  qed
qed

lemma dict_store_replace:
  assumes ok: "dict_ok d" and small: "dictSize d \<le> 2 ^ 61"
  shows "\<exists>d'. dictReplace can d k v = Some (d', dict_lookup d k = None) \<and>
    dict_ok d' \<and> d_type d' = d_type d \<and> dictSize d' \<le> Suc (dictSize d) \<and>
    dict_lookup d' = kv_upd (same (d_type d)) k (Some (type_dup (d_type d) v)) (dict_lookup d)"
proof -
  have inv: "dict_inv d" using ok by (simp add: dict_ok_def)
  obtain d' e where d': "dictReplace can d k v = Some (d', dict_map d k = None)" "dict_inv d'" "d_type d' = d_type d"
    and e: "same (d_type d) k (de_key e)" "de_val e = Some (dictDupVal d v)"
    and post: "if dict_map d k = None then mset (dict_entries d') = add_mset e (mset (dict_entries d))
     else \<exists>e0 \<in> set (dict_entries d). same (d_type d) k (de_key e0) \<and> mset (dict_entries d') + {#e0#} = mset (dict_entries d) + {#e#}"
    using replace_correct [OF inv small] by blast
  have "dict_map d' = (\<lambda>x. if same (d_type d) k x then Some (de_val e) else dict_map d x) \<and>
    set (dict_entries d') \<subseteq> insert e (set (dict_entries d)) \<and> dictSize d' \<le> Suc (dictSize d)"
  proof (cases "dict_map d k = None")
    case True
    then have m: "mset (dict_entries d') = add_mset e (mset (dict_entries d))" using post by simp
    then show ?thesis
      using dict_map_insert [OF inv d'(2,3) m e(1)] mset_add_length [OF m] mset_add_set [OF m]
      by (simp add: size_entries inv d'(2))
  next
    case False
    then obtain e0 where e0: "e0 \<in> set (dict_entries d)" "same (d_type d) k (de_key e0)"
      and m: "mset (dict_entries d') + {#e0#} = mset (dict_entries d) + {#e#}" using post by auto
    then show ?thesis
      using mset_exchange_length [OF m] dict_map_replace [OF inv d'(2,3) m e(1) e0(2,1)] mset_subset_insert [OF m]
      by (simp add: size_entries inv d'(2))
  qed
  moreover have "dict_lookup d' = kv_upd (same (d_type d)) k (Some (type_dup (d_type d) v)) (dict_lookup d)"
    if "dict_map d' = (\<lambda>x. if same (d_type d) k x then Some (de_val e) else dict_map d x)"
    using that e(2) by (auto simp: dict_lookup_def kv_upd_def type_dup_def dictDupVal_def)
  ultimately show ?thesis using d' lookup_None_iff [OF ok] ok_mono [OF ok d'(2) _ e(2)] by auto
qed

lemma dict_store_delete:
  assumes ok: "dict_ok d"
  shows "\<exists>d'. map_option (\<lambda>(d, st). (d, st = DICT_OK)) (dictDelete d k) = Some (d', dict_lookup d k \<noteq> None) \<and>
    dict_ok d' \<and> d_type d' = d_type d \<and> dictSize d' \<le> dictSize d \<and>
    dict_lookup d' = kv_upd (same (d_type d)) k None (dict_lookup d)"
proof -
  have inv: "dict_inv d" using ok by (simp add: dict_ok_def)
  obtain d' r where d': "dictGenericDelete d k = Some (d', r)" "dict_inv d'" "d_type d' = d_type d"
    and post: "case r of None \<Rightarrow> dict_map d k = None \<and> same_content d d'
     | Some e \<Rightarrow> dict_map d k = Some (de_val e) \<and> same (d_type d) k (de_key e) \<and>
         mset (dict_entries d) = add_mset e (mset (dict_entries d'))"
    using generic_delete_correct [OF inv] by blast
  have "dict_map d' = (\<lambda>x. if same (d_type d) k x then None else dict_map d x) \<and>
    set (dict_entries d') \<subseteq> set (dict_entries d) \<and> dictSize d' \<le> dictSize d \<and> (r \<noteq> None \<longleftrightarrow> dict_map d k \<noteq> None)"
  proof (cases r)
    case None
    then have c: "dict_map d k = None" "same_content d d'" using post by simp_all
    have "dict_map d x = None" if "same (d_type d) k x" for x
      using c(1) that unfolding dict_map_None_iff [OF inv]
      using same_trans inv by (metis dict_inv_def)
    then have "dict_map d' = (\<lambda>x. if same (d_type d) k x then None else dict_map d x)"
      unfolding same_content_map [OF inv d'(2) c(2)] by (auto simp: fun_eq_iff)
    moreover have "set (dict_entries d') = set (dict_entries d)"
      using c(2) mset_eq_setD by (metis same_content_def)
    ultimately show ?thesis
      using same_content_size [OF c(2)] c(1) None by (simp add: size_entries inv d'(2))
  next
    case (Some e)
    then have c: "dict_map d k = Some (de_val e)" "same (d_type d) k (de_key e)"
      and m: "mset (dict_entries d) = add_mset e (mset (dict_entries d'))" using post by simp_all
    show ?thesis using mset_add_length [OF m] mset_add_set [OF m]
      using dict_map_delete [OF inv d'(2,3) m c(2)] c(1) Some by (auto simp: size_entries inv d'(2))
  qed
  then show ?thesis
    using d' ok lookup_None_iff [OF ok, of k]
    by (auto simp: dictDelete_def dict_ok_def dict_lookup_def kv_upd_def)
qed

lemma dict_store_fetch:
  assumes ok: "dict_ok d"
  shows "\<exists>d'. dictFetchValue d k = Some (d', dict_lookup d k) \<and>
    dict_ok d' \<and> d_type d' = d_type d \<and> dictSize d' \<le> dictSize d \<and> dict_lookup d' = dict_lookup d"
proof -
  have inv: "dict_inv d" using ok by (simp add: dict_ok_def)
  obtain d' where d': "dictFetchValue d k = Some (d', case dict_map d k of None \<Rightarrow> None | Some v \<Rightarrow> v)"
    "dict_inv d'" and c: "same_content d d'"
    using fetch_correct [OF inv] by blast
  have "(case dict_map d k of None \<Rightarrow> None | Some v \<Rightarrow> v) = dict_lookup d k"
    by (simp add: dict_lookup_def split: option.splits)
  moreover have "dict_ok d'" using ok d'(2) c by (auto simp: dict_ok_def same_content_def dest: mset_eq_setD)
  moreover have "dictSize d' = dictSize d" using same_content_size [OF c] by (simp add: size_entries inv d'(2))
  moreover have "dict_lookup d' = dict_lookup d"
    using same_content_map [OF inv d'(2) c] by (simp add: dict_lookup_def fun_eq_iff)
  ultimately show ?thesis using d'(1) c by (simp add: same_content_def)
qed

interpretation dict_store: kv_store
  "\<lambda>d k v. map_option (\<lambda>(d, st). (d, st = DICT_OK)) (dictAdd can d k v)"
  "dictReplace can"
  "\<lambda>d k. map_option (\<lambda>(d, st). (d, st = DICT_OK)) (dictDelete d k)"
  dictFetchValue dict_lookup dict_ok d_type same type_dup dictSize "2 ^ 61"
  for can
  by unfold_locales (rule dict_store_add dict_store_replace dict_store_delete dict_store_fetch; assumption)+

lemma dictCreate_ok: "dtype_ok t \<Longrightarrow> dict_ok (dictCreate t)"
  by (simp add: dict_ok_def dict_inv_def dictCreate_def dictReset_def ht_inv_def dict_entries_def dict_keys_def)

lemma dictCreate_lookup: "dict_lookup (dictCreate t) = (\<lambda>x. None)"
  by (simp add: dict_lookup_def dict_map_def dictCreate_def dictReset_def dict_entries_def fun_eq_iff)

section \<open>Rehashing to the end\<close>

text \<open>
  \<^verbatim>\<open>dictRehashMilliseconds\<close>: \<open>clock i\<close> is the \<open>i\<close>-th value that \<^verbatim>\<open>timeInMilliseconds\<close> returns, and
  an overflow of the \<^verbatim>\<open>int\<close> counter is undefined.
\<close>

partial_function (option) dictRehashMilliseconds_loop :: "(nat \<Rightarrow> int) \<Rightarrow> int \<Rightarrow> nat \<Rightarrow> int \<Rightarrow> ('k, 'v) dict \<Rightarrow>
    (('k, 'v) dict \<times> int) option" where
  "dictRehashMilliseconds_loop clock ms i rehashes d =
     do {
       (d', more) \<leftarrow> dictRehash d 100;
       if \<not> more then Some (d', rehashes)
       else if rehashes + 100 > 2147483647 then None
       else if clock (Suc i) - clock 0 > ms then Some (d', rehashes + 100)
       else dictRehashMilliseconds_loop clock ms (Suc i) (rehashes + 100) d'
     }"

declare dictRehashMilliseconds_loop.simps [code]

definition dictRehashMilliseconds :: "(nat \<Rightarrow> int) \<Rightarrow> ('k, 'v) dict \<Rightarrow> int \<Rightarrow> (('k, 'v) dict \<times> int) option" where
  "dictRehashMilliseconds clock d ms = dictRehashMilliseconds_loop clock ms 0 0 d"

lemma rehashidx_bound:
  assumes "dict_inv d" "dictIsRehashing d" "used (ht0 d) \<noteq> 0"
  shows "rehashidx d < int (size (ht0 d))"
proof (rule ccontr)
  assume n: "\<not> rehashidx d < int (size (ht0 d))"
  have sz: "size (ht0 d) = length (table (ht0 d))" using assms(1) by (auto simp: dict_inv_def ht_inv_def ht_shape_def split: if_splits)
  have "\<forall>i < length (table (ht0 d)). table (ht0 d) ! i = []"
    using assms n sz by (auto simp: dict_inv_def dictIsRehashing_def)
  then have "concat (table (ht0 d)) = []" by (auto simp: in_set_conv_nth)
  then show False using assms by (simp add: dict_inv_def ht_inv_def)
qed

lemma rehash_ms_loop:
  assumes "dict_inv d" "int (size (ht0 d)) * 100 \<le> 2147483647" "0 \<le> rehashes"
    "rehashes \<le> 100 * (if dictIsRehashing d then rehashidx d else 0)"
  shows "\<exists>d' r. dictRehashMilliseconds_loop clock ms i rehashes d = Some (d', r) \<and> dict_inv d' \<and> same_content d d' \<and>
    ((\<forall>j. clock j - clock 0 \<le> ms) \<longrightarrow> \<not> dictIsRehashing d')"
  using assms
proof (induction "nat (int (size (ht0 d)) + 1 - (if dictIsRehashing d then rehashidx d else - 1))" arbitrary: d rehashes i rule: less_induct)
  case less
  obtain d1 more where d1: "dictRehash d 100 = Some (d1, more)" "dict_inv d1" "same_content d d1" "more = dictIsRehashing d1"
    and prog: "dictIsRehashing d \<and> more \<longrightarrow> rehashidx d < rehashidx d1 \<and> size (ht0 d1) = size (ht0 d)"
    using rehash_correct [OF less.prems(1), of 100] by auto
  show ?case
  proof (cases more)
    case False
    then show ?thesis using d1 by (subst dictRehashMilliseconds_loop.simps) auto
  next
    case True
    have r: "dictIsRehashing d" using True d1(1) by (auto simp: dictRehash_def split: if_splits)
    have p: "rehashidx d < rehashidx d1" "size (ht0 d1) = size (ht0 d)" using prog r True by simp_all
    have "\<exists>d2 stop. dictRehash_loop d 100 1000 = Some (d2, stop) \<and> (stop \<longrightarrow> used (ht0 d2) \<noteq> 0)"
      using rehash_loop_correct [OF less.prems(1) r] by blast
    then have u: "used (ht0 d1) \<noteq> 0"
      using d1(1) True r by (auto simp: dictRehash_def split: Option.bind_splits if_splits prod.splits)
    have b: "rehashidx d1 < int (size (ht0 d))" using rehashidx_bound [OF d1(2) _ u] True d1(4) p(2) by simp
    have le: "rehashes + 100 \<le> 100 * rehashidx d1" using less.prems(4) r p(1) by simp
    then have no: "\<not> rehashes + 100 > 2147483647" using b less.prems(2) by linarith
    have "\<exists>d' r. dictRehashMilliseconds_loop clock ms (Suc i) (rehashes + 100) d1 = Some (d', r) \<and> dict_inv d' \<and>
        same_content d1 d' \<and> ((\<forall>j. clock j - clock 0 \<le> ms) \<longrightarrow> \<not> dictIsRehashing d')"
      by (rule less.hyps) (use r True d1 p b le less.prems in auto)
    then obtain d' r' where l: "dictRehashMilliseconds_loop clock ms (Suc i) (rehashes + 100) d1 = Some (d', r')" "dict_inv d'"
      "same_content d1 d'" "(\<forall>j. clock j - clock 0 \<le> ms) \<longrightarrow> \<not> dictIsRehashing d'" by blast
    show ?thesis
    proof (cases "clock (Suc i) - clock 0 > ms")
      case expired: True
      then have "\<not> (\<forall>j. clock j - clock 0 \<le> ms)" by (meson not_le)
      then show ?thesis using expired d1 True no by (subst dictRehashMilliseconds_loop.simps) auto
    next
      case False
      then show ?thesis
        using l d1 True no same_content_trans [OF d1(3) l(3)] by (subst dictRehashMilliseconds_loop.simps) auto
    qed
  qed
qed

section \<open>Emptying\<close>

lemma clear_loop_all: "length (concat cs) \<le> n \<Longrightarrow> dictClear_loop cs n = concat cs"
  by (induction cs arbitrary: n) auto

section \<open>Properties\<close>

text \<open>
  Property C7. Every sequence of add, replace, delete and fetch calls on a hash table, starting in any
  valid state, also in the middle of an incremental rehash, never reads out of a table,
  never fails an assertion, and returns what the same calls on a finite map return; the table stays valid.
\<close>

theorem dict_refines_map:
  assumes "dict_ok d" "dictSize d + length ops \<le> 2 ^ 61"
  shows "\<exists>d' rs. run_kv (\<lambda>d k v. map_option (\<lambda>(d, st). (d, st = DICT_OK)) (dictAdd can d k v)) (dictReplace can)
      (\<lambda>d k. map_option (\<lambda>(d, st). (d, st = DICT_OK)) (dictDelete d k)) dictFetchValue d ops = Some (d', rs) \<and>
    dict_ok d' \<and> d_type d' = d_type d \<and>
    spec_kv (same (d_type d)) (type_dup (d_type d)) (dict_lookup d) ops = (dict_lookup d', rs)"
  by (rule dict_store.run_kv_refines [OF assms])

definition nat_type :: "(nat, nat) dictType" where
  "nat_type = \<lparr>hashFunction = of_nat, keyDup = None, valDup = None, keyCompare = None\<rparr>"

lemma nat_type_ok: "dtype_ok nat_type"
  by (auto simp: dtype_ok_def same_def nat_type_def dictCompareKeys_def equivp_def fun_eq_iff)

theorem dict_refines_map_witness:
  "\<exists>d'. run_kv (\<lambda>d k v. map_option (\<lambda>(d, st). (d, st = DICT_OK)) (dictAdd True d k v)) (dictReplace True)
      (\<lambda>d k. map_option (\<lambda>(d, st). (d, st = DICT_OK)) (dictDelete d k)) dictFetchValue (dictCreate nat_type)
      [KAdd 3 1, KAdd 3 2, KReplace 7 5, KFetch 3, KDelete 7, KFetch 7] =
    Some (d', [Flag True, Flag False, Flag True, Val (Some 1), Flag True, Val None])"
  using dict_refines_map [OF dictCreate_ok [OF nat_type_ok],
      of "[KAdd 3 1, KAdd 3 2, KReplace 7 5, KFetch 3, KDelete 7, KFetch 7]" True]
  by (auto simp: dictCreate_lookup dictSize_def dictCreate_def dictReset_def nat_type_def kv_upd_def same_def
      dictCompareKeys_def type_dup_def dictCreate_lookup [unfolded dictCreate_def dictReset_def])


text \<open>
  Property C23. \<^verbatim>\<open>dictEmpty\<close> frees every entry exactly once and leaves an empty valid table.
\<close>

theorem dictEmpty_frees_all:
  assumes "dict_inv d"
  shows "snd (dictEmpty d) = dict_entries d \<and> dict_ok (fst (dictEmpty d)) \<and>
    (\<forall>k. dict_lookup (fst (dictEmpty d)) k = None)"
proof -
  have "size (ht0 d) = length (table (ht0 d))" "size (ht1 d) = length (table (ht1 d))"
    "used (ht0 d) = length (concat (table (ht0 d)))" "used (ht1 d) = length (concat (table (ht1 d)))" "dtype_ok (d_type d)"
    using assms by (auto simp: dict_inv_def ht_inv_def ht_shape_def split: if_splits)
  then show ?thesis
    by (auto simp: dictEmpty_def dictClear_def clear_loop_all dict_entries_def dict_ok_def dict_inv_def dict_keys_def
        ht_inv_def dictReset_def dict_lookup_def dict_map_def)
qed

text \<open>A table in the middle of a rehash, for the witnesses.\<close>

definition mid_rehash :: "(nat, nat) dict" where
  "mid_rehash =
     \<lparr>d_type = nat_type,
      ht0 = \<lparr>table = [[], [], [\<lparr>de_key = 6, de_val = Some 60\<rparr>], []], size = 4, sizemask = 3, used = 1\<rparr>,
      ht1 = \<lparr>table = [[], [\<lparr>de_key = 1, de_val = Some 10\<rparr>], [], [], [], [], [], []], size = 8, sizemask = 7, used = 1\<rparr>,
      rehashidx = 2, iterators = 0\<rparr>"

lemma mid_rehash_ok: "dict_ok mid_rehash"
proof -
  have "ht_shape (ht0 mid_rehash)" "ht_shape (ht1 mid_rehash)"
    by (auto simp: ht_shape_def mid_rehash_def mask_eq_exp_minus_1 intro: exI [of _ 2] exI [of _ 3])
  moreover have "placed nat_type (ht0 mid_rehash)" "placed nat_type (ht1 mid_rehash)"
    by (auto simp: placed_def mid_rehash_def less_Suc_eq bucket_def nat_type_def)
  moreover have "cls nat_type x = {x}" for x
    by (auto simp: cls_def same_def nat_type_def dictCompareKeys_def)
  ultimately show ?thesis
    using nat_type_ok
    by (auto simp: dict_ok_def dict_inv_def ht_inv_def dict_keys_def dict_entries_def mid_rehash_def less_Suc_eq)
qed

lemma mid_rehash_inv: "dict_inv mid_rehash"
  using mid_rehash_ok by (simp add: dict_ok_def)


theorem dictEmpty_frees_all_witness:
  "map de_key (snd (dictEmpty mid_rehash)) = [6, 1]"
  using dictEmpty_frees_all [OF mid_rehash_inv] by (simp add: dict_entries_def mid_rehash_def)

end
