(* ===== verification/Dict_Scan.thy ===== *)
theory Dict_Scan
  imports Dict
begin

text \<open>
  The stateless iteration of \<^verbatim>\<open>dict.c\<close>: \<^verbatim>\<open>rev\<close>, the reverse-binary cursor and
  \<^verbatim>\<open>dictScan\<close>. The callbacks are the caller's code; the model returns the entries they are called
  with, in order (and \<^verbatim>\<open>bucketfn\<close> is null). The central notion is the \<open>rank\<close> of a cursor, its bits
  read in reverse: a call moves the rank forward and emits every entry whose hash has a
  rank in between, whatever the sizes of the tables are.
\<close>

section \<open>Reversing the bits of a cursor\<close>

function rev_loop :: "nat \<Rightarrow> u64 \<Rightarrow> u64 \<Rightarrow> u64" where
  "rev_loop s msk v =
     (if s div 2 > 0 then
        let s' = s div 2; msk' = msk XOR push_bit s' msk in
        rev_loop s' msk' ((drop_bit s' v AND msk') OR (push_bit s' v AND NOT msk'))
      else v)"
  by pat_completeness auto
termination
  by (relation "measure (\<lambda>(s, msk, v). s)") auto

declare rev_loop.simps [simp del]

definition rev_cursor :: "u64 \<Rightarrow> u64" where
  "rev_cursor v = rev_loop (8 * 8) (NOT 0) v"

lemma rev_step:
  fixes v :: u64
  assumes "\<And>i. i < 64 \<Longrightarrow> bit m i \<longleftrightarrow> (i div s) mod 2 = 0" "i < 64" "0 < s"
  shows "bit ((drop_bit s v AND m) OR (push_bit s v AND NOT m)) i = bit v (if (i div s) mod 2 = 0 then i + s else i - s)"
proof (cases "(i div s) mod 2 = 0")
  case True
  then show ?thesis using assms by (simp add: bit_simps add.commute)
next
  case False
  then have "s \<le> i" using assms(3) by (metis div_less mod_0 not_le)
  then show ?thesis using False assms by (simp add: bit_simps)
qed

lemma rev_cursor_unfold:
  "rev_cursor v =
    (let v = (drop_bit 32 v AND 0x00000000FFFFFFFF) OR (push_bit 32 v AND NOT 0x00000000FFFFFFFF);
         v = (drop_bit 16 v AND 0x0000FFFF0000FFFF) OR (push_bit 16 v AND NOT 0x0000FFFF0000FFFF);
         v = (drop_bit 8 v AND 0x00FF00FF00FF00FF) OR (push_bit 8 v AND NOT 0x00FF00FF00FF00FF);
         v = (drop_bit 4 v AND 0x0F0F0F0F0F0F0F0F) OR (push_bit 4 v AND NOT 0x0F0F0F0F0F0F0F0F);
         v = (drop_bit 2 v AND 0x3333333333333333) OR (push_bit 2 v AND NOT 0x3333333333333333)
     in (drop_bit 1 v AND 0x5555555555555555) OR (push_bit 1 v AND NOT 0x5555555555555555))"
proof -
  have m: "NOT 0 XOR push_bit 32 (NOT 0) = (0x00000000FFFFFFFF :: u64)"
    "0x00000000FFFFFFFF XOR push_bit 16 0x00000000FFFFFFFF = (0x0000FFFF0000FFFF :: u64)"
    "0x0000FFFF0000FFFF XOR push_bit 8 0x0000FFFF0000FFFF = (0x00FF00FF00FF00FF :: u64)"
    "0x00FF00FF00FF00FF XOR push_bit 4 0x00FF00FF00FF00FF = (0x0F0F0F0F0F0F0F0F :: u64)"
    "0x0F0F0F0F0F0F0F0F XOR push_bit 2 0x0F0F0F0F0F0F0F0F = (0x3333333333333333 :: u64)"
    "0x3333333333333333 XOR push_bit 1 0x3333333333333333 = (0x5555555555555555 :: u64)"
    by code_simp+
  have r: "rev_loop t msk v = rev_loop s msk' ((drop_bit s v AND msk') OR (push_bit s v AND NOT msk'))"
    if "msk XOR push_bit s msk = msk'" "0 < s" "t = 2 * s" for s t msk msk' v
    using that by (simp add: rev_loop.simps [of "2 * s"] Let_def)
  have e: "rev_loop 1 msk v = v" for msk v by (subst rev_loop.simps) simp
  have "rev_cursor v = rev_loop 64 (NOT 0) v" by (simp add: rev_cursor_def)
  then show ?thesis
    unfolding Let_def
    using r [OF m(1), of 64] r [OF m(2), of 32] r [OF m(3), of 16] r [OF m(4), of 8] r [OF m(5), of 4]
      r [OF m(6), of 2] by (simp only: e simp_thms zero_less_numeral zero_less_one mult_numeral_1_right mult_2 numeral_plus_numeral one_add_one add_num_simps)
qed

lemma less_64_all: "(\<forall>i < 64. P i) \<longleftrightarrow> (\<forall>i \<in> set [0..<64]. P (i::nat))" by auto

lemma masks:
  "\<forall>i < 64. bit (0x00000000FFFFFFFF :: u64) i \<longleftrightarrow> (i div 32) mod 2 = 0"
  "\<forall>i < 64. bit (0x0000FFFF0000FFFF :: u64) i \<longleftrightarrow> (i div 16) mod 2 = 0"
  "\<forall>i < 64. bit (0x00FF00FF00FF00FF :: u64) i \<longleftrightarrow> (i div 8) mod 2 = 0"
  "\<forall>i < 64. bit (0x0F0F0F0F0F0F0F0F :: u64) i \<longleftrightarrow> (i div 4) mod 2 = 0"
  "\<forall>i < 64. bit (0x3333333333333333 :: u64) i \<longleftrightarrow> (i div 2) mod 2 = 0"
  "\<forall>i < 64. bit (0x5555555555555555 :: u64) i \<longleftrightarrow> (i div 1) mod 2 = 0"
  unfolding less_64_all by (code_simp, code_simp, code_simp, code_simp, code_simp, code_simp)


definition flip :: "nat \<Rightarrow> nat \<Rightarrow> nat" where
  "flip s i = (if (i div s) mod 2 = 0 then i + s else i - s)"

lemma flips: "\<forall>i < 64. flip 1 i < 64 \<and> flip 2 (flip 1 i) < 64 \<and> flip 4 (flip 2 (flip 1 i)) < 64 \<and>
  flip 8 (flip 4 (flip 2 (flip 1 i))) < 64 \<and> flip 16 (flip 8 (flip 4 (flip 2 (flip 1 i)))) < 64 \<and>
  flip 32 (flip 16 (flip 8 (flip 4 (flip 2 (flip 1 i))))) = 63 - i"
  unfolding less_64_all by code_simp

text \<open>The parallel swaps reverse the 64 bits.\<close>

lemma bit_rev_cursor: "bit (rev_cursor v) i \<longleftrightarrow> i < 64 \<and> bit v (63 - i)"
proof (cases "i < 64")
  case False
  then show ?thesis using bit_imp_le_length [of "rev_cursor v" i] by auto
next
  case True
  have f: "flip 1 i < 64" "flip 2 (flip 1 i) < 64" "flip 4 (flip 2 (flip 1 i)) < 64"
    "flip 8 (flip 4 (flip 2 (flip 1 i))) < 64" "flip 16 (flip 8 (flip 4 (flip 2 (flip 1 i)))) < 64"
    "flip 32 (flip 16 (flip 8 (flip 4 (flip 2 (flip 1 i))))) = 63 - i"
    using flips True by blast+
  have st: "bit ((drop_bit s v AND m) OR (push_bit s v AND NOT m)) i = bit v (flip s i)"
    if "\<forall>i < 64. bit m i \<longleftrightarrow> (i div s) mod 2 = 0" "i < 64" "0 < s" for s i and m v :: u64
    unfolding flip_def by (rule rev_step) (use that in auto)
  show ?thesis
    unfolding rev_cursor_unfold Let_def
    by (simp only: st [OF masks(6) True zero_less_one] st [OF masks(5) f(1) zero_less_numeral]
      st [OF masks(4) f(2) zero_less_numeral] st [OF masks(3) f(3) zero_less_numeral]
      st [OF masks(2) f(4) zero_less_numeral] st [OF masks(1) f(5) zero_less_numeral] f(6) True simp_thms)
qed

lemma rev_rev_cursor [simp]: "rev_cursor (rev_cursor v) = v"
  by (rule bit_word_eqI) (auto simp: bit_rev_cursor)

lemma unat_drop_bit: "unat (drop_bit k w) = unat w div 2 ^ k" for w :: u64
proof -
  have "unat w < 2 ^ LENGTH(64)" by (rule unsigned_less)
  then have "take_bit LENGTH(64) (unat w) = unat w" by (rule take_bit_nat_eq_self)
  then have "unat (drop_bit k w) = drop_bit k (unat w)" by (simp only: unsigned_drop_bit_eq)
  then show ?thesis by (simp only: drop_bit_eq_div)
qed

text \<open>The rank of a cursor or hash: its bits read in reverse.\<close>

definition rank :: "u64 \<Rightarrow> nat" where
  "rank v = unat (rev_cursor v)"

lemma rank_bound: "rank v < 2 ^ 64"
proof -
  have "unat (rev_cursor v) < 2 ^ LENGTH(64)" by (rule unsigned_less)
  then show ?thesis by (simp add: rank_def)
qed

lemma rank_0 [simp]: "rank 0 = 0"
proof -
  have "rev_cursor 0 = 0" by (rule bit_word_eqI) (simp add: bit_rev_cursor)
  then show ?thesis by (simp add: rank_def)
qed

lemma rank_0_iff: "rank v = 0 \<longleftrightarrow> v = 0"
  by (metis rank_0 rank_def rev_rev_cursor unat_eq_zero)

text \<open>The bucket of a hash in a table of \<open>2 ^ n\<close> buckets is its rank up to the low bits.\<close>

lemma same_bucket_rank:
  assumes "n \<le> 64"
  shows "h AND Bit_Operations.mask n = (v AND Bit_Operations.mask n :: u64) \<longleftrightarrow> rank h div 2 ^ (64 - n) = rank v div 2 ^ (64 - n)"
proof -
  have "rank h div 2 ^ (64 - n) = rank v div 2 ^ (64 - n) \<longleftrightarrow> drop_bit (64 - n) (rev_cursor h) = drop_bit (64 - n) (rev_cursor v)"
    unfolding rank_def unat_drop_bit [symmetric] by (simp add: word_unat_eq_iff)
  also have "\<dots> \<longleftrightarrow> (\<forall>i < 64. bit (rev_cursor h) (64 - n + i) = bit (rev_cursor v) (64 - n + i))"
    by (auto simp: bit_eq_iff bit_simps)
  also have "\<dots> \<longleftrightarrow> (\<forall>j < n. bit h j = bit v j)"
  proof
    assume l: "\<forall>i < 64. bit (rev_cursor h) (64 - n + i) = bit (rev_cursor v) (64 - n + i)"
    show "\<forall>j < n. bit h j = bit v j"
    proof (intro allI impI)
      fix j assume "j < n"
      then have "n - 1 - j < 64" "64 - n + (n - 1 - j) = 63 - j" "63 - (63 - j) = j" "63 - j < 64" using assms by linarith+
      then show "bit h j = bit v j" using l [rule_format, of "n - 1 - j"] by (simp add: bit_rev_cursor)
    qed
  next
    assume r: "\<forall>j < n. bit h j = bit v j"
    show "\<forall>i < 64. bit (rev_cursor h) (64 - n + i) = bit (rev_cursor v) (64 - n + i)"
      using r assms by (auto simp: bit_rev_cursor)
  qed
  also have "\<dots> \<longleftrightarrow> h AND Bit_Operations.mask n = v AND Bit_Operations.mask n"
    using assms by (simp add: bit_eq_iff bit_simps) (meson order_less_le_trans)
  finally show ?thesis by simp
qed

text \<open>The cursor step: the rank moves on to the next multiple of the bucket's span.\<close>

definition next_cursor :: "u64 \<Rightarrow> u64 \<Rightarrow> u64" where
  "next_cursor m v = rev_cursor (rev_cursor (v OR NOT m) + 1)"

lemma rank_next:
  assumes "n \<le> 64"
  shows "rank (next_cursor (Bit_Operations.mask n) v) = ((rank v div 2 ^ (64 - n) + 1) * 2 ^ (64 - n)) mod 2 ^ 64"
proof -
  let ?k = "64 - n" and ?w = "rev_cursor v"
  have "rev_cursor (v OR NOT (Bit_Operations.mask n)) = ?w OR Bit_Operations.mask ?k"
    using assms by (intro bit_word_eqI) (auto simp: bit_rev_cursor bit_simps)
  also have "\<dots> = (?w AND NOT (Bit_Operations.mask ?k)) OR Bit_Operations.mask ?k"
    by (intro bit_word_eqI) (auto simp: bit_simps)
  also have "\<dots> = (?w AND NOT (Bit_Operations.mask ?k)) + Bit_Operations.mask ?k"
    by (rule disjunctive_add [symmetric]) (simp add: bit_simps)
  also have "?w AND NOT (Bit_Operations.mask ?k) = push_bit ?k (drop_bit ?k ?w)"
    by (intro bit_word_eqI) (auto simp: bit_simps)
  finally have "rev_cursor (v OR NOT (Bit_Operations.mask n)) + 1 = push_bit ?k (drop_bit ?k ?w) + 2 ^ ?k"
    by (simp add: mask_eq_exp_minus_1)
  also have "\<dots> = of_nat ((rank v div 2 ^ ?k + 1) * 2 ^ ?k)"
  proof -
    have "drop_bit ?k ?w = of_nat (rank v div 2 ^ ?k)"
      unfolding rank_def unat_drop_bit [symmetric] by simp
    then have "push_bit ?k (drop_bit ?k ?w) = of_nat (rank v div 2 ^ ?k * 2 ^ ?k)"
      by (simp add: push_bit_eq_mult)
    then show ?thesis by simp
  qed
  finally show ?thesis
    unfolding next_cursor_def rank_def rev_rev_cursor
    by (simp only: unat_of_nat) simp
qed


section \<open>The scan\<close>

text \<open>Emitting the expansions of the cursor in the larger table.\<close>

partial_function (option) dictScan_loop :: "('k, 'v) dictht \<Rightarrow> u64 \<Rightarrow> u64 \<Rightarrow> u64 \<Rightarrow>
    (u64 \<times> ('k, 'v) dictEntry list) option" where
  "dictScan_loop t1 m0 m1 v =
     do {
       c \<leftarrow> nth_opt (table t1) (unat (v AND m1));
       let v' = next_cursor m1 v;
       if v' AND (m0 XOR m1) \<noteq> 0
         then do { (v'', es) \<leftarrow> dictScan_loop t1 m0 m1 v'; Some (v'', c @ es) }
         else Some (v', c)
     }"

declare dictScan_loop.simps [code]

definition dictScan :: "('k, 'v) dict \<Rightarrow> u64 \<Rightarrow> (u64 \<times> ('k, 'v) dictEntry list) option" where
  "dictScan d v =
     (if dictSize d = 0 then Some (0, [])
      else if \<not> dictIsRehashing d then do {
        let m0 = sizemask (ht0 d);
        c \<leftarrow> nth_opt (table (ht0 d)) (unat (v AND m0));
        Some (next_cursor m0 v, c)
      }
      else do {
        let (t0, t1) = (if size (ht0 d) > size (ht1 d) then (ht1 d, ht0 d) else (ht0 d, ht1 d));
        c \<leftarrow> nth_opt (table t0) (unat (v AND sizemask t0));
        (v', es) \<leftarrow> dictScan_loop t1 (sizemask t0) (sizemask t1) v;
        Some (v', c @ es)
      })"

text \<open>An iteration: one call per state of the table, each with the cursor of the call before.\<close>

fun scan_run :: "('k, 'v) dict list \<Rightarrow> u64 \<Rightarrow> (u64 \<times> ('k, 'v) dictEntry list) option" where
  "scan_run [] v = Some (v, [])"
| "scan_run (d # ds) v = do { (v', es) \<leftarrow> dictScan d v; (v'', es') \<leftarrow> scan_run ds v'; Some (v'', es @ es') }"

lemma rank_and_mask:
  assumes "n \<le> 64"
  shows "rank (v AND Bit_Operations.mask n) = rank v div 2 ^ (64 - n) * 2 ^ (64 - n)"
proof -
  have "rev_cursor (v AND Bit_Operations.mask n) = push_bit (64 - n) (drop_bit (64 - n) (rev_cursor v))"
    using assms by (intro bit_word_eqI) (auto simp: bit_rev_cursor bit_simps)
  also have "\<dots> = of_nat (rank v div 2 ^ (64 - n) * 2 ^ (64 - n))"
    unfolding rank_def unat_drop_bit [symmetric] by (simp add: push_bit_eq_mult)
  finally have "rank (v AND Bit_Operations.mask n) = (rank v div 2 ^ (64 - n) * 2 ^ (64 - n)) mod 2 ^ 64"
    unfolding rank_def by (simp only: unat_of_nat) simp
  moreover have "rank v div 2 ^ (64 - n) * 2 ^ (64 - n) < 2 ^ 64"
    using rank_bound [of v] by (meson div_times_less_eq_dividend le_less_trans)
  ultimately show ?thesis by simp
qed

lemma mask_diff_zero_iff:
  assumes "n0 \<le> n1" "n1 \<le> 64"
  shows "v AND (Bit_Operations.mask n0 XOR Bit_Operations.mask n1) = 0 \<longleftrightarrow>
    (rank v div 2 ^ (64 - n1)) mod 2 ^ (n1 - n0) = 0"
proof -
  have "v AND (Bit_Operations.mask n0 XOR Bit_Operations.mask n1) = 0 \<longleftrightarrow>
      v AND Bit_Operations.mask n1 = (v AND Bit_Operations.mask n0) AND Bit_Operations.mask n1"
    using assms by (auto simp: bit_eq_iff bit_simps)
  also have "\<dots> \<longleftrightarrow> rank v div 2 ^ (64 - n1) = rank v div 2 ^ (64 - n0) * 2 ^ (64 - n0) div 2 ^ (64 - n1)"
    using same_bucket_rank [OF assms(2)] rank_and_mask [of n0 v] assms by simp
  also have "2 ^ (64 - n0) = (2::nat) ^ (64 - n1) * 2 ^ (n1 - n0)"
    using assms by (simp flip: power_add)
  also have "rank v div (2 ^ (64 - n1) * 2 ^ (n1 - n0)) * (2 ^ (64 - n1) * 2 ^ (n1 - n0)) div 2 ^ (64 - n1) =
      rank v div 2 ^ (64 - n1) div 2 ^ (n1 - n0) * 2 ^ (n1 - n0)"
    by (simp add: div_mult2_eq)
  also have "rank v div 2 ^ (64 - n1) = rank v div 2 ^ (64 - n1) div 2 ^ (n1 - n0) * 2 ^ (n1 - n0) \<longleftrightarrow>
      (rank v div 2 ^ (64 - n1)) mod 2 ^ (n1 - n0) = 0"
    by (metis add.right_neutral add_cancel_right_right div_mult_mod_eq)
  finally show ?thesis .
qed


lemma rank_next':
  assumes "n \<le> 64"
  shows "rank (next_cursor (Bit_Operations.mask n) v) = (if rank v div 2 ^ (64 - n) + 1 = 2 ^ n then 0
    else (rank v div 2 ^ (64 - n) + 1) * 2 ^ (64 - n))"
    "rank v div 2 ^ (64 - n) + 1 \<le> 2 ^ n"
proof -
  let ?q = "rank v div 2 ^ (64 - n) + 1"
  have e: "(2::nat) ^ 64 = 2 ^ n * 2 ^ (64 - n)" using assms by (simp flip: power_add)
  have "rank v div 2 ^ (64 - n) < 2 ^ n"
    using rank_bound [of v] unfolding e by (simp add: less_mult_imp_div_less)
  then show b: "?q \<le> 2 ^ n" by simp
  show "rank (next_cursor (Bit_Operations.mask n) v) = (if ?q = 2 ^ n then 0 else ?q * 2 ^ (64 - n))"
  proof (cases "?q = 2 ^ n")
    case True
    then show ?thesis using rank_next [OF assms, of v] unfolding e by simp
  next
    case False
    then have "?q < 2 ^ n" using b by linarith
    then have "?q * 2 ^ (64 - n) < 2 ^ n * 2 ^ (64 - n)" by (rule mult_strict_right_mono) simp
    then show ?thesis using rank_next [OF assms, of v] False unfolding e by simp
  qed
qed

lemma mod_span: "q \<le> N \<Longrightarrow> 0 < S \<Longrightarrow> (q * S) mod (N * S) = (if q = N then 0 else q * S)" for q N S :: nat
  by simp

lemma scan_loop_correct:
  fixes t1 :: "('k, 'v) dictht"
  assumes n: "n0 \<le> n1" "n1 < 64" and len: "length (table t1) = 2 ^ n1"
  defines "S1 \<equiv> 2 ^ (64 - n1)" and "S0 \<equiv> 2 ^ (64 - n0)"
  shows "\<exists>v' es. dictScan_loop t1 (Bit_Operations.mask n0) (Bit_Operations.mask n1) v = Some (v', es) \<and>
    rank v' = ((rank v div S0 + 1) * S0) mod 2 ^ 64 \<and>
    (\<forall>h. rank v div S1 * S1 \<le> rank h \<and> rank h < (rank v div S0 + 1) * S0 \<longrightarrow>
      set (table t1 ! unat (h AND Bit_Operations.mask n1)) \<subseteq> set es) \<and>
    set es \<subseteq> set (concat (table t1))"
proof (induction "2 ^ n1 - rank v div S1" arbitrary: v rule: less_induct)
  case less
  define K where "K = (2::nat) ^ (n1 - n0)"
  define q where "q = rank v div S1"
  let ?v = "next_cursor (Bit_Operations.mask n1) v"
  let ?c = "table t1 ! unat (v AND Bit_Operations.mask n1)"
  have K: "0 < K" "S0 = S1 * K" using n unfolding K_def S0_def S1_def by (simp_all flip: power_add)
  have S1: "0 < S1" by (simp add: S1_def)
  have e64: "(2::nat) ^ 64 = 2 ^ n1 * S1" using n unfolding S1_def by (simp flip: power_add)
  have KN: "K dvd 2 ^ n1" using n unfolding K_def by (simp add: le_imp_power_dvd)
  have q0: "rank v div S0 = q div K" unfolding q_def K(2) by (simp add: div_mult2_eq)
  have qb: "q + 1 \<le> 2 ^ n1"
    using rank_next' (2) [of n1 v] n by (simp add: q_def S1_def)
  have rv: "rank ?v = (if q + 1 = 2 ^ n1 then 0 else (q + 1) * S1)"
    using rank_next' (1) [of n1 v] n by (simp add: q_def S1_def)
  have cont: "?v AND (Bit_Operations.mask n0 XOR Bit_Operations.mask n1) = 0 \<longleftrightarrow> (q + 1) mod K = 0"
    using mask_diff_zero_iff [of n0 n1 ?v] n rv S1 KN by (simp add: K_def S1_def)
  have idx: "unat (w AND Bit_Operations.mask n1) < length (table t1)" for w :: u64
    unfolding len take_bit_eq_mask [symmetric] by (simp add: unsigned_take_bit_eq)
  have here: "set (table t1 ! unat (h AND Bit_Operations.mask n1)) \<subseteq> set ?c"
    if "q * S1 \<le> rank h" "rank h < (q + 1) * S1" for h
  proof -
    have "rank h div S1 = q" using that S1
      by (metis Suc_eq_plus1 div_nat_eqI mult.commute)
    then have "h AND Bit_Operations.mask n1 = v AND Bit_Operations.mask n1"
      using same_bucket_rank [of n1 h v] n by (simp add: q_def S1_def)
    then show ?thesis by simp
  qed
  have sub: "set ?c \<subseteq> set (concat (table t1))"
    using nth_mem [OF idx [of v]] by auto
  have unf: "dictScan_loop t1 (Bit_Operations.mask n0) (Bit_Operations.mask n1) v =
    (if ?v AND (Bit_Operations.mask n0 XOR Bit_Operations.mask n1) \<noteq> 0
     then do { (v'', es) \<leftarrow> dictScan_loop t1 (Bit_Operations.mask n0) (Bit_Operations.mask n1) ?v; Some (v'', ?c @ es) }
     else Some (?v, ?c))"
    by (subst dictScan_loop.simps) (simp add: idx Let_def)
  show ?case
  proof (cases "(q + 1) mod K = 0")
    case True
    then have "(q div K + 1) * K = q + 1" using K(1)
      by (metis Suc_eq_plus1 div_Suc mod_0_imp_dvd dvd_div_mult_self)
    then have top: "(q div K + 1) * S0 = (q + 1) * S1" by (metis K(2) mult.assoc mult.commute)
    have "rank ?v = ((q div K + 1) * S0) mod 2 ^ 64"
      unfolding top e64 rv mod_span [OF qb S1] ..
    then show ?thesis
      unfolding unf q0 top using here cont True sub by (auto simp: q_def)
  next
    case False
    then have ne: "q + 1 \<noteq> 2 ^ n1" using KN by (metis dvd_imp_mod_0)
    have d: "(q + 1) div K = q div K" using False K(1)
      by (metis Suc_eq_plus1 div_Suc)
    have rv': "rank ?v = (q + 1) * S1" using rv ne by simp
    have rd: "rank ?v div S1 = q + 1" using rv' S1 by simp
    have rd0: "rank ?v div S0 = q div K" using rd d K(2) by (metis div_mult2_eq)
    have "2 ^ n1 - rank ?v div S1 < 2 ^ n1 - rank v div S1" using rd qb ne by (simp add: q_def)
    from less [OF this] obtain v' es where l: "dictScan_loop t1 (Bit_Operations.mask n0) (Bit_Operations.mask n1) ?v = Some (v', es)"
      "rank v' = ((rank ?v div S0 + 1) * S0) mod 2 ^ 64"
      "\<forall>h. rank ?v div S1 * S1 \<le> rank h \<and> rank h < (rank ?v div S0 + 1) * S0 \<longrightarrow>
        set (table t1 ! unat (h AND Bit_Operations.mask n1)) \<subseteq> set es"
      "set es \<subseteq> set (concat (table t1))" by blast
    show ?thesis
    proof (intro exI conjI allI impI)
      show "dictScan_loop t1 (Bit_Operations.mask n0) (Bit_Operations.mask n1) v = Some (v', ?c @ es)"
        unfolding unf using cont False l(1) by simp
      show "rank v' = ((rank v div S0 + 1) * S0) mod 2 ^ 64" using l(2) rd0 q0 by simp
      show "set (?c @ es) \<subseteq> set (concat (table t1))" using sub l(4) by simp
      fix h assume h: "rank v div S1 * S1 \<le> rank h \<and> rank h < (rank v div S0 + 1) * S0"
      show "set (table t1 ! unat (h AND Bit_Operations.mask n1)) \<subseteq> set (?c @ es)"
      proof (cases "rank h < (q + 1) * S1")
        case True
        then show ?thesis using here h by (auto simp: q_def)
      next
        case False
        then have "rank ?v div S1 * S1 \<le> rank h" "rank h < (rank ?v div S0 + 1) * S0"
          using h rd rd0 q0 by simp_all
        then show ?thesis using l(3) by auto
      qed
    qed
  qed
qed


text \<open>One call: the cursor advances to a rank \<open>B\<close> and everything in between is emitted.\<close>

definition covers :: "('k, 'v) dict \<Rightarrow> u64 \<Rightarrow> nat \<Rightarrow> ('k, 'v) dictEntry list \<Rightarrow> bool" where
  "covers d v B es \<longleftrightarrow> rank v < B \<and> B \<le> 2 ^ 64 \<and> set es \<subseteq> set (dict_entries d) \<and>
     (\<forall>e \<in> set (dict_entries d). rank v \<le> rank (dictHashKey d (de_key e)) \<and> rank (dictHashKey d (de_key e)) < B \<longrightarrow> e \<in> set es)"

lemma span:
  assumes "n \<le> 64"
  defines "S \<equiv> 2 ^ (64 - n)"
  shows "rank v div S * S \<le> rank v" "rank v < (rank v div S + 1) * S" "(rank v div S + 1) * S \<le> 2 ^ 64"
proof -
  have S: "0 < S" by (simp add: S_def)
  show "rank v div S * S \<le> rank v" by simp
  show "rank v < (rank v div S + 1) * S"
    using S dividend_less_div_times [of S "rank v"] by simp
  have "(rank v div S + 1) * S \<le> 2 ^ n * S"
    using rank_next' (2) [OF assms(1), of v] by (simp add: S_def del: mult_Suc)
  also have "\<dots> = 2 ^ 64" using assms(1) by (simp add: S_def flip: power_add)
  finally show "(rank v div S + 1) * S \<le> 2 ^ 64" .
qed

lemma same_span: "r \<le> x \<Longrightarrow> x < (r div S + 1) * S \<Longrightarrow> x div S = r div S" for r x S :: nat
  by (metis Suc_eq_plus1 div_le_mono le_antisym less_Suc_eq_le less_mult_imp_div_less)

lemma bucket_of_entry:
  assumes "ht_inv t h" "e \<in> set (concat (table h))"
  shows "e \<in> set (table h ! unat (hashFunction t (de_key e) AND sizemask h))"
proof -
  obtain i where i: "i < length (table h)" "e \<in> set (table h ! i)"
    using assms(2) by (auto simp: in_set_conv_nth) (metis nth_mem)
  then have "bucket t h (de_key e) = i" using assms(1) by (auto simp: ht_inv_def placed_def split: if_splits)
  then show ?thesis using i by (simp add: bucket_def)
qed

lemma scan_call:
  assumes inv: "dict_inv d"
  shows "\<exists>v' es n. dictScan d v = Some (v', es) \<and> n < 64 \<and> (dictSize d = 0 \<and> n = 0 \<or> 2 ^ n \<le> size (ht0 d)) \<and>
    rank v' = (rank v div 2 ^ (64 - n) + 1) * 2 ^ (64 - n) mod 2 ^ 64 \<and>
    covers d v ((rank v div 2 ^ (64 - n) + 1) * 2 ^ (64 - n)) es"
proof -
  have inv0: "ht_inv (d_type d) (ht0 d)" and inv1: "ht_inv (d_type d) (ht1 d)" using inv by (simp_all add: dict_inv_def)
  show ?thesis
  proof (cases "dictSize d = 0")
    case True
    then have "dict_entries d = []" using size_entries [OF inv] by simp
    then show ?thesis
      using True rank_bound [of v] by (intro exI [of _ 0] exI [of _ "[]"]) (simp add: dictScan_def covers_def)
  next
    case False
    then have "dict_entries d \<noteq> []" using size_entries [OF inv] by auto
    then have ne0: "table (ht0 d) \<noteq> []" using inv by (auto simp: dict_inv_def dict_entries_def split: if_splits)
    obtain n0 where n0: "n0 < 64" "size (ht0 d) = 2 ^ n0" "length (table (ht0 d)) = 2 ^ n0" "sizemask (ht0 d) = Bit_Operations.mask n0"
      using ht_inv_shape [OF inv0 ne0] by (auto simp: ht_shape_def)
    have idx: "unat (w AND Bit_Operations.mask n) < 2 ^ n" for w :: u64 and n
      unfolding take_bit_eq_mask [symmetric] by (simp add: unsigned_take_bit_eq)
    show ?thesis
    proof (cases "dictIsRehashing d")
      case False
      let ?c = "table (ht0 d) ! unat (v AND Bit_Operations.mask n0)"
      let ?S = "2 ^ (64 - n0)"
      have e1: "dict_entries d = concat (table (ht0 d))"
        using inv False by (simp add: dict_inv_def dictIsRehashing_def dict_entries_def)
      have "dictScan d v = Some (next_cursor (Bit_Operations.mask n0) v, ?c)"
        using \<open>dictSize d \<noteq> 0\<close> False idx [of v n0] by (simp add: dictScan_def n0 Let_def)
      moreover have "covers d v ((rank v div ?S + 1) * ?S) ?c"
        unfolding covers_def
      proof (intro conjI ballI impI)
        have "?c \<in> set (table (ht0 d))" using idx [of v n0] n0(3) by simp
        then show "set ?c \<subseteq> set (dict_entries d)" by (auto simp: e1)
        fix e assume e: "e \<in> set (dict_entries d)"
          "rank v \<le> rank (dictHashKey d (de_key e)) \<and> rank (dictHashKey d (de_key e)) < (rank v div ?S + 1) * ?S"
        let ?h = "dictHashKey d (de_key e)"
        have "rank ?h div ?S = rank v div ?S" using e(2) same_span by blast
        then have "?h AND Bit_Operations.mask n0 = v AND Bit_Operations.mask n0"
          using same_bucket_rank [of n0 ?h v] n0(1) by simp
        then show "e \<in> set ?c"
          using bucket_of_entry [OF inv0 e(1) [unfolded e1]] n0(4) by (simp add: dictHashKey_def)
      qed (use span [of n0 v] n0(1) in simp_all)
      ultimately show ?thesis using rank_next [of n0 v] n0 by auto
    next
      case True
      have ne1: "table (ht1 d) \<noteq> []" using inv True by (simp add: dict_inv_def dictIsRehashing_def)
      obtain n1 where n1: "n1 < 64" "size (ht1 d) = 2 ^ n1" "length (table (ht1 d)) = 2 ^ n1" "sizemask (ht1 d) = Bit_Operations.mask n1"
        using ht_inv_shape [OF inv1 ne1] by (auto simp: ht_shape_def)
      define t0 where "t0 = (if size (ht0 d) > size (ht1 d) then ht1 d else ht0 d)"
      define t1 where "t1 = (if size (ht0 d) > size (ht1 d) then ht0 d else ht1 d)"
      define a where "a = min n0 n1" define b where "b = max n0 n1"
      have t: "sizemask t0 = Bit_Operations.mask a" "length (table t0) = 2 ^ a" "sizemask t1 = Bit_Operations.mask b"
        "length (table t1) = 2 ^ b" "a \<le> b" "b < 64" "ht_inv (d_type d) t0" "ht_inv (d_type d) t1"
        "set (dict_entries d) = set (concat (table t0)) \<union> set (concat (table t1))" "2 ^ a \<le> size (ht0 d)"
        using n0 n1 inv0 inv1 by (auto simp: t0_def t1_def a_def b_def dict_entries_def min_def max_def)
      let ?c = "table t0 ! unat (v AND Bit_Operations.mask a)" and ?S = "2 ^ (64 - a)"
      obtain v' es where l: "dictScan_loop t1 (Bit_Operations.mask a) (Bit_Operations.mask b) v = Some (v', es)"
        "rank v' = ((rank v div ?S + 1) * ?S) mod 2 ^ 64"
        "\<forall>h. rank v div 2 ^ (64 - b) * 2 ^ (64 - b) \<le> rank h \<and> rank h < (rank v div ?S + 1) * ?S \<longrightarrow>
          set (table t1 ! unat (h AND Bit_Operations.mask b)) \<subseteq> set es"
        "set es \<subseteq> set (concat (table t1))"
        using scan_loop_correct [OF t(5,6,4), of v] by blast
      have "dictScan d v = Some (v', ?c @ es)"
        using \<open>dictSize d \<noteq> 0\<close> True idx [of v a] l(1) t(1-4)
        by (auto simp: dictScan_def Let_def t0_def t1_def split: if_splits)
      moreover have "covers d v ((rank v div ?S + 1) * ?S) (?c @ es)"
        unfolding covers_def
      proof (intro conjI ballI impI)
        have "?c \<in> set (table t0)" using idx [of v a] t(2) by simp
        then show "set (?c @ es) \<subseteq> set (dict_entries d)" using l(4) by (auto simp: t(9))
        fix e assume e: "e \<in> set (dict_entries d)"
          "rank v \<le> rank (dictHashKey d (de_key e)) \<and> rank (dictHashKey d (de_key e)) < (rank v div ?S + 1) * ?S"
        let ?h = "dictHashKey d (de_key e)"
        consider "e \<in> set (concat (table t0))" | "e \<in> set (concat (table t1))" using e(1) t(9) by blast
        then show "e \<in> set (?c @ es)"
        proof cases
          case 1
          have "rank ?h div ?S = rank v div ?S" using e(2) same_span by blast
          then have "?h AND Bit_Operations.mask a = v AND Bit_Operations.mask a"
            using same_bucket_rank [of a ?h v] t(5,6) by simp
          then show ?thesis
            using bucket_of_entry [OF t(7) 1] t(1) by (simp add: dictHashKey_def)
        next
          case 2
          have "rank v div 2 ^ (64 - b) * 2 ^ (64 - b) \<le> rank ?h"
            using e(2) div_times_less_eq_dividend [of "rank v" "2 ^ (64 - b)"] by linarith
          then have "set (table t1 ! unat (?h AND Bit_Operations.mask b)) \<subseteq> set es" using l(3) e(2) by blast
          then show ?thesis
            using bucket_of_entry [OF t(8) 2] t(3) by (auto simp: dictHashKey_def)
        qed
      qed (use span [of a v] t(5,6) in simp_all)
      ultimately show ?thesis using l(2) t(5,6,10) \<open>dictSize d \<noteq> 0\<close>
        by (intro exI [of _ v'] exI [of _ "?c @ es"] exI [of _ a]) simp
    qed
  qed
qed


section \<open>A whole iteration\<close>

lemma scan_run_total:
  "(\<And>d. d \<in> set ds \<Longrightarrow> dict_inv d) \<Longrightarrow> \<exists>v' es. scan_run ds v = Some (v', es)"
proof (induction ds arbitrary: v)
  case Nil
  then show ?case by simp
next
  case (Cons d ds)
  obtain v1 es1 where "dictScan d v = Some (v1, es1)" using scan_call [of d v] Cons.prems by auto
  moreover obtain v2 es2 where "scan_run ds v1 = Some (v2, es2)" using Cons by fastforce
  ultimately show ?case by simp
qed

lemma scan_run_covers:
  assumes "scan_run ds v = Some (0, es)" "ds \<noteq> []"
    "\<And>d. d \<in> set ds \<Longrightarrow> dict_inv d \<and> (\<exists>e \<in> set (dict_entries d). de_key e = k \<and> dictHashKey d k = h)"
    "rank v \<le> rank h"
  shows "k \<in> de_key ` set es"
  using assms
proof (induction ds arbitrary: v es)
  case Nil
  then show ?case by simp
next
  case (Cons d ds)
  obtain v1 es1 n where c: "dictScan d v = Some (v1, es1)"
    and r: "rank v1 = (rank v div 2 ^ (64 - n) + 1) * 2 ^ (64 - n) mod 2 ^ 64"
    and cov: "covers d v ((rank v div 2 ^ (64 - n) + 1) * 2 ^ (64 - n)) es1"
    using scan_call [of d v] Cons.prems(3) by auto
  obtain es2 where es: "scan_run ds v1 = Some (0, es2)" "es = es1 @ es2"
    using Cons.prems(1) c by (auto split: Option.bind_splits)
  obtain e where e: "e \<in> set (dict_entries d)" "de_key e = k" "dictHashKey d k = h" using Cons.prems(3) by auto
  define B where "B = (rank v div 2 ^ (64 - n) + 1) * 2 ^ (64 - n)"
  show ?case
  proof (cases "rank h < B")
    case True
    then have "e \<in> set es1" using cov e Cons.prems(4) by (auto simp: covers_def B_def)
    then show ?thesis using e es by force
  next
    case False
    then have "B < 2 ^ 64" using rank_bound [of h] by simp
    then have v1: "rank v1 = B" using r by (simp add: B_def)
    moreover have "0 < B" using cov by (simp add: covers_def B_def)
    ultimately have "v1 \<noteq> 0" by auto
    then have "ds \<noteq> []" using es(1) by auto
    then have "k \<in> de_key ` set es2"
      using Cons.IH [OF es(1)] Cons.prems(3) v1 False by simp
    then show ?thesis using es by auto
  qed
qed

text \<open>
  Property C8. A scan that starts with cursor 0 and continues until the cursor is 0 again reports
  every key that is in the table during the whole scan, whatever happens to the table between
  the calls: insertions, deletions, resizes to any size, and rehashing steps. No call
  reads out of the tables.
\<close>

theorem dictScan_complete:
  fixes ds :: "('k, 'v) dict list"
  assumes "ds \<noteq> []" "\<And>d. d \<in> set ds \<Longrightarrow> dict_inv d \<and> k \<in> de_key ` set (dict_entries d) \<and> hashFunction (d_type d) = hf"
  shows "\<exists>v es. scan_run ds 0 = Some (v, es) \<and> (v = 0 \<longrightarrow> k \<in> de_key ` set es)"
proof -
  obtain v es where "scan_run ds 0 = Some (v, es)" using scan_run_total assms(2) by metis
  moreover have "k \<in> de_key ` set es" if "scan_run ds 0 = Some (0, es)"
    by (rule scan_run_covers [OF that assms(1), of _ "hf k"]) (use assms(2) in \<open>auto simp: dictHashKey_def\<close>)
  ultimately show ?thesis by auto
qed

lemma dvd_step: "a < b \<Longrightarrow> S dvd a \<Longrightarrow> S dvd b \<Longrightarrow> a + S \<le> b" for a b S :: nat
  by (metis Suc_leI add.commute dvdE mult_Suc_right mult_le_mono2 mult_less_cancel1)

lemma scan_run_progress:
  assumes "\<And>d. d \<in> set ds \<Longrightarrow> dict_inv d \<and> size (ht0 d) \<le> 2 ^ n" "n \<le> 64"
    "\<And>m. 0 < m \<Longrightarrow> m \<le> length ds \<Longrightarrow> \<nexists>es. scan_run (take m ds) v = Some (0, es)"
    "2 ^ (64 - n) dvd rank v"
  shows "\<exists>v' es. scan_run ds v = Some (v', es) \<and> rank v + length ds * 2 ^ (64 - n) \<le> rank v'"
  using assms
proof (induction ds arbitrary: v)
  case Nil
  then show ?case by simp
next
  case (Cons d ds)
  let ?S = "2 ^ (64 - n)"
  obtain v1 es1 k where c: "dictScan d v = Some (v1, es1)" and k: "k < 64" "dictSize d = 0 \<and> k = 0 \<or> 2 ^ k \<le> size (ht0 d)"
    and r: "rank v1 = (rank v div 2 ^ (64 - k) + 1) * 2 ^ (64 - k) mod 2 ^ 64"
    and cov: "covers d v ((rank v div 2 ^ (64 - k) + 1) * 2 ^ (64 - k)) es1"
    using scan_call [of d v] Cons.prems(1) by auto
  define B where "B = (rank v div 2 ^ (64 - k) + 1) * 2 ^ (64 - k)"
  have "k \<le> n"
  proof (cases "k = 0")
    case False
    then have "2 ^ k \<le> size (ht0 d)" "size (ht0 d) \<le> 2 ^ n" using k(2) Cons.prems(1) [of d] by simp_all
    then have "2 ^ k \<le> (2::nat) ^ n" by (rule le_trans)
    then show ?thesis by (rule power_le_imp_le_exp [rotated]) simp
  qed simp
  then have "?S dvd (2 ^ (64 - k) :: nat)" using Cons.prems(2) by (simp add: le_imp_power_dvd)
  then have dB: "?S dvd B" by (simp add: B_def)
  have "scan_run (take 1 (d # ds)) v = Some (v1, es1)" by (simp add: c)
  then have "v1 \<noteq> 0" using Cons.prems(3) [of 1] by auto
  then have "B \<noteq> 2 ^ 64" using r by (auto simp: B_def rank_0_iff)
  then have v1: "rank v1 = B" using r cov by (simp add: B_def covers_def)
  have "rank v < B" using cov by (simp add: covers_def B_def)
  then have step: "rank v + ?S \<le> rank v1"
    using dvd_step [OF _ Cons.prems(4) dB] v1 by simp
  have "\<nexists>es. scan_run (take m ds) v1 = Some (0, es)" if "0 < m" "m \<le> length ds" for m
    using Cons.prems(3) [of "Suc m"] that by (auto simp: c)
  then obtain v2 es2 where "scan_run ds v1 = Some (v2, es2)" "rank v1 + length ds * ?S \<le> rank v2"
    using Cons.IH [of v1] Cons.prems(1,2) dB v1 by auto
  then show ?case using step by (simp add: c)
qed

text \<open>
  Property C20. A scan ends: when the tables of \<open>ht[0]\<close> have at most \<open>2 ^ n\<close> buckets during
  the scan, the cursor comes back to 0 after at most \<open>2 ^ n\<close> calls.
\<close>

theorem dictScan_ends:
  fixes ds :: "('k, 'v) dict list"
  assumes "\<And>d. d \<in> set ds \<Longrightarrow> dict_inv d \<and> size (ht0 d) \<le> 2 ^ n" "n < 64" "2 ^ n \<le> length ds"
  shows "\<exists>m es. 0 < m \<and> m \<le> 2 ^ n \<and> scan_run (take m ds) 0 = Some (0, es)"
proof (rule ccontr)
  assume no: "\<nexists>m es. 0 < m \<and> m \<le> 2 ^ n \<and> scan_run (take m ds) 0 = Some (0, es)"
  let ?ds = "take (2 ^ n) ds"
  have len: "length ?ds = 2 ^ n" using assms(3) by simp
  have n: "n \<le> 64" using assms(2) by simp
  have "\<exists>v' es. scan_run ?ds 0 = Some (v', es) \<and> rank 0 + length ?ds * 2 ^ (64 - n) \<le> rank v'"
    by (rule scan_run_progress [OF _ n])
      (use assms(1) no len in \<open>auto dest: in_set_takeD simp: min_absorb1\<close>)
  then obtain v' where "2 ^ n * 2 ^ (64 - n) \<le> rank v'" using len by auto
  then show False using rank_bound [of v'] n by (simp flip: power_add)
qed

theorem dictScan_complete_witness:
  "\<exists>v es. scan_run [mid_rehash, mid_rehash, mid_rehash, mid_rehash] 0 = Some (v, es) \<and> (v = 0 \<longrightarrow> 6 \<in> de_key ` set es)"
  by (rule dictScan_complete [of _ 6 of_nat])
    (simp, use mid_rehash_inv in \<open>auto simp: mid_rehash_def dict_entries_def nat_type_def\<close>)

theorem dictScan_ends_witness:
  "\<exists>m es. 0 < m \<and> m \<le> 2 ^ 2 \<and> scan_run (take m [mid_rehash, mid_rehash, mid_rehash, mid_rehash]) 0 = Some (0, es)"
  by (rule dictScan_ends) (use mid_rehash_inv in \<open>auto simp: mid_rehash_def\<close>)

end
