(* ===== verification/Dict_Iter.thy ===== *)
theory Dict_Iter
  imports Dict
begin

text \<open>
  The iterators of \<^verbatim>\<open>dict.c\<close>, safe and unsafe, with the fingerprint that an unsafe iterator
  checks when it is released.
\<close>

section \<open>Iterators\<close>

text \<open>\<open>it_entry\<close> and \<open>it_next\<close> are the rests of the chain from the entry pointers on; \<open>[]\<close> is null.\<close>

record ('k, 'v) dictIterator =
  it_table :: nat
  it_index :: int
  it_safe :: bool
  it_entry :: "('k, 'v) chain"
  it_next :: "('k, 'v) chain"
  it_fingerprint :: u64

text \<open>\<open>a0\<close> and \<open>a1\<close> are the addresses of the two bucket arrays.\<close>

definition fp_mix :: "u64 \<Rightarrow> u64 \<Rightarrow> u64" where
  "fp_mix hash0 n =
     (let hash = hash0 + n;
          hash = NOT hash + push_bit 21 hash;
          hash = hash XOR signed_drop_bit 24 hash;
          hash = (hash + push_bit 3 hash) + push_bit 8 hash;
          hash = hash XOR signed_drop_bit 14 hash;
          hash = (hash + push_bit 2 hash) + push_bit 4 hash;
          hash = hash XOR signed_drop_bit 28 hash
      in hash + push_bit 31 hash)"

definition dictFingerprint :: "u64 \<Rightarrow> u64 \<Rightarrow> ('k, 'v) dict \<Rightarrow> u64" where
  "dictFingerprint a0 a1 d =
     foldl fp_mix 0 [a0, of_nat (size (ht0 d)), of_nat (used (ht0 d)), a1, of_nat (size (ht1 d)), of_nat (used (ht1 d))]"

definition dictGetIterator :: "unit \<Rightarrow> ('k, 'v) dictIterator" where
  "dictGetIterator u =
     \<lparr>it_table = 0, it_index = - 1, it_safe = False, it_entry = [], it_next = [], it_fingerprint = 0\<rparr>"

definition dictGetSafeIterator :: "unit \<Rightarrow> ('k, 'v) dictIterator" where
  "dictGetSafeIterator u = (dictGetIterator ())\<lparr>it_safe := True\<rparr>"

partial_function (option) dictNext :: "u64 \<Rightarrow> u64 \<Rightarrow> ('k, 'v) dict \<Rightarrow> ('k, 'v) dictIterator \<Rightarrow>
    (('k, 'v) dict \<times> ('k, 'v) dictIterator \<times> ('k, 'v) dictEntry option) option" where
  "dictNext a0 a1 d it =
     (if it_entry it = [] then do {
        let first = (it_index it = - 1 \<and> it_table it = 0);
        let d1 = (if first \<and> it_safe it then d\<lparr>iterators := iterators d + 1\<rparr> else d);
        let it1 = (if first \<and> \<not> it_safe it then it\<lparr>it_fingerprint := dictFingerprint a0 a1 d\<rparr> else it);
        let it2 = it1\<lparr>it_index := it_index it1 + 1\<rparr>;
        let ht = (if it_table it2 = 0 then ht0 d1 else ht1 d1);
        if it_index it2 \<ge> int (size ht) then
          if dictIsRehashing d1 \<and> it_table it2 = 0 then do {
            c \<leftarrow> nth_opt (table (ht1 d1)) 0;
            let it3 = it2\<lparr>it_table := it_table it2 + 1, it_index := 0, it_entry := c\<rparr>;
            if c \<noteq> [] then Some (d1, it3\<lparr>it_next := tl c\<rparr>, Some (hd c)) else dictNext a0 a1 d1 it3
          }
          else Some (d1, it2, None)
        else do {
          c \<leftarrow> nth_opt (table ht) (nat (it_index it2));
          let it3 = it2\<lparr>it_entry := c\<rparr>;
          if c \<noteq> [] then Some (d1, it3\<lparr>it_next := tl c\<rparr>, Some (hd c)) else dictNext a0 a1 d1 it3
        }
      }
      else do {
        let c = it_next it;
        let it3 = it\<lparr>it_entry := c\<rparr>;
        if c \<noteq> [] then Some (d, it3\<lparr>it_next := tl c\<rparr>, Some (hd c)) else dictNext a0 a1 d it3
      })"

declare dictNext.simps [code]

text \<open>\<^term>\<open>None\<close> is the failed assertion.\<close>

definition dictReleaseIterator :: "u64 \<Rightarrow> u64 \<Rightarrow> ('k, 'v) dict \<Rightarrow> ('k, 'v) dictIterator \<Rightarrow> ('k, 'v) dict option" where
  "dictReleaseIterator a0 a1 d it =
     (if \<not> (it_index it = - 1 \<and> it_table it = 0) then
        if it_safe it then Some (d\<lparr>iterators := iterators d - 1\<rparr>)
        else if it_fingerprint it = dictFingerprint a0 a1 d then Some d else None
      else Some d)"

text \<open>The usual loop of a caller, \<open>while ((de = dictNext(di)) != NULL) ...\<close>.\<close>

partial_function (option) iter_all :: "u64 \<Rightarrow> u64 \<Rightarrow> ('k, 'v) dict \<Rightarrow> ('k, 'v) dictIterator \<Rightarrow>
    (('k, 'v) dict \<times> ('k, 'v) dictIterator \<times> ('k, 'v) dictEntry list) option" where
  "iter_all a0 a1 d it =
     do {
       (d1, it1, r) \<leftarrow> dictNext a0 a1 d it;
       case r of None \<Rightarrow> Some (d1, it1, [])
       | Some e \<Rightarrow> do { (d2, it2, es) \<leftarrow> iter_all a0 a1 d1 it1; Some (d2, it2, e # es) }
     }"

declare iter_all.simps [code]

text \<open>What is still to come from a position of the iterator.\<close>

definition iter_rest :: "('k, 'v) dict \<Rightarrow> nat \<Rightarrow> int \<Rightarrow> ('k, 'v) dictEntry list" where
  "iter_rest d t i = (if t = 0 then concat (drop (nat (i + 1)) (table (ht0 d))) @ concat (table (ht1 d))
     else concat (drop (nat (i + 1)) (table (ht1 d))))"

definition iter_start :: "('k, 'v) dict \<Rightarrow> ('k, 'v) dictIterator \<Rightarrow> ('k, 'v) dict" where
  "iter_start d it = (if it_index it = - 1 \<and> it_table it = 0 \<and> it_safe it then d\<lparr>iterators := iterators d + 1\<rparr> else d)"

definition iter_fp :: "u64 \<Rightarrow> u64 \<Rightarrow> ('k, 'v) dict \<Rightarrow> ('k, 'v) dictIterator \<Rightarrow> u64" where
  "iter_fp a0 a1 d it = (if it_index it = - 1 \<and> it_table it = 0 \<and> \<not> it_safe it then dictFingerprint a0 a1 d
     else it_fingerprint it)"

definition iter_pos :: "('k, 'v) dict \<Rightarrow> ('k, 'v) dictIterator \<Rightarrow> bool" where
  "iter_pos d it \<longleftrightarrow> (it_table it = 0 \<or> it_table it = 1 \<and> dictIsRehashing d) \<and> it_index it \<ge> - 1 \<and>
     it_index it \<le> int (length (table (if it_table it = 0 then ht0 d else ht1 d)))"

lemma shape_size:
  "dict_inv d \<Longrightarrow> size (ht0 d) = length (table (ht0 d))" "dict_inv d \<Longrightarrow> size (ht1 d) = length (table (ht1 d))"
  by (auto simp: dict_inv_def ht_inv_def ht_shape_def split: if_splits)

definition next_post :: "u64 \<Rightarrow> u64 \<Rightarrow> ('k, 'v) dict \<Rightarrow> ('k, 'v) dictIterator \<Rightarrow> ('k, 'v) dictEntry list \<Rightarrow> bool" where
  "next_post a0 a1 d it rest \<longleftrightarrow>
     (\<exists>it' r. dictNext a0 a1 d it = Some (iter_start d it, it', r) \<and> it_safe it' = it_safe it \<and>
        it_fingerprint it' = iter_fp a0 a1 d it \<and> it_index it' \<ge> 0 \<and>
        (case rest of [] \<Rightarrow> r = None
         | x # xs \<Rightarrow> r = Some x \<and> iter_pos d it' \<and> it_entry it' \<noteq> [] \<and> xs = it_next it' @ iter_rest d (it_table it') (it_index it')))"

lemma start_simps [simp]:
  "ht0 (iter_start d it) = ht0 d" "ht1 (iter_start d it) = ht1 d" "dictIsRehashing (iter_start d it) = dictIsRehashing d"
  "iter_rest (iter_start d it) = iter_rest d" "iter_pos (iter_start d it) = iter_pos d"
  "dict_inv (iter_start d it) = dict_inv d"
  by (simp_all add: iter_start_def dictIsRehashing_def iter_rest_def iter_pos_def fun_eq_iff dict_inv_def dict_keys_def dict_entries_def)

lemma next_post_step:
  assumes "dictNext a0 a1 d it = dictNext a0 a1 (iter_start d it) it3" "it_index it3 \<ge> 0" "it_safe it3 = it_safe it"
    "it_fingerprint it3 = iter_fp a0 a1 d it" "next_post a0 a1 (iter_start d it) it3 rest"
  shows "next_post a0 a1 d it rest"
  using assms by (simp add: next_post_def iter_start_def [of "iter_start d it"] iter_fp_def [of _ _ _ it3] cong: list.case_cong)

lemma next_post_hit:
  assumes "dictNext a0 a1 d it = Some (iter_start d it, it3\<lparr>it_next := tl c\<rparr>, Some (hd c))" "it_index it3 \<ge> 0"
    "it_safe it3 = it_safe it" "it_fingerprint it3 = iter_fp a0 a1 d it" "it_entry it3 = c" "c \<noteq> []" "iter_pos d it3"
  shows "next_post a0 a1 d it (c @ iter_rest d (it_table it3) (it_index it3))"
  using assms by (cases c) (auto simp: next_post_def iter_pos_def)

lemma next_from:
  assumes inv: "dict_inv d" and pos: "iter_pos d it" and e: "it_entry it = []"
  shows "next_post a0 a1 d it (iter_rest d (it_table it) (it_index it))"
  using assms
proof (induction "length (table (ht0 d)) + length (table (ht1 d)) + 2 -
    (nat (it_index it + 1) + (if it_table it = 0 then 0 else length (table (ht0 d)) + 1))" arbitrary: d it rule: less_induct)
  case less
  define n where "n = nat (it_index it + 1)"
  let ?it = "it\<lparr>it_fingerprint := iter_fp a0 a1 d it\<rparr>"
  let ?d = "iter_start d it"
  have sz: "size (ht0 d) = length (table (ht0 d))" "size (ht1 d) = length (table (ht1 d))"
    using shape_size less.prems by auto
  have ix: "it_index it = int n - 1" using less.prems(2) by (simp add: iter_pos_def n_def)
  have d1: "(if (it_index it = - 1 \<and> it_table it = 0) \<and> it_safe it then d\<lparr>iterators := iterators d + 1\<rparr> else d) = ?d"
    by (simp add: iter_start_def)
  have it1: "(if (it_index it = - 1 \<and> it_table it = 0) \<and> \<not> it_safe it then it\<lparr>it_fingerprint := dictFingerprint a0 a1 d\<rparr> else it) = ?it"
    by (simp add: iter_fp_def)
  have unf: "dictNext a0 a1 d it =
     (if n \<ge> length (table (if it_table it = 0 then ht0 d else ht1 d)) then
        if dictIsRehashing d \<and> it_table it = 0 then do {
          c \<leftarrow> nth_opt (table (ht1 d)) 0;
          let it3 = ?it\<lparr>it_table := 1, it_index := 0, it_entry := c\<rparr>;
          if c \<noteq> [] then Some (?d, it3\<lparr>it_next := tl c\<rparr>, Some (hd c)) else dictNext a0 a1 ?d it3
        }
        else Some (?d, ?it\<lparr>it_index := int n\<rparr>, None)
      else do {
        c \<leftarrow> nth_opt (table (if it_table it = 0 then ht0 d else ht1 d)) n;
        let it3 = ?it\<lparr>it_index := int n, it_entry := c\<rparr>;
        if c \<noteq> [] then Some (?d, it3\<lparr>it_next := tl c\<rparr>, Some (hd c)) else dictNext a0 a1 ?d it3
      })"
    apply (subst dictNext.simps)
    apply (simp only: Let_def d1 it1 less.prems(3) simp_thms if_True)
    apply (simp cong: if_cong add: sz ix)
    done
  have go: "next_post a0 a1 d it (c @ iter_rest d (it_table it3) (it_index it3))"
    if n: "dictNext a0 a1 d it = (if c \<noteq> [] then Some (?d, it3\<lparr>it_next := tl c\<rparr>, Some (hd c)) else dictNext a0 a1 ?d it3)"
      and it3: "it_entry it3 = c" "it_index it3 \<ge> 0" "it_safe it3 = it_safe it" "it_fingerprint it3 = iter_fp a0 a1 d it" "iter_pos d it3"
      and dec: "nat (it_index it + 1) + (if it_table it = 0 then 0 else length (table (ht0 d)) + 1)
        < nat (it_index it3 + 1) + (if it_table it3 = 0 then 0 else length (table (ht0 d)) + 1)"
        "nat (it_index it + 1) + (if it_table it = 0 then 0 else length (table (ht0 d)) + 1) < length (table (ht0 d)) + length (table (ht1 d)) + 2"
    for c it3
  proof (cases "c = []")
    case True
    have "next_post a0 a1 ?d it3 (iter_rest ?d (it_table it3) (it_index it3))"
      by (rule less.hyps) (use less.prems it3 True dec in auto)
    then show ?thesis using next_post_step [of a0 a1 d it it3] n it3 True by simp
  next
    case False
    then show ?thesis using next_post_hit [of a0 a1 d it c it3] n it3 by simp
  qed
  show ?case
  proof (cases "n \<ge> length (table (if it_table it = 0 then ht0 d else ht1 d))")
    case over: True
    show ?thesis
    proof (cases "dictIsRehashing d \<and> it_table it = 0")
      case True
      let ?c = "table (ht1 d) ! 0"
      have ne: "table (ht1 d) \<noteq> []" using True less.prems(1) by (simp add: dict_inv_def dictIsRehashing_def)
      have "next_post a0 a1 d it (?c @ iter_rest d 1 0)"
        using go [of ?c "?it\<lparr>it_table := 1, it_index := 0, it_entry := ?c\<rparr>"] unf over True ne less.prems(2) ix
        by (simp add: iter_pos_def Let_def)
      moreover have "?c @ iter_rest d 1 0 = iter_rest d (it_table it) (it_index it)"
        using over True ne ix by (cases "table (ht1 d)") (simp_all add: iter_rest_def)
      ultimately show ?thesis by simp
    next
      case False
      then have "iter_rest d (it_table it) (it_index it) = []"
        using over less.prems(1,2) ix by (auto simp: iter_rest_def iter_pos_def dict_inv_def dictIsRehashing_def)
      then show ?thesis
        using unf over False less.prems(2) by (simp add: next_post_def iter_pos_def)
    qed
  next
    case False
    let ?ht = "if it_table it = 0 then ht0 d else ht1 d"
    let ?c = "table ?ht ! n"
    have "next_post a0 a1 d it (?c @ iter_rest d (it_table it) (int n))"
      using go [of ?c "?it\<lparr>it_index := int n, it_entry := ?c\<rparr>"] unf False less.prems(2)
      by (auto simp: iter_pos_def ix Let_def)
    moreover have "?c @ iter_rest d (it_table it) (int n) = iter_rest d (it_table it) (it_index it)"
      using False by (auto simp: iter_rest_def ix nat_add_distrib Cons_nth_drop_Suc [symmetric])
    ultimately show ?thesis by simp
  qed
qed


lemma next_correct:
  assumes inv: "dict_inv d" and pos: "iter_pos d it" and e: "it_entry it = [] \<longrightarrow> it_next it = []"
    "it_entry it \<noteq> [] \<longrightarrow> it_index it \<ge> 0"
  shows "next_post a0 a1 d it (it_next it @ iter_rest d (it_table it) (it_index it))"
proof (cases "it_entry it = []")
  case True
  then show ?thesis using next_from [OF inv pos] e by simp
next
  case False
  then have st: "iter_start d it = d" "iter_fp a0 a1 d it = it_fingerprint it"
    using e by (simp_all add: iter_start_def iter_fp_def)
  let ?it = "it\<lparr>it_entry := it_next it\<rparr>"
  have unf: "dictNext a0 a1 d it = (if it_next it \<noteq> [] then Some (d, ?it\<lparr>it_next := tl (it_next it)\<rparr>, Some (hd (it_next it)))
      else dictNext a0 a1 d ?it)"
    using False by (subst dictNext.simps) (simp add: Let_def)
  show ?thesis
  proof (cases "it_next it = []")
    case True
    have "next_post a0 a1 d ?it (iter_rest d (it_table it) (it_index it))"
      using next_from [OF inv, of ?it a0 a1] pos True by (simp add: iter_pos_def)
    then show ?thesis using next_post_step [of a0 a1 d it ?it] st unf True False e by simp
  next
    case ne: False
    then show ?thesis using next_post_hit [of a0 a1 d it "it_next it" ?it] st unf False e pos by (simp add: iter_pos_def)
  qed
qed

lemma iter_all_from:
  assumes "dict_inv d" "iter_pos d it" "it_entry it = [] \<longrightarrow> it_next it = []" "it_entry it \<noteq> [] \<longrightarrow> it_index it \<ge> 0"
  shows "\<exists>it'. iter_all a0 a1 d it = Some (iter_start d it, it', it_next it @ iter_rest d (it_table it) (it_index it)) \<and>
    it_safe it' = it_safe it \<and> it_fingerprint it' = iter_fp a0 a1 d it \<and> it_index it' \<ge> 0"
  using assms
proof (induction "it_next it @ iter_rest d (it_table it) (it_index it)" arbitrary: d it)
  case Nil
  then have "next_post a0 a1 d it []" using next_correct by metis
  then show ?case using Nil.hyps by (subst iter_all.simps) (auto simp: next_post_def)
next
  case (Cons x xs)
  have "next_post a0 a1 d it (x # xs)" using next_correct [OF Cons.prems, of a0 a1] Cons.hyps(2) by simp
  then obtain it1 where it1: "dictNext a0 a1 d it = Some (iter_start d it, it1, Some x)" "it_safe it1 = it_safe it"
    "it_fingerprint it1 = iter_fp a0 a1 d it" "iter_pos d it1" "it_index it1 \<ge> 0" "it_entry it1 \<noteq> []"
    "xs = it_next it1 @ iter_rest d (it_table it1) (it_index it1)" by (auto simp: next_post_def)
  have st: "iter_start (iter_start d it) it1 = iter_start d it" "iter_fp a0 a1 (iter_start d it) it1 = it_fingerprint it1"
    using it1(5) by (simp_all add: iter_start_def [of _ it1] iter_fp_def)
  obtain it' where "iter_all a0 a1 (iter_start d it) it1 = Some (iter_start d it, it', xs)"
    "it_safe it' = it_safe it" "it_fingerprint it' = iter_fp a0 a1 d it" "it_index it' \<ge> 0"
    using Cons.hyps(1) [of it1 "iter_start d it"] it1 st Cons.prems(1) by auto
  then show ?case using it1(1) Cons.hyps(2) by (subst iter_all.simps) simp
qed

text \<open>
  Property C22. An iteration of a caller that does not change the table, with a safe or an unsafe
  iterator and also in the middle of a rehash, ends, returns every entry exactly once (the
  buckets of \<open>ht[0]\<close> in order, then those of \<open>ht[1]\<close>) and after the release leaves the table as
  it was, with the fingerprint assertion of an unsafe iterator passing. While a safe
  iterator is in use, rehashing steps do nothing.
\<close>

theorem dictNext_visits_once:
  assumes "dict_inv d"
  shows "\<exists>it'. iter_all a0 a1 d (if safe then dictGetSafeIterator () else dictGetIterator ()) =
      Some (if safe then d\<lparr>iterators := iterators d + 1\<rparr> else d, it', dict_entries d) \<and>
    dictReleaseIterator a0 a1 (if safe then d\<lparr>iterators := iterators d + 1\<rparr> else d) it' = Some d \<and>
    (safe \<longrightarrow> dictRehashStep (d\<lparr>iterators := iterators d + 1\<rparr>) = Some (d\<lparr>iterators := iterators d + 1\<rparr>))"
proof -
  let ?it = "if safe then dictGetSafeIterator () else dictGetIterator () :: ('a, 'b) dictIterator"
  have i: "iter_pos d ?it" "it_entry ?it = []" "it_next ?it = []" "it_table ?it = 0" "it_index ?it = - 1" "it_safe ?it = safe"
    by (simp_all add: iter_pos_def dictGetSafeIterator_def dictGetIterator_def)
  have s: "iter_start d ?it = (if safe then d\<lparr>iterators := iterators d + 1\<rparr> else d)"
    using i by (simp add: iter_start_def)
  have f: "\<not> safe \<Longrightarrow> iter_fp a0 a1 d ?it = dictFingerprint a0 a1 d" using i by (simp add: iter_fp_def)
  obtain it' where it': "iter_all a0 a1 d ?it = Some (iter_start d ?it, it', it_next ?it @ iter_rest d (it_table ?it) (it_index ?it))"
    "it_safe it' = safe" "it_fingerprint it' = iter_fp a0 a1 d ?it" "it_index it' \<ge> 0"
    using iter_all_from [OF assms i(1), of a0 a1] i(2,3,6) by auto
  have "dictReleaseIterator a0 a1 (iter_start d ?it) it' = Some d"
    using it' f by (auto simp: dictReleaseIterator_def s)
  moreover have "it_next ?it @ iter_rest d (it_table ?it) (it_index ?it) = dict_entries d"
    unfolding i by (simp add: iter_rest_def dict_entries_def)
  ultimately show ?thesis using it'(1) s by (auto simp: dictRehashStep_def)
qed

theorem dictNext_visits_once_witness:
  "\<exists>it'. iter_all 0 0 mid_rehash (dictGetIterator ()) = Some (mid_rehash, it', dict_entries mid_rehash) \<and>
    dictReleaseIterator 0 0 mid_rehash it' = Some mid_rehash"
  using dictNext_visits_once [OF mid_rehash_inv, of 0 0 False] by simp

end
