(* ===== verification/Util_Num.thy ===== *)
theory Util_Num
  imports Redis_Prelude
begin

text \<open>
  Integers and strings (\<^verbatim>\<open>util.c\<close>): \<^verbatim>\<open>digits10\<close>, \<^verbatim>\<open>ll2string\<close>, \<^verbatim>\<open>string2ll\<close>,
  \<^verbatim>\<open>string2l\<close> and \<^verbatim>\<open>memtoll\<close>, against the decimal representation \<open>dec_int\<close> of an
  integer. The buffer of \<^verbatim>\<open>ll2string\<close> is a heap block, so that a write out of it is undefined.
\<close>

section \<open>Decimal representation\<close>

fun dec_nat :: "nat \<Rightarrow> bytes" where
  "dec_nat n = (if n < 10 then [48 + of_nat n] else dec_nat (n div 10) @ [48 + of_nat (n mod 10)])"

declare dec_nat.simps [simp del]

definition dec_int :: "int \<Rightarrow> bytes" where
  "dec_int v = (if v < 0 then 45 # dec_nat (nat (- v)) else dec_nat (nat v))"

section \<open>Counting digits\<close>

function digits10 :: "nat \<Rightarrow> nat" where
  "digits10 v =
     (if v < 10 then 1
      else if v < 100 then 2
      else if v < 1000 then 3
      else if v < 1000000000000 then
        if v < 100000000 then
          if v < 1000000 then
            if v < 10000 then 4
            else 5 + (if v \<ge> 100000 then 1 else 0)
          else 7 + (if v \<ge> 10000000 then 1 else 0)
        else if v < 10000000000 then 9 + (if v \<ge> 1000000000 then 1 else 0)
        else 11 + (if v \<ge> 100000000000 then 1 else 0)
      else 12 + digits10 (v div 1000000000000))"
  by pat_completeness auto
termination by (relation "measure id") auto

declare digits10.simps [simp del]

lemma len_dec_small: "n < 10 \<Longrightarrow> length (dec_nat n) = 1"
  by (simp add: dec_nat.simps)

lemma len_dec_div: "10 \<le> n \<Longrightarrow> length (dec_nat n) = Suc (length (dec_nat (n div 10)))"
  by (simp add: dec_nat.simps [of n])

lemma len_dec_div_pow: "10 ^ k \<le> n \<Longrightarrow> length (dec_nat n) = k + length (dec_nat (n div 10 ^ k))"
proof (induction k arbitrary: n)
  case 0
  then show ?case by simp
next
  case (Suc k)
  have "10 \<le> n" using Suc.prems by (metis le_trans mult_le_mono2 nat_mult_1_right one_le_numeral one_le_power power_Suc)
  moreover have "10 ^ k \<le> n div 10" using Suc.prems by (simp add: less_eq_div_iff_mult_less_eq mult.commute)
  ultimately show ?case using Suc.IH [of "n div 10"] len_dec_div [of n] by (simp add: div_mult2_eq)
qed

lemma len_dec_range:
  assumes "10 ^ k \<le> n" "n < 10 ^ Suc k"
  shows "length (dec_nat n) = Suc k"
proof -
  have "n div 10 ^ k < 10" using assms(2) by (simp add: less_mult_imp_div_less)
  then show ?thesis using len_dec_div_pow [OF assms(1)] len_dec_small by simp
qed

lemma len_dec_le: "n < 10 ^ k \<Longrightarrow> 0 < k \<Longrightarrow> length (dec_nat n) \<le> k"
proof (induction k arbitrary: n)
  case (Suc k)
  show ?case
  proof (cases "n < 10 ^ k")
    case True
    then show ?thesis using Suc.IH [of n] by (cases k) (auto simp: dec_nat.simps [of 0] intro: le_SucI)
  next
    case False
    then show ?thesis using len_dec_range [of k n] Suc.prems by simp
  qed
qed simp

text \<open>The decision tree counts the decimal digits.\<close>

lemma digits10_correct: "digits10 v = length (dec_nat v)"
proof (induction v rule: less_induct)
  case (less v)
  have r: "length (dec_nat v) = Suc k" if "10 ^ k \<le> v" "v < 10 ^ Suc k" for k by (rule len_dec_range [OF that])
  show ?case
  proof (cases "v < 1000000000000")
    case True
    consider (a) "v < 10" | (b) "\<not> v < 10" "v < 100" | (c) "\<not> v < 100" "v < 1000" | (d) "\<not> v < 1000" "v < 10000" | (e) "\<not> v < 10000" "v < 100000" | (f) "\<not> v < 100000" "v < 1000000" | (g) "\<not> v < 1000000" "v < 10000000" | (h) "\<not> v < 10000000" "v < 100000000" | (i) "\<not> v < 100000000" "v < 1000000000" | (j) "\<not> v < 1000000000" "v < 10000000000" | (k) "\<not> v < 10000000000" "v < 100000000000" | (l) "\<not> v < 100000000000" "v < 1000000000000"
      using True by blast
    then show ?thesis
    proof cases
      case a
      then show ?thesis using len_dec_small [of v] by (simp add: digits10.simps [of v])
    next
      case b
      then show ?thesis using r [of 1] by (simp add: digits10.simps [of v])
    next
      case c
      then show ?thesis using r [of 2] by (simp add: digits10.simps [of v])
    next
      case d
      then show ?thesis using r [of 3] by (simp add: digits10.simps [of v])
    next
      case e
      then show ?thesis using r [of 4] by (simp add: digits10.simps [of v])
    next
      case f
      then show ?thesis using r [of 5] by (simp add: digits10.simps [of v])
    next
      case g
      then show ?thesis using r [of 6] by (simp add: digits10.simps [of v])
    next
      case h
      then show ?thesis using r [of 7] by (simp add: digits10.simps [of v])
    next
      case i
      then show ?thesis using r [of 8] by (simp add: digits10.simps [of v])
    next
      case j
      then show ?thesis using r [of 9] by (simp add: digits10.simps [of v])
    next
      case k
      then show ?thesis using r [of 10] by (simp add: digits10.simps [of v])
    next
      case l
      then show ?thesis using r [of 11] by (simp add: digits10.simps [of v])
    qed
  next
    case False
    then have "length (dec_nat v) = 12 + length (dec_nat (v div 10 ^ 12))" by (intro len_dec_div_pow) simp
    moreover have "digits10 (v div 1000000000000) = length (dec_nat (v div 1000000000000))"
      using False by (intro less) simp
    ultimately show ?thesis using False by (subst digits10.simps) simp
  qed
qed

definition sdigits10 :: "int \<Rightarrow> nat" where
  "sdigits10 v =
     (if v < 0 then digits10 (nat (if v \<noteq> INT64_MIN then - v else INT64_MAX + 1)) + 1 else digits10 (nat v))"

lemma sdigits10_correct: "is_int64 v \<Longrightarrow> sdigits10 v = length (dec_int v)"
  by (auto simp: sdigits10_def digits10_correct dec_int_def)


section \<open>Printing a long long\<close>

definition digits_tab :: bytes where
  "digits_tab = ascii
     (''0001020304050607080910111213141516171819'' @
      ''2021222324252627282930313233343536373839'' @
      ''4041424344454647484950515253545556575859'' @
      ''6061626364656667686970717273747576777879'' @
      ''8081828384858687888990919293949596979899'')"

text \<open>Subtraction of \<^verbatim>\<open>uint32_t\<close> values.\<close>

definition u32_sub :: "nat \<Rightarrow> nat \<Rightarrow> nat" where
  "u32_sub a b = nat ((int a - int b) mod 2 ^ 32)"

function ll2string_loop :: "mem \<Rightarrow> nat \<Rightarrow> nat \<Rightarrow> (mem \<times> nat \<times> nat) option" where
  "ll2string_loop dst nxt val =
     (if val \<ge> 100 then do {
        let i = (val mod 100) * 2;
        c1 \<leftarrow> nth_opt digits_tab (i + 1);
        dst1 \<leftarrow> wr nxt [c1] dst;
        c0 \<leftarrow> nth_opt digits_tab i;
        dst2 \<leftarrow> wr (u32_sub nxt 1) [c0] dst1;
        ll2string_loop dst2 (u32_sub nxt 2) (val div 100)
      } else Some (dst, nxt, val))"
  by pat_completeness auto
termination by (relation "measure (\<lambda>(dst, nxt, val). val)") auto

declare ll2string_loop.simps [simp del]

definition ll2string_last :: "mem \<Rightarrow> nat \<Rightarrow> nat \<Rightarrow> mem option" where
  "ll2string_last dst nxt val =
     (if val < 10 then wr nxt [48 + of_nat val] dst
      else do {
        let i = val * 2;
        c1 \<leftarrow> nth_opt digits_tab (i + 1);
        dst1 \<leftarrow> wr nxt [c1] dst;
        c0 \<leftarrow> nth_opt digits_tab i;
        wr (u32_sub nxt 1) [c0] dst1
      })"

definition ll2string :: "mem \<Rightarrow> nat \<Rightarrow> int \<Rightarrow> (mem \<times> nat) option" where
  "ll2string dst dstlen svalue =
     do {
       let negative = (svalue < 0);
       let val = nat (if svalue < 0 then if svalue \<noteq> INT64_MIN then - svalue else INT64_MAX + 1 else svalue);
       let len = digits10 val + (if negative then 1 else 0);
       if len \<ge> dstlen then Some (dst, 0)
       else do {
         dst1 \<leftarrow> wr len [0] dst;
         (dst2, nxt, val) \<leftarrow> ll2string_loop dst1 (u32_sub len 1) val;
         dst3 \<leftarrow> ll2string_last dst2 nxt val;
         dst4 \<leftarrow> (if negative then wr 0 [45] dst3 else Some dst3);
         Some (dst4, len)
       }
     }"

lemma digits_tab_concat:
  "digits_tab = concat (map (\<lambda>k. [48 + of_nat (k div 10), 48 + of_nat (k mod 10)]) [0..<100])"
  by (simp add: digits_tab_def ascii_def upt_rec del: upt_Suc)

lemma concat_pair_nth:
  "k < length xs \<Longrightarrow> concat (map (\<lambda>k. [f k, g k]) xs) ! (k * 2) = f (xs ! k) \<and> concat (map (\<lambda>k. [f k, g k]) xs) ! (k * 2 + 1) = g (xs ! k)"
  by (induction xs arbitrary: k) (auto simp: nth_Cons split: nat.splits)

lemma digits_tab_nth:
  assumes "k < 100"
  shows  "nth_opt digits_tab (k * 2) = Some (48 + of_nat (k div 10))"
  "nth_opt digits_tab (k * 2 + 1) = Some (48 + of_nat (k mod 10))"
  using assms concat_pair_nth [of k "[0..<100]" "\<lambda>k. 48 + of_nat (k div 10) :: u8" "\<lambda>k. 48 + of_nat (k mod 10)"]
  by (simp_all add: digits_tab_concat nth_opt_def length_concat comp_def sum_list_triv)

lemma u32_sub_eq: "b \<le> a \<Longrightarrow> a < 2 ^ 32 \<Longrightarrow> u32_sub a b = a - b"
  by (simp add: u32_sub_def)

lemma wr1: "p < length m \<Longrightarrow> wr p [b] m = Some (m[p := Some b])"
  by (simp add: wr_def upd_conv_take_nth_drop)

lemma dec_nat_10: "10 \<le> n \<Longrightarrow> dec_nat n = dec_nat (n div 10) @ [48 + of_nat (n mod 10)]"
  by (subst dec_nat.simps) simp

lemma dec_nat_1: "n < 10 \<Longrightarrow> dec_nat n = [48 + of_nat n]"
  by (subst dec_nat.simps) simp

lemma dec_nat_ne: "0 < length (dec_nat n)"
  by (subst dec_nat.simps) simp

lemma dec_nat_100:
  assumes "100 \<le> n"
  shows "dec_nat n = dec_nat (n div 100) @ [48 + of_nat (n mod 100 div 10), 48 + of_nat (n mod 100 mod 10)]"
proof -
  have "10 \<le> n" "10 \<le> n div 10" using assms div_le_mono [OF assms, of 10] by simp_all
  note e = dec_nat_10 [OF this(1)] dec_nat_10 [OF this(2)]
  have m: "n mod 100 = 10 * (n div 10 mod 10) + n mod 10" using mod_mult2_eq [of n 10 10] by simp
  have "n mod 100 div 10 = n div 10 mod 10" "n mod 100 mod 10 = n mod 10" unfolding m by simp_all
  moreover have "n div 10 div 10 = n div 100" by (simp add: div_mult2_eq [symmetric])
  ultimately show ?thesis unfolding e by simp
qed

lemma dec_nat_2:
  assumes "10 \<le> n" "n < 100"
  shows "dec_nat n = [48 + of_nat (n div 10), 48 + of_nat (n mod 10)]"
proof -
  have "n div 10 < 10" using assms(2) by (simp add: less_mult_imp_div_less)
  then show ?thesis using dec_nat_10 [OF assms(1)] by (simp add: dec_nat_1)
qed

lemma upd2: "Suc k < length xs \<Longrightarrow> xs[Suc k := x, k := y] = take k xs @ y # x # drop (Suc (Suc k)) xs"
proof (induction xs arbitrary: k)
  case (Cons a xs)
  then show ?case by (cases k; cases xs) auto
qed simp

text \<open>Both digit writers fill the bytes up to \<^verbatim>\<open>nxt\<close> with the decimal digits.\<close>

lemma ll2string_digits:
  assumes "Suc nxt = k + length (dec_nat val)" "nxt < length dst" "nxt < 2 ^ 32"
  shows "do { (dst2, nxt, val) \<leftarrow> ll2string_loop dst nxt val; ll2string_last dst2 nxt val } =
    Some (take k dst @ map Some (dec_nat val) @ drop (Suc nxt) dst)"
  using assms
proof (induction val arbitrary: dst nxt rule: less_induct)
  case (less val)
  show ?case
  proof (cases "val \<ge> 100")
    case True
    let ?c1 = "48 + of_nat (val mod 100 mod 10) :: u8" and ?c0 = "48 + of_nat (val mod 100 div 10) :: u8"
    let ?dst = "(dst[nxt := Some ?c1])[nxt - 1 := Some ?c0]"
    have len: "length (dec_nat val) = length (dec_nat (val div 100)) + 2" using dec_nat_100 [OF True] by simp
    have pos: "0 < length (dec_nat (val div 100))" by (rule dec_nat_ne)
    have n3: "2 \<le> nxt" using less.prems(1) len pos by linarith
    have n: "u32_sub nxt 1 = nxt - 1" "u32_sub nxt 2 = nxt - 2" "2 \<le> nxt"
      using n3 by (auto intro!: u32_sub_eq less.prems(3))
    have step: "ll2string_loop dst nxt val = ll2string_loop ?dst (nxt - 2) (val div 100)"
      using True less.prems(2) n digits_tab_nth [of "val mod 100"]
      by (subst ll2string_loop.simps) (simp add: wr1 Let_def)
    have "do { (dst2, nxt, val) \<leftarrow> ll2string_loop ?dst (nxt - 2) (val div 100); ll2string_last dst2 nxt val } =
      Some (take k ?dst @ map Some (dec_nat (val div 100)) @ drop (Suc (nxt - 2)) ?dst)"
      by (rule less.IH) (use True less.prems len n(3) in auto)
    moreover have "?dst = take (nxt - 1) dst @ Some ?c0 # Some ?c1 # drop (Suc nxt) dst"
      using upd2 [of "nxt - 1" dst] less.prems(2) n3 by simp
    moreover have "k \<le> nxt - 1" "Suc (nxt - 2) = nxt - 1" using less.prems(1) len n3 pos by linarith+
    ultimately show ?thesis unfolding step dec_nat_100 [OF True] using less.prems(2) by simp
  next
    case False
    then have l: "ll2string_loop dst nxt val = Some (dst, nxt, val)" by (subst ll2string_loop.simps) simp
    show ?thesis
    proof (cases "val < 10")
      case True
      then have "k = nxt" using less.prems(1) by (simp add: dec_nat_1)
      then show ?thesis
        using True less.prems(2) by (simp add: l ll2string_last_def dec_nat_1 wr1 upd_conv_take_nth_drop)
    next
      case ge: False
      have d: "dec_nat val = [48 + of_nat (val div 10), 48 + of_nat (val mod 10)]" using False ge by (simp add: dec_nat_2)
      then have k: "nxt = Suc k" using less.prems(1) by simp
      have "ll2string_last dst nxt val = Some (dst[nxt := Some (48 + of_nat (val mod 10)), k := Some (48 + of_nat (val div 10))])"
        using ge False less.prems(2,3) digits_tab_nth [of val] k
        by (simp add: ll2string_last_def wr1 Let_def u32_sub_eq)
      then show ?thesis unfolding l using upd2 [of k dst] less.prems(2) k by (simp add: d)
    qed
  qed
qed

text \<open>
  \<^verbatim>\<open>ll2string\<close> writes the decimal representation and a null byte at the start of the buffer and
  nothing else, or reports 0 and leaves the buffer alone when it does not fit.
\<close>

lemma ll2string_eq:
  assumes "is_int64 v" "dstlen \<le> length dst"
  shows "ll2string dst dstlen v =
    (if length (dec_int v) \<ge> dstlen then Some (dst, 0)
     else Some (map Some (dec_int v @ [0]) @ drop (Suc (length (dec_int v))) dst, length (dec_int v)))"
proof -
  define a where "a = nat \<bar>v\<bar>"
  let ?n = "if v < 0 then 1 else 0 :: nat"
  have abs: "nat (if v < 0 then if v \<noteq> INT64_MIN then - v else INT64_MAX + 1 else v) = a"
    using assms(1) by (auto simp: is_int64_def a_def)
  have dec: "dec_int v = (if v < 0 then [45] else []) @ dec_nat a" by (simp add: dec_int_def a_def)
  have len: "digits10 a + ?n = length (dec_int v)" by (simp add: dec digits10_correct)
  show ?thesis
  proof (cases "length (dec_int v) \<ge> dstlen")
    case True
    then show ?thesis by (simp add: ll2string_def abs len [simplified] Let_def flip: len)
  next
    case False
    let ?L = "length (dec_int v)"
    let ?dst = "dst[?L := Some 0]"
    have lt: "?L < length dst" using False assms(2) by simp
    have "a < 10 ^ 20" using assms(1) by (auto simp: is_int64_def a_def)
    then have "length (dec_nat a) \<le> 20" using len_dec_le [of a 20] by simp
    then have small: "?L < 2 ^ 32" unfolding dec by simp
    have pos: "0 < ?L" using dec_nat_ne [of a] by (simp add: dec)
    have dig: "do { (dst2, nxt, val) \<leftarrow> ll2string_loop ?dst (?L - 1) a; ll2string_last dst2 nxt val } =
        Some (take ?n ?dst @ map Some (dec_nat a) @ drop (Suc (?L - 1)) ?dst)"
      by (rule ll2string_digits) (use pos lt small len digits10_correct [of a] in auto)
    have dr: "drop (Suc (?L - 1)) ?dst = Some 0 # drop (Suc ?L) dst"
      using pos lt by (simp add: Cons_nth_drop_Suc [symmetric])
    have tk: "take ?n ?dst = take ?n dst" using pos by (simp add: dec)
    have u32: "u32_sub ?L 1 = ?L - 1" using u32_sub_eq [of 1 ?L] pos small by simp
    obtain x rest where dst: "dst = x # rest" using lt by (cases dst) auto
    have "ll2string dst dstlen v = do {
        dst3 \<leftarrow> do { (dst2, nxt, val) \<leftarrow> ll2string_loop ?dst (?L - 1) a; ll2string_last dst2 nxt val };
        dst4 \<leftarrow> (if v < 0 then wr 0 [45] dst3 else Some dst3);
        Some (dst4, ?L) }"
      by (simp only: ll2string_def Let_def abs len if_not_P [OF False] wr1 [OF lt] u32 bind.bind_lunit split_def Option.bind_assoc)
    then show ?thesis
      using False unfolding dig dr tk by (simp add: dst wr1 dec)
  qed
qed


section \<open>Parsing a long long\<close>

abbreviation ULLONG_MAX :: int where "ULLONG_MAX \<equiv> 18446744073709551615"

text \<open>The loop over the digits after the first: the value and the bytes left, or an overflow.\<close>

fun string2ll_loop :: "int \<Rightarrow> bytes \<Rightarrow> (int \<times> bytes) option" where
  "string2ll_loop v [] = Some (v, [])"
| "string2ll_loop v (c # cs) =
     (if c \<ge> 48 \<and> c \<le> 57 then
        if v > ULLONG_MAX div 10 then None
        else
          let v = v * 10 mod 2 ^ 64 in
          if v > ULLONG_MAX - (uint c - 48) then None
          else string2ll_loop ((v + (uint c - 48)) mod 2 ^ 64) cs
      else Some (v, c # cs))"

definition string2ll :: "bytes \<Rightarrow> int option" where
  "string2ll s =
     (if s = [] then None
      else if s = [48] then Some 0
      else
        let negative = (hd s = 45); p = (if negative then tl s else s) in
        if negative \<and> p = [] then None
        else if hd p \<ge> 49 \<and> hd p \<le> 57 then
          case string2ll_loop (uint (hd p) - 48) (tl p) of
            None \<Rightarrow> None
          | Some (v, rest) \<Rightarrow>
              if rest \<noteq> [] then None
              else if negative then
                if v > - (INT64_MIN + 1) + 1 then None else Some (signed_take_bit 63 (- v))
              else if v > INT64_MAX then None else Some v
        else None)"

definition string2l :: "bytes \<Rightarrow> int option" where
  "string2l s = (case string2ll s of None \<Rightarrow> None
     | Some llval \<Rightarrow> if llval < INT64_MIN \<or> llval > INT64_MAX then None else Some llval)"

definition is_digit :: "u8 \<Rightarrow> bool" where
  "is_digit c \<longleftrightarrow> c \<ge> 48 \<and> c \<le> 57"

definition dec_val :: "int \<Rightarrow> bytes \<Rightarrow> int" where
  "dec_val v cs = foldl (\<lambda>v c. v * 10 + (uint c - 48)) v cs"

lemma dec_val_simps [simp]:
  "dec_val v [] = v" "dec_val v (c # cs) = dec_val (v * 10 + (uint c - 48)) cs"
  "dec_val v (cs @ [c]) = dec_val v cs * 10 + (uint c - 48)"
  by (simp_all add: dec_val_def)

lemma is_digit_uint: "is_digit c \<Longrightarrow> 48 \<le> uint c \<and> uint c \<le> 57"
  by (simp add: is_digit_def word_le_def)

lemma dec_val_mono: "0 \<le> v \<Longrightarrow> list_all is_digit cs \<Longrightarrow> v \<le> dec_val v cs"
proof (induction cs arbitrary: v)
  case (Cons c cs)
  have "48 \<le> uint c" using Cons.prems(2) is_digit_uint by auto
  then have "v * 10 + (uint c - 48) \<le> dec_val (v * 10 + (uint c - 48)) cs" using Cons by simp
  then show ?case using \<open>48 \<le> uint c\<close> Cons.prems(1) by simp
qed simp

lemma string2ll_loop_iff:
  "0 \<le> v \<Longrightarrow> v \<le> ULLONG_MAX \<Longrightarrow>
   string2ll_loop v cs = Some (n, []) \<longleftrightarrow> list_all is_digit cs \<and> n = dec_val v cs \<and> n \<le> ULLONG_MAX"
proof (induction cs arbitrary: v)
  case Nil
  then show ?case by auto
next
  case (Cons c cs)
  show ?case
  proof (cases "is_digit c")
    case False
    then show ?thesis by (auto simp: is_digit_def)
  next
    case True
    let ?w = "v * 10 + (uint c - 48)"
    have u: "48 \<le> uint c" "uint c \<le> 57" using is_digit_uint True by auto
    show ?thesis
    proof (cases "?w \<le> ULLONG_MAX")
      case w: True
      then have "\<not> v > ULLONG_MAX div 10" "v * 10 mod 2 ^ 64 = v * 10" "?w mod 2 ^ 64 = ?w"
        using Cons.prems u by auto
      then have "string2ll_loop v (c # cs) = string2ll_loop ?w cs"
        using True u w by (simp add: is_digit_def)
      then show ?thesis using Cons.IH [of ?w] w Cons.prems u True by simp
    next
      case w: False
      have "string2ll_loop v (c # cs) = None"
      proof (cases "v > ULLONG_MAX div 10")
        case False
        then have "v * 10 mod 2 ^ 64 = v * 10" using Cons.prems by auto
        then show ?thesis using True w False u by (simp add: is_digit_def)
      qed (use True in \<open>simp add: is_digit_def\<close>)
      moreover have "?w \<le> dec_val ?w cs" if "list_all is_digit cs" using dec_val_mono [OF _ that] Cons.prems u by simp
      ultimately show ?thesis using w by auto
    qed
  qed
qed

lemma uint_digit: "n < 10 \<Longrightarrow> uint (48 + of_nat n :: u8) = 48 + int n"
  by (simp add: uint_word_ariths unsigned_of_nat take_bit_eq_mod)

lemma dec_nat_digits: "list_all is_digit (dec_nat n)"
proof (induction n rule: less_induct)
  case (less n)
  have d: "is_digit (48 + of_nat m)" if "m < 10" for m
    using uint_digit [OF that] that by (simp add: is_digit_def word_le_def)
  show ?case
  proof (cases "n < 10")
    case True
    then show ?thesis using d by (simp add: dec_nat_1)
  next
    case False
    then show ?thesis using less [of "n div 10"] d [of "n mod 10"] by (simp add: dec_nat_10)
  qed
qed

lemma dec_val_dec_nat: "dec_val 0 (dec_nat n) = int n"
proof (induction n rule: less_induct)
  case (less n)
  show ?case
  proof (cases "n < 10")
    case True
    then show ?thesis by (simp add: dec_nat_1 uint_digit)
  next
    case False
    have "int (n div 10) * 10 + int (n mod 10) = int n"
      by (metis div_mult_mod_eq of_nat_add of_nat_mult of_nat_numeral)
    then show ?thesis using less [of "n div 10"] False by (simp add: dec_nat_10 uint_digit)
  qed
qed

lemma dec_nat_of_digits:
  assumes "0 < v" "list_all is_digit cs"
  shows "dec_nat (nat (dec_val (int v) cs)) = dec_nat v @ cs"
  using assms
proof (induction cs arbitrary: v)
  case (Cons c cs)
  define d where "d = nat (uint c - 48)"
  have u: "48 \<le> uint c" "uint c \<le> 57" using Cons.prems(2) is_digit_uint by auto
  have d: "uint c - 48 = int d" "d < 10" "48 + of_nat d = c"
  proof -
    show "uint c - 48 = int d" "d < 10" using u by (simp_all add: d_def)
    then show "48 + of_nat d = c" using uint_digit [of d] u by (simp add: word_uint_eq_iff)
  qed
  have "dec_nat (nat (dec_val (int (v * 10 + d)) cs)) = dec_nat (v * 10 + d) @ cs"
    using Cons.IH [of "v * 10 + d"] Cons.prems by simp
  moreover have "dec_nat (v * 10 + d) = dec_nat v @ [c]"
    using dec_nat_10 [of "v * 10 + d"] Cons.prems(1) d by simp
  ultimately show ?case using d(1) by simp
qed simp


lemma dec_nat_hd: "0 < n \<Longrightarrow> 49 \<le> uint (hd (dec_nat n)) \<and> uint (hd (dec_nat n)) \<le> 57"
proof (induction n rule: less_induct)
  case (less n)
  show ?case
  proof (cases "n < 10")
    case True
    then show ?thesis using less.prems by (simp add: dec_nat_1 uint_digit)
  next
    case False
    then show ?thesis using less.IH [of "n div 10"] dec_nat_ne [of "n div 10"] by (simp add: dec_nat_10 hd_append)
  qed
qed

text \<open>The digits after the sign: a positive number in its canonical form.\<close>

lemma parse_digits_iff:
  assumes "p \<noteq> []"
  shows "hd p \<ge> 49 \<and> hd p \<le> 57 \<and> string2ll_loop (uint (hd p) - 48) (tl p) = Some (n, []) \<longleftrightarrow>
    0 < n \<and> n \<le> ULLONG_MAX \<and> p = dec_nat (nat n)"
proof
  assume l: "hd p \<ge> 49 \<and> hd p \<le> 57 \<and> string2ll_loop (uint (hd p) - 48) (tl p) = Some (n, [])"
  then have u: "49 \<le> uint (hd p)" "uint (hd p) \<le> 57" by (simp_all add: word_le_def)
  have n: "list_all is_digit (tl p)" "n = dec_val (uint (hd p) - 48) (tl p)" "n \<le> ULLONG_MAX"
    using l string2ll_loop_iff [of "uint (hd p) - 48" "tl p" n] u by auto
  define d where "d = nat (uint (hd p) - 48)"
  have d: "uint (hd p) - 48 = int d" "0 < d" "d < 10" using u by (simp_all add: d_def)
  have h: "48 + of_nat d = hd p" using uint_digit [OF d(3)] d(1) by (simp add: word_uint_eq_iff)
  have "dec_nat (nat n) = dec_nat d @ tl p" using dec_nat_of_digits [OF d(2) n(1)] n(2) d(1) by simp
  also have "\<dots> = p" using assms d(3) h by (simp add: dec_nat_1)
  finally have "p = dec_nat (nat n)" ..
  moreover have "0 < n" using dec_val_mono [of "int d" "tl p"] n(1,2) d by simp
  ultimately show "0 < n \<and> n \<le> ULLONG_MAX \<and> p = dec_nat (nat n)" using n(3) by simp
next
  assume r: "0 < n \<and> n \<le> ULLONG_MAX \<and> p = dec_nat (nat n)"
  then have u: "49 \<le> uint (hd p)" "uint (hd p) \<le> 57" using dec_nat_hd [of "nat n"] by auto
  obtain c cs where p: "p = c # cs" using assms by (cases p) auto
  have "list_all is_digit p" "dec_val 0 p = n" using r dec_nat_digits dec_val_dec_nat by auto
  then have "list_all is_digit (tl p)" "dec_val (uint (hd p) - 48) (tl p) = n" by (simp_all add: p)
  then have "string2ll_loop (uint (hd p) - 48) (tl p) = Some (n, [])"
    using string2ll_loop_iff [of "uint (hd p) - 48" "tl p" n] u r by simp
  then show "hd p \<ge> 49 \<and> hd p \<le> 57 \<and> string2ll_loop (uint (hd p) - 48) (tl p) = Some (n, [])"
    using u by (simp add: word_le_def)
qed


lemma dec_nat_inj: "dec_nat m = dec_nat n \<longleftrightarrow> m = n"
  using dec_val_dec_nat by (metis of_nat_eq_iff)

lemma dec_nat_neqs: "dec_nat n \<noteq> []" "[] \<noteq> dec_nat n" "dec_nat n \<noteq> 45 # p" "45 # p \<noteq> dec_nat n" "dec_nat n = [48] \<longleftrightarrow> n = 0"
proof -
  show "dec_nat n \<noteq> []" "[] \<noteq> dec_nat n" using dec_nat_ne [of n] by auto
  have "\<not> is_digit 45" by (simp add: is_digit_def)
  then show "dec_nat n \<noteq> 45 # p" "45 # p \<noteq> dec_nat n" using dec_nat_digits [of n] by (metis list.pred_inject(2))+
  show "dec_nat n = [48] \<longleftrightarrow> n = 0" using dec_nat_inj [of n 0] by (simp add: dec_nat_1)
qed

lemma string2ll_neg:
  "string2ll (45 # p) = Some v \<longleftrightarrow> is_int64 v \<and> v < 0 \<and> p = dec_nat (nat (- v))"
proof (cases "p = []")
  case True
  then show ?thesis using dec_nat_neqs by (auto simp: string2ll_def)
next
  case False
  have conv: "signed_take_bit 63 (- n) = - n" if "0 < n" "n \<le> 9223372036854775808" for n :: int
    using that by (simp add: signed_take_bit_int_eq_self_iff)
  have "string2ll (45 # p) = Some v \<longleftrightarrow>
    (\<exists>n. (hd p \<ge> 49 \<and> hd p \<le> 57 \<and> string2ll_loop (uint (hd p) - 48) (tl p) = Some (n, [])) \<and>
      n \<le> 9223372036854775808 \<and> v = signed_take_bit 63 (- n))"
    using False by (auto simp: string2ll_def Let_def split: option.splits if_splits)
  also have "\<dots> \<longleftrightarrow> (\<exists>n. 0 < n \<and> n \<le> 9223372036854775808 \<and> p = dec_nat (nat n) \<and> v = - n)"
    unfolding parse_digits_iff [OF False] using conv by fastforce
  also have "\<dots> \<longleftrightarrow> is_int64 v \<and> v < 0 \<and> p = dec_nat (nat (- v))"
    by (auto simp: is_int64_def intro: exI [of _ "- v"])
  finally show ?thesis .
qed

lemma string2ll_pos:
  assumes "s \<noteq> []" "s \<noteq> [48]" "hd s \<noteq> 45"
  shows "string2ll s = Some v \<longleftrightarrow> is_int64 v \<and> 0 < v \<and> s = dec_nat (nat v)"
proof -
  have "string2ll s = Some v \<longleftrightarrow>
    (hd s \<ge> 49 \<and> hd s \<le> 57 \<and> string2ll_loop (uint (hd s) - 48) (tl s) = Some (v, [])) \<and> v \<le> INT64_MAX"
    using assms by (auto simp: string2ll_def Let_def split: option.splits if_splits)
  then show ?thesis unfolding parse_digits_iff [OF assms(1)] by (auto simp: is_int64_def)
qed

text \<open>The parser accepts exactly the canonical decimal forms of the 64-bit integers.\<close>

lemma string2ll_eq: "string2ll s = Some v \<longleftrightarrow> is_int64 v \<and> s = dec_int v"
proof -
  consider "s = []" | "s = [48]" | (neg) p where "s = 45 # p" | (pos) "s \<noteq> []" "s \<noteq> [48]" "hd s \<noteq> 45"
    by (metis list.collapse)
  then show ?thesis
  proof cases
    case 1
    then show ?thesis by (simp add: string2ll_def dec_int_def dec_nat_neqs)
  next
    case 2
    have "[48] = dec_int v \<longleftrightarrow> v = 0" using dec_nat_neqs(5) [of "nat v"] by (auto simp: dec_int_def)
    then show ?thesis using 2 by (auto simp: string2ll_def is_int64_def)
  next
    case neg
    then show ?thesis using string2ll_neg [of p v] by (simp add: dec_int_def dec_nat_neqs)
  next
    case pos
    have "s = dec_int v \<Longrightarrow> 0 < v" using pos by (cases "v = 0") (auto simp: dec_int_def dec_nat_1 split: if_splits)
    moreover have "0 < v \<Longrightarrow> dec_int v = dec_nat (nat v)" by (simp add: dec_int_def)
    ultimately show ?thesis using string2ll_pos [OF pos, of v] by auto
  qed
qed


section \<open>Amounts of memory\<close>

definition tolower_byte :: "u8 \<Rightarrow> u8" where
  "tolower_byte c = (if 65 \<le> c \<and> c \<le> 90 then c + 32 else c)"

definition strcaseeq :: "bytes \<Rightarrow> string \<Rightarrow> bool" where
  "strcaseeq s t \<longleftrightarrow> map tolower_byte s = ascii t"

text \<open>
  \<^verbatim>\<open>strtoll\<close> in base 10 on a string of an optional minus sign and digits: the value, saturated to
  the range of \<^verbatim>\<open>long long\<close>, and what \<^verbatim>\<open>endptr\<close> points to (everything, when there is no digit).
\<close>

definition strtoll10 :: "bytes \<Rightarrow> int \<times> bytes" where
  "strtoll10 buf =
     (let negative = (buf \<noteq> [] \<and> hd buf = 45); ds = (if negative then tl buf else buf);
          n = dec_val 0 ds; v = (if negative then - n else n)
      in if ds = [] then (0, buf) else (max INT64_MIN (min INT64_MAX v), []))"

definition memtoll_unit :: "bytes \<Rightarrow> int option" where
  "memtoll_unit u =
     (if u = [] \<or> strcaseeq u ''b'' then Some 1
      else if strcaseeq u ''k'' then Some 1000
      else if strcaseeq u ''kb'' then Some 1024
      else if strcaseeq u ''m'' then Some (1000 * 1000)
      else if strcaseeq u ''mb'' then Some (1024 * 1024)
      else if strcaseeq u ''g'' then Some (1000 * 1000 * 1000)
      else if strcaseeq u ''gb'' then Some (1024 * 1024 * 1024)
      else None)"

text \<open>The result is the value and the error flag; \<^term>\<open>None\<close> is a signed overflow.\<close>

definition memtoll :: "bytes \<Rightarrow> (int \<times> bool) option" where
  "memtoll p =
     (let sign = (if p \<noteq> [] \<and> hd p = 45 then 1 else 0);
          digits = sign + length (takeWhile is_digit (drop sign p));
          u = drop digits p
      in case memtoll_unit u of
           None \<Rightarrow> Some (0, True)
         | Some m \<Rightarrow>
             if digits \<ge> 128 then Some (0, True)
             else
               let (v, endp) = strtoll10 (take digits p) in
               if endp \<noteq> [] then Some (0, True)
               else if is_int64 (v * m) then Some (v * m, False) else None)"

lemma memtoll_digits:
  assumes "n \<le> 9223372036854775807" "u = [] \<or> \<not> is_digit (hd u)"
  shows "memtoll (dec_nat n @ u) = (case memtoll_unit u of None \<Rightarrow> Some (0, True)
    | Some m \<Rightarrow> if is_int64 (int n * m) then Some (int n * m, False) else None)"
proof -
  obtain c cs where c: "dec_nat n = c # cs" using dec_nat_neqs(1) by (cases "dec_nat n") auto
  have nd: "is_digit c" using dec_nat_digits [of n] by (simp add: c)
  then have "c \<noteq> 45" by (auto simp: is_digit_def)
  moreover have "takeWhile is_digit (dec_nat n @ u) = dec_nat n"
  proof -
    have "takeWhile is_digit u = []" using assms(2) by (cases u) auto
    then show ?thesis using dec_nat_digits [of n] by (simp add: takeWhile_append2 list_all_iff)
  qed
  moreover have "length (dec_nat n) < 128" using len_dec_le [of n 19] assms(1) by simp
  moreover have "strtoll10 (dec_nat n) = (int n, [])"
    using dec_val_dec_nat [of n] assms(1) \<open>c \<noteq> 45\<close> by (simp add: strtoll10_def c)
  ultimately show ?thesis by (simp add: memtoll_def Let_def c hd_append cong: option.case_cong)
qed

text \<open>
  Property C24. The parser \<^verbatim>\<open>string2ll\<close> accepts exactly the canonical decimal forms of the 64-bit
  signed integers (no leading zeros, no plus sign, no spaces, and no \<open>-0\<close>), for every input
  string, and returns the number they denote: overflow is always detected.
\<close>

theorem string2ll_iff: "string2ll s = Some v \<longleftrightarrow> is_int64 v \<and> s = dec_int v"
  by (rule string2ll_eq)

text \<open>
  Property C25. What \<^verbatim>\<open>ll2string\<close> writes is read back by \<^verbatim>\<open>string2ll\<close>: in a buffer of at least
  21 bytes every 64-bit value is printed, null terminated, without touching the rest of
  the buffer, and parses to the same value.
\<close>

theorem ll2string_roundtrip:
  assumes "is_int64 v" "21 \<le> dstlen" "dstlen \<le> length dst"
  shows "\<exists>dst' n s. ll2string dst dstlen v = Some (dst', n) \<and> rd 0 n dst' = Some s \<and> string2ll s = Some v \<and>
    rd n 1 dst' = Some [0] \<and> drop (n + 1) dst' = drop (n + 1) dst \<and> length dst' = length dst"
proof -
  let ?s = "dec_int v"
  have "nat \<bar>v\<bar> < 10 ^ 19" using assms(1) by (auto simp: is_int64_def)
  then have "length ?s \<le> 20" using len_dec_le [of "nat \<bar>v\<bar>" 19] by (auto simp: dec_int_def)
  then have lt: "length ?s < dstlen" using assms(2) by simp
  let ?d = "map Some (?s @ [0]) @ drop (Suc (length ?s)) dst"
  have "ll2string dst dstlen v = Some (?d, length ?s)" using ll2string_eq [OF assms(1,3)] lt by simp
  moreover have "rd 0 (length ?s) ?d = Some ?s" using rd_mid [of 0 "[]" "length ?s" ?s] by simp
  moreover have "rd (length ?s) 1 ?d = Some [0]" using rd_mid [of "length ?s" "map Some ?s" 1 "[0]"] by simp
  moreover have "string2ll ?s = Some v" using string2ll_eq assms(1) by simp
  ultimately show ?thesis using lt assms(3) by (intro exI [of _ ?d] exI [of _ "length ?s"] exI [of _ ?s]) simp
qed

theorem ll2string_roundtrip_witness:
  "\<exists>dst' n s. ll2string (replicate 32 None) 32 INT64_MIN = Some (dst', n) \<and> rd 0 n dst' = Some s \<and> string2ll s = Some INT64_MIN"
  using ll2string_roundtrip [of INT64_MIN 32 "replicate 32 None"] by (auto simp: is_int64_def)

text \<open>The documented units.\<close>

definition mem_units :: "(string \<times> nat) list" where
  "mem_units = [([], 1), (''b'', 1), (''k'', 1000), (''kb'', 1024), (''m'', 1000000), (''mb'', 1048576),
     (''g'', 1000000000), (''gb'', 1073741824)]"

lemma mem_units_unit: "(u, m) \<in> set mem_units \<Longrightarrow> memtoll_unit (ascii u) = Some (int m)"
  by (auto simp: mem_units_def ascii_def memtoll_unit_def strcaseeq_def tolower_byte_def)



end
