(* ===== verification/Util_Match.thy ===== *)
theory Util_Match
  imports Redis_Prelude
begin

text \<open>
  The glob matcher \<^verbatim>\<open>stringmatchlen\<close> of \<^verbatim>\<open>util.c\<close>, which KEYS, SCAN, PSUBSCRIBE and CONFIG GET use.
  The pattern is modelled as the readable memory from its start on, so that a read past the
  end is visible, and the matcher is compared with a reference semantics of glob patterns as token lists.
\<close>

section \<open>The matcher\<close>

text \<open>\<^verbatim>\<open>tolower\<close> of the C locale on a \<^verbatim>\<open>char\<close> that was converted to \<^verbatim>\<open>int\<close>.\<close>

definition tolower_int :: "int \<Rightarrow> int" where
  "tolower_int c = (if 65 \<le> c \<and> c \<le> 90 then c + 32 else c)"

definition same_char :: "bool \<Rightarrow> u8 \<Rightarrow> u8 \<Rightarrow> bool" where
  "same_char nocase a b = (if \<not> nocase then a = b else tolower_int (sint a) = tolower_int (sint b))"

definition in_range :: "bool \<Rightarrow> u8 \<Rightarrow> u8 \<Rightarrow> u8 \<Rightarrow> bool" where
  "in_range nocase a b ch =
     (let start = min (sint a) (sint b); end = max (sint a) (sint b); c = sint ch;
          start = (if nocase then tolower_int start else start);
          end = (if nocase then tolower_int end else end);
          c = (if nocase then tolower_int c else c)
      in start \<le> c \<and> c \<le> end)"

text \<open>
  The pattern is a block of readable bytes \<open>pat\<close>, an index and the remaining length; a read out of
  the block is undefined. \<open>s\<close> is the rest of the string.
\<close>

function skip_stars :: "bytes \<Rightarrow> nat \<Rightarrow> int \<Rightarrow> (nat \<times> int) option" where
  "skip_stars pat i n =
     do {
       c \<leftarrow> nth_opt pat (Suc i);
       if c = 42 then skip_stars pat (Suc i) (n - 1) else Some (i, n)
     }"
  by pat_completeness auto
termination by (relation "measure (\<lambda>(pat, i, n). length pat - i)") (auto simp: nth_opt_eq_Some)

function tail_stars :: "bytes \<Rightarrow> nat \<Rightarrow> int \<Rightarrow> int option" where
  "tail_stars pat i n =
     do {
       c \<leftarrow> nth_opt pat i;
       if c = 42 then tail_stars pat (Suc i) (n - 1) else Some n
     }"
  by pat_completeness auto
termination by (relation "measure (\<lambda>(pat, i, n). length pat - i)") (auto simp: nth_opt_eq_Some)

function class_loop :: "bool \<Rightarrow> u8 \<Rightarrow> bytes \<Rightarrow> nat \<Rightarrow> int \<Rightarrow> bool \<Rightarrow> (nat \<times> int \<times> bool) option" where
  "class_loop nocase ch pat i n m =
     do {
       c0 \<leftarrow> nth_opt pat i;
       if c0 = 92 \<and> n \<ge> 2 then do {
         c1 \<leftarrow> nth_opt pat (Suc i);
         class_loop nocase ch pat (i + 2) (n - 2) (m \<or> c1 = ch)
       }
       else if c0 = 93 then Some (i, n, m)
       else if n = 0 then Some (i - 1, n + 1, m)
       else do {
         c1 \<leftarrow> nth_opt pat (Suc i);
         if c1 = 45 \<and> n \<ge> 3 then do {
           c2 \<leftarrow> nth_opt pat (i + 2);
           class_loop nocase ch pat (i + 3) (n - 3) (m \<or> in_range nocase c0 c2 ch)
         }
         else class_loop nocase ch pat (Suc i) (n - 1) (m \<or> same_char nocase c0 ch)
       }
     }"
  by pat_completeness auto
termination by (relation "measure (\<lambda>(nc, ch, pat, i, n, m). length pat - i)") (auto simp: nth_opt_eq_Some)

declare skip_stars.simps [simp del] tail_stars.simps [simp del] class_loop.simps [simp del]

text \<open>
  One turn of the outer loop up to the \<^verbatim>\<open>switch\<close>'s end, for the cases other than \<open>*\<close>: the new index
  and length, or no match. The string is not empty and \<open>ch\<close> is its first character.
\<close>

definition match_one :: "bool \<Rightarrow> u8 \<Rightarrow> bytes \<Rightarrow> nat \<Rightarrow> int \<Rightarrow> (nat \<times> int) option option" where
  "match_one nocase ch pat i n =
     do {
       c \<leftarrow> nth_opt pat i;
       if c = 63 then Some (Some (i, n))
       else if c = 91 then do {
         c1 \<leftarrow> nth_opt pat (Suc i);
         let neg = (c1 = 94);
         (i', n', m) \<leftarrow> class_loop nocase ch pat (if neg then i + 2 else i + 1) (if neg then n - 2 else n - 1) False;
         Some (if (if neg then \<not> m else m) then Some (i', n') else None)
       }
       else do {
         let (i', n') = (if c = 92 \<and> n \<ge> 2 then (Suc i, n - 1) else (i, n));
         c' \<leftarrow> nth_opt pat i';
         Some (if same_char nocase c' ch then Some (i', n') else None)
       }
     }"

lemma skip_stars_ge: "skip_stars pat i n = Some (i', n') \<Longrightarrow> i \<le> i' \<and> i' < length pat"
  by (induction pat i n rule: skip_stars.induct, subst (asm) (2) skip_stars.simps)
    (auto simp: nth_opt_eq_Some split: Option.bind_splits if_splits intro: Suc_leD)

lemma class_loop_ge: "class_loop nocase ch pat i n m = Some (i', n', m') \<Longrightarrow> i - 1 \<le> i' \<and> i' < length pat"
  apply (induction nocase ch pat i n m rule: class_loop.induct)
  apply (subst (asm) (4) class_loop.simps)
  apply (auto simp: nth_opt_eq_Some split: Option.bind_splits if_splits)
  done

lemma match_one_ge:
  assumes "match_one nocase ch pat i n = Some (Some (i', n'))"
  shows "i \<le> i' \<and> i < length pat"
proof -
  have "i' \<ge> i" if "class_loop nocase ch pat (if neg then i + 2 else i + 1) n2 False = Some (i', n', m)" for neg n2 m
    using class_loop_ge [OF that] by (auto split: if_splits)
  then show ?thesis
    using assms by (fastforce simp: match_one_def nth_opt_eq_Some Let_def split: Option.bind_splits if_splits)
qed

function stringmatchlen :: "bool \<Rightarrow> bytes \<Rightarrow> nat \<Rightarrow> int \<Rightarrow> bytes \<Rightarrow> bool option"
  and star_loop :: "bool \<Rightarrow> bytes \<Rightarrow> nat \<Rightarrow> int \<Rightarrow> bytes \<Rightarrow> bool option" where
  "stringmatchlen nocase pat i n s =
     (if n \<noteq> 0 \<and> s \<noteq> [] then do {
        c \<leftarrow> nth_opt pat i;
        if c = 42 then do {
          (i', n') \<leftarrow> skip_stars pat i n;
          if n' = 1 then Some True else star_loop nocase pat (i' + 1) (n' - 1) s
        }
        else do {
          r \<leftarrow> match_one nocase (hd s) pat i n;
          case r of
            None \<Rightarrow> Some False
          | Some (i', n') \<Rightarrow>
              if tl s = [] then do { n'' \<leftarrow> tail_stars pat (i' + 1) (n' - 1); Some (n'' = 0) }
              else stringmatchlen nocase pat (i' + 1) (n' - 1) (tl s)
        }
      }
      else Some (n = 0 \<and> s = []))"
| "star_loop nocase pat i n s =
     (if s \<noteq> [] then do {
        b \<leftarrow> stringmatchlen nocase pat i n s;
        if b then Some True else star_loop nocase pat i n (tl s)
      }
      else Some False)"
  by pat_completeness auto
termination
proof (relation "inv_image (less_than <*lex*> less_than)
    (\<lambda>x. case x of Inl (nc, pat, i, n, s) \<Rightarrow> (length pat - i, 2 * length s) | Inr (nc, pat, i, n, s) \<Rightarrow> (length pat - i, 2 * length s + 1))")
qed (auto simp: nth_opt_eq_Some dest: skip_stars_ge match_one_ge intro: diff_less_mono2)

declare stringmatchlen.simps [simp del] star_loop.simps [simp del]

definition stringmatch :: "bytes \<Rightarrow> bytes \<Rightarrow> bool \<Rightarrow> bool option" where
  "stringmatch pattern string nocase = stringmatchlen nocase (pattern @ [0]) 0 (int (length pattern)) string"

section \<open>Glob patterns\<close>

text \<open>The reference semantics: a pattern is a list of tokens, and \<open>*\<close> stands for any sequence.\<close>

datatype class_item = Esc u8 | Rng u8 u8 | Single u8
datatype tok = TStar | TAny | TLit u8 | TClass bool "class_item list"

function parse_class :: "bytes \<Rightarrow> class_item list \<times> bytes" where
  "parse_class p =
     (if p = [] then ([], [])
      else if hd p = 92 \<and> length p \<ge> 2 then apfst (Cons (Esc (p ! 1))) (parse_class (drop 2 p))
      else if hd p = 93 then ([], tl p)
      else if length p \<ge> 3 \<and> p ! 1 = 45 then apfst (Cons (Rng (hd p) (p ! 2))) (parse_class (drop 3 p))
      else apfst (Cons (Single (hd p))) (parse_class (tl p)))"
  by pat_completeness auto
termination by (relation "measure length") auto

declare parse_class.simps [simp del]

lemma parse_class_length: "length (snd (parse_class p)) \<le> length p"
proof (induction p rule: parse_class.induct)
  case (1 p)
  then show ?case by (subst parse_class.simps) (auto intro: order_trans)
qed

function parse_glob :: "bytes \<Rightarrow> tok list" where
  "parse_glob p =
     (if p = [] then []
      else if hd p = 42 then TStar # parse_glob (tl p)
      else if hd p = 63 then TAny # parse_glob (tl p)
      else if hd p = 91 then
        let neg = (length p \<ge> 2 \<and> p ! 1 = 94); (items, rest) = parse_class (drop (if neg then 2 else 1) p)
        in TClass neg items # parse_glob rest
      else if hd p = 92 \<and> length p \<ge> 2 then TLit (p ! 1) # parse_glob (drop 2 p)
      else TLit (hd p) # parse_glob (tl p))"
  by pat_completeness auto
termination
proof (relation "measure length")
  fix p :: bytes and neg :: bool and x items rest
  assume "p \<noteq> []" "x = parse_class (drop (if neg then 2 else 1) p)" "(items, rest) = x"
  then show "(rest, p) \<in> measure length"
    using parse_class_length [of "drop (if neg then 2 else 1) p"] by (cases p) (auto split: if_splits dest: arg_cong [of _ _ snd])
qed auto

declare parse_glob.simps [simp del]

fun item_matches :: "bool \<Rightarrow> u8 \<Rightarrow> class_item \<Rightarrow> bool" where
  "item_matches nocase ch (Esc c) = (c = ch)"
| "item_matches nocase ch (Rng a b) = in_range nocase a b ch"
| "item_matches nocase ch (Single c) = same_char nocase c ch"

fun tok_matches :: "bool \<Rightarrow> u8 \<Rightarrow> tok \<Rightarrow> bool" where
  "tok_matches nocase ch TStar = False"
| "tok_matches nocase ch TAny = True"
| "tok_matches nocase ch (TLit c) = same_char nocase c ch"
| "tok_matches nocase ch (TClass neg items) = (neg \<noteq> list_ex (item_matches nocase ch) items)"

fun glob :: "bool \<Rightarrow> tok list \<Rightarrow> bytes \<Rightarrow> bool" where
  "glob nocase [] s = (s = [])"
| "glob nocase (t # ts) [] = (t = TStar \<and> glob nocase ts [])"
| "glob nocase (t # ts) (c # s) =
     (if t = TStar then glob nocase ts (c # s) \<or> glob nocase (t # ts) s
      else tok_matches nocase c t \<and> glob nocase ts s)"

section \<open>The matcher implements the semantics\<close>

text \<open>The pattern \<open>p\<close> in memory, followed by a null byte and anything else.\<close>

lemma buf_read:
  "i \<le> length p \<Longrightarrow> k \<le> length p - i \<Longrightarrow> nth_opt (p @ 0 # junk) (i + k) = Some ((drop i p @ [0]) ! k)"
  by (auto simp: nth_opt_def nth_append)

lemma class_loop_correct:
  assumes "1 \<le> i" "i \<le> length p" and B: "B = p @ 0 # junk"
  shows "\<exists>i' n'. class_loop nocase ch B i (int (length p - i)) m =
      Some (i', n', m \<or> list_ex (item_matches nocase ch) (fst (parse_class (drop i p)))) \<and>
    i' + 1 \<le> length p \<and> n' - 1 = int (length p - (i' + 1)) \<and> drop (i' + 1) p = snd (parse_class (drop i p))"
  using assms(1,2)
proof (induction "length p - i" arbitrary: i m rule: less_induct)
  case less
  let ?q = "drop i p" and ?n = "int (length p - i)"
  have r0: "nth_opt B i = Some ((?q @ [0]) ! 0)" using buf_read [of i p 0] less.prems unfolding B by simp
  show ?case
  proof (cases "?q")
    case Nil
    then have "i = length p" using less.prems by simp
    then show ?thesis
      using less.prems by (subst class_loop.simps, subst (1 2) parse_class.simps, simp add: nth_opt_def B) linarith
  next
    case (Cons c r)
    then have lt: "i < length p" by (metis drop_all list.distinct(1) not_le)
    have dr: "drop (i + k) p = drop k (c # r)" for k by (metis Cons add.commute drop_drop)
    have rk: "k \<le> length p - i \<Longrightarrow> nth_opt B (i + k) = Some (((c # r) @ [0]) ! k)" for k
      using buf_read [of i p k] less.prems(2) Cons unfolding B by simp
    have len: "length p - i = Suc (length r)" by (metis Cons length_Cons length_drop)
    have unf: "class_loop nocase ch B i ?n m =
       (if c = 92 \<and> ?n \<ge> 2 then do {
          c1 \<leftarrow> nth_opt B (Suc i);
          class_loop nocase ch B (i + 2) (?n - 2) (m \<or> c1 = ch)
        }
        else if c = 93 then Some (i, ?n, m)
        else if ?n = 0 then Some (i - 1, ?n + 1, m)
        else do {
          c1 \<leftarrow> nth_opt B (Suc i);
          if c1 = 45 \<and> ?n \<ge> 3 then do {
            c2 \<leftarrow> nth_opt B (i + 2);
            class_loop nocase ch B (i + 3) (?n - 3) (m \<or> in_range nocase c c2 ch)
          }
          else class_loop nocase ch B (Suc i) (?n - 1) (m \<or> same_char nocase c ch)
        })"
      by (subst class_loop.simps) (simp add: r0 Cons)
    have go: ?thesis
      if e: "class_loop nocase ch B i ?n m = class_loop nocase ch B (i + k) (?n - int k) (m \<or> item_matches nocase ch it)"
        and k: "0 < k" "i + k \<le> length p"
        and ps: "parse_class (c # r) = apfst (Cons it) (parse_class (drop k (c # r)))" for k it
    proof -
      obtain i' n' where h: "class_loop nocase ch B (i + k) (int (length p - (i + k))) (m \<or> item_matches nocase ch it) =
          Some (i', n', (m \<or> item_matches nocase ch it) \<or> list_ex (item_matches nocase ch) (fst (parse_class (drop (i + k) p))))"
        "i' + 1 \<le> length p" "n' - 1 = int (length p - (i' + 1))" "drop (i' + 1) p = snd (parse_class (drop (i + k) p))"
      proof -
        have "length p - (i + k) < length p - i" "1 \<le> i + k" using k lt by linarith+
        then show ?thesis using less.hyps [OF _ _ k(2), of "m \<or> item_matches nocase ch it"] that by blast
      qed
      have nk: "?n - int k = int (length p - (i + k))" using k(2) by simp
      show ?thesis
        unfolding e nk Cons ps using h(1) unfolding dr using h(2-4) unfolding dr by auto
    qed
    consider (esc) "c = 92" "2 \<le> length (c # r)" | (close) "c = 93" "\<not> (c = 92 \<and> 2 \<le> length (c # r))"
      | (rng) "\<not> (c = 92 \<and> 2 \<le> length (c # r))" "c \<noteq> 93" "3 \<le> length (c # r)" "(c # r) ! 1 = 45"
      | (single) "\<not> (c = 92 \<and> 2 \<le> length (c # r))" "c \<noteq> 93" "\<not> (3 \<le> length (c # r) \<and> (c # r) ! 1 = 45)" by blast
    then show ?thesis
    proof cases
      case esc
      then have c1: "nth_opt B (Suc i) = Some (r ! 0)" using rk [of 1] len by (cases r) auto
      show ?thesis
      proof (rule go [of 2 "Esc (r ! 0)"])
        show "class_loop nocase ch B i ?n m = class_loop nocase ch B (i + 2) (?n - int 2) (m \<or> item_matches nocase ch (Esc (r ! 0)))"
          unfolding unf using esc len c1 by simp
        show "parse_class (c # r) = apfst (Cons (Esc (r ! 0))) (parse_class (drop 2 (c # r)))"
          using esc by (subst parse_class.simps) simp
      qed (use esc len in auto)
    next
      case close
      then show ?thesis
        unfolding unf Cons using lt dr [of 1] by (subst (1 2) parse_class.simps) (auto simp: len)
    next
      case rng
      then have c1: "nth_opt B (Suc i) = Some 45" "nth_opt B (i + 2) = Some (r ! 1)"
        using rk [of 1] rk [of 2] len by (cases r; auto simp: nth_append)+
      show ?thesis
      proof (rule go [of 3 "Rng c (r ! 1)"])
        show "class_loop nocase ch B i ?n m = class_loop nocase ch B (i + 3) (?n - int 3) (m \<or> item_matches nocase ch (Rng c (r ! 1)))"
          unfolding unf using rng len c1 by auto
        show "parse_class (c # r) = apfst (Cons (Rng c (r ! 1))) (parse_class (drop 3 (c # r)))"
          using rng by (subst parse_class.simps) auto
      qed (use rng len in auto)
    next
      case single
      obtain c1 where c1: "nth_opt B (Suc i) = Some c1" "\<not> (c1 = 45 \<and> ?n \<ge> 3)"
        using rk [of 1] len single(3) by (cases r) (auto simp: nth_append)
      show ?thesis
      proof (rule go [of 1 "Single c"])
        show "class_loop nocase ch B i ?n m = class_loop nocase ch B (i + 1) (?n - int 1) (m \<or> item_matches nocase ch (Single c))"
          unfolding unf using single len c1 by auto
        show "parse_class (c # r) = apfst (Cons (Single c)) (parse_class (drop 1 (c # r)))"
          using single by (subst parse_class.simps) auto
      qed (use len in auto)
    qed
  qed
qed

definition at :: "bytes \<Rightarrow> nat \<Rightarrow> int \<Rightarrow> bytes \<Rightarrow> bool" where
  "at p i n q \<longleftrightarrow> i \<le> length p \<and> n = int (length p - i) \<and> drop i p = q"

lemma match_one_correct:
  assumes "at p i n (c # r)" "c \<noteq> 42"
  shows "\<exists>t q. parse_glob (c # r) = t # parse_glob q \<and> t \<noteq> TStar \<and> length q < length (c # r) \<and>
    (if tok_matches nocase ch t
     then \<exists>i' n'. match_one nocase ch (p @ 0 # junk) i n = Some (Some (i', n')) \<and> at p (i' + 1) (n' - 1) q
     else match_one nocase ch (p @ 0 # junk) i n = Some None)"
proof -
  have lt: "i < length p" using assms(1) by (metis at_def drop_all list.distinct(1) not_le)
  have q: "drop i p = c # r" and n: "n = int (length p - i)" using assms(1) by (simp_all add: at_def)
  have dr: "drop (i + k) p = drop k (c # r)" for k by (metis q add.commute drop_drop)
  have rk: "k \<le> length p - i \<Longrightarrow> nth_opt (p @ 0 # junk) (i + k) = Some (((c # r) @ [0]) ! k)" for k
    using buf_read [of i p k] lt q by simp
  have len: "length p - i = Suc (length r)" by (metis q length_Cons length_drop)
  have r0: "nth_opt (p @ 0 # junk) i = Some c" using rk [of 0] by simp
  consider (any) "c = 63" | (cls) "c = 91" | (lit) "c \<noteq> 63" "c \<noteq> 91" by blast
  then show ?thesis
  proof cases
    case any
    have "parse_glob (c # r) = TAny # parse_glob r" using any by (subst parse_glob.simps) simp
    moreover have "match_one nocase ch (p @ 0 # junk) i n = Some (Some (i, n))" using any r0 by (simp add: match_one_def)
    moreover have "at p (i + 1) (n - 1) r" using lt dr [of 1] n by (auto simp: at_def)
    ultimately show ?thesis by (intro exI [of _ TAny] exI [of _ r]) auto
  next
    case cls
    define neg where "neg \<longleftrightarrow> length (c # r) \<ge> 2 \<and> (c # r) ! 1 = 94"
    define k where "k = (if neg then 2 else 1 :: nat)"
    obtain items q' where pc: "parse_class (drop k (c # r)) = (items, q')" by (cases "parse_class (drop k (c # r))")
    have kl: "i + k \<le> length p" using len by (auto simp: k_def neg_def)
    obtain i' n' where h: "class_loop nocase ch (p @ 0 # junk) (i + k) (int (length p - (i + k))) False =
        Some (i', n', list_ex (item_matches nocase ch) items)" "i' + 1 \<le> length p" "n' - 1 = int (length p - (i' + 1))"
      "drop (i' + 1) p = q'"
    proof -
      have "1 \<le> i + k" by (simp add: k_def)
      then show ?thesis
        using class_loop_correct [OF _ kl refl, of nocase ch junk False] that unfolding dr pc fst_conv snd_conv simp_thms by blast
    qed
    have pg: "parse_glob (c # r) = TClass neg items # parse_glob q'"
    proof -
      have "(length (c # r) \<ge> 2 \<and> (c # r) ! 1 = 94) = neg" by (simp add: neg_def)
      then show ?thesis using cls pc unfolding k_def by (subst parse_glob.simps) (simp only: Let_def list.sel list.distinct, simp)
    qed
    have c1: "nth_opt (p @ 0 # junk) (Suc i) = Some ((r @ [0]) ! 0)" using rk [of 1] len by simp
    have ng: "(r @ [0]) ! 0 = 94 \<longleftrightarrow> neg" by (cases r) (auto simp: neg_def)
    have nk: "(if neg then i + 2 else i + 1) = i + k" "(if neg then n - 2 else n - 1) = int (length p - (i + k))"
      using kl n by (auto simp: k_def of_nat_diff)
    have "match_one nocase ch (p @ 0 # junk) i n =
      Some (if neg \<noteq> list_ex (item_matches nocase ch) items then Some (i', n') else None)"
      using cls r0 c1 h(1) by (auto simp: match_one_def Let_def ng nk)
    moreover have "length q' < length (c # r)" using parse_class_length [of "drop k (c # r)"] pc by (auto simp: k_def split: if_splits)
    ultimately show ?thesis using pg h(2-4) by (intro exI [of _ "TClass neg items"] exI [of _ q']) (auto simp: at_def)
  next
    case lit
    define esc where "esc \<longleftrightarrow> c = 92 \<and> length (c # r) \<ge> 2"
    let ?k = "if esc then 1 else 0 :: nat"
    let ?d = "(c # r) ! ?k"
    have pg: "parse_glob (c # r) = TLit ?d # parse_glob (drop (?k + 1) (c # r))"
      using lit assms(2) by (subst parse_glob.simps) (auto simp: esc_def)
    have "n \<ge> 2 \<longleftrightarrow> length (c # r) \<ge> 2" using n len by simp
    then have e: "(c = 92 \<and> n \<ge> 2) = esc" by (simp add: esc_def)
    have rd: "nth_opt (p @ 0 # junk) (i + ?k) = Some ?d" using rk [of ?k] len by (auto simp: esc_def nth_append)
    have "match_one nocase ch (p @ 0 # junk) i n = Some (if same_char nocase ?d ch then Some (i + ?k, n - int ?k) else None)"
      using lit r0 rd unfolding match_one_def by (simp add: e split: if_splits)
    moreover have "at p (i + ?k + 1) (n - int ?k - 1) (drop (?k + 1) (c # r))"
      using dr [of "?k + 1"] len n by (auto simp: at_def esc_def of_nat_diff)
    ultimately show ?thesis using pg
      by (intro exI [of _ "TLit ?d"] exI [of _ "drop (?k + 1) (c # r)"]) (auto simp: add.assoc)
  qed
qed

lemma at_Cons:
  assumes "at p i n (c # r)"
  shows "at p (i + 1) (n - 1) r" "i < length p" "nth_opt (p @ 0 # junk) i = Some c" "n = int (length (c # r))"
proof -
  have q: "drop i p = c # r" using assms by (simp add: at_def)
  show lt: "i < length p" using q by (metis drop_all list.distinct(1) not_le)
  have "drop (Suc i) p = r" using q by (metis drop_Suc list.sel(3) tl_drop)
  then show "at p (i + 1) (n - 1) r" using assms lt by (simp add: at_def)
  show "nth_opt (p @ 0 # junk) i = Some c" using buf_read [of i p 0] lt q by simp
  have "length (drop i p) = length (c # r)" using q by simp
  then show "n = int (length (c # r))" using assms by (simp add: at_def)
qed

lemma at_Nil: "at p i n [] \<Longrightarrow> n = 0 \<and> i = length p \<and> nth_opt (p @ 0 # junk) i = Some 0"
  by (auto simp: at_def nth_opt_def)

lemma skip_stars_correct:
  assumes "at p i n (42 # r)"
  shows "\<exists>i' n' k q. skip_stars (p @ 0 # junk) i n = Some (i', n') \<and> at p (i' + 1) (n' - 1) q \<and> i \<le> i' \<and>
    (q = [] \<or> hd q \<noteq> 42) \<and> r = replicate k 42 @ q"
  using assms
proof (induction r arbitrary: i n)
  case Nil
  have a: "at p (Suc i) (n - 1) []" using at_Cons(1) [OF Nil] by simp
  have "skip_stars (p @ 0 # junk) i n = Some (i, n)"
    using at_Nil [OF a, of junk] by (subst skip_stars.simps) simp
  then show ?case using a by (intro exI [of _ i] exI [of _ n] exI [of _ 0] exI [of _ "[]"]) simp
next
  case (Cons c r)
  have a: "at p (Suc i) (n - 1) (c # r)" using at_Cons(1) [OF Cons.prems] by simp
  have rd: "nth_opt (p @ 0 # junk) (Suc i) = Some c" using at_Cons(3) [OF a] .
  show ?case
  proof (cases "c = 42")
    case True
    then obtain i' n' k q where h: "skip_stars (p @ 0 # junk) (Suc i) (n - 1) = Some (i', n')" "at p (i' + 1) (n' - 1) q"
      "Suc i \<le> i'" "q = [] \<or> hd q \<noteq> 42" "r = replicate k 42 @ q"
      using Cons.IH [of "Suc i" "n - 1"] a by blast
    have "skip_stars (p @ 0 # junk) i n = Some (i', n')"
      using rd True h(1) by (subst skip_stars.simps) simp
    then show ?thesis using h True by (intro exI [of _ i'] exI [of _ n'] exI [of _ "Suc k"] exI [of _ q]) simp
  next
    case False
    then have "skip_stars (p @ 0 # junk) i n = Some (i, n)" using rd by (subst skip_stars.simps) simp
    then show ?thesis using a False by (intro exI [of _ i] exI [of _ n] exI [of _ 0] exI [of _ "c # r"]) simp
  qed
qed

lemma tail_stars_correct:
  assumes "at p i n q"
  shows "\<exists>n'. tail_stars (p @ 0 # junk) i n = Some n' \<and> (n' = 0 \<longleftrightarrow> glob nocase (parse_glob q) [])"
  using assms
proof (induction q arbitrary: i n)
  case Nil
  then show ?case using at_Nil [OF Nil, of junk] by (subst tail_stars.simps, subst parse_glob.simps) simp
next
  case (Cons c r)
  have rd: "nth_opt (p @ 0 # junk) i = Some c" using at_Cons(3) [OF Cons.prems] .
  show ?case
  proof (cases "c = 42")
    case True
    then have "parse_glob (c # r) = TStar # parse_glob r" by (subst parse_glob.simps) simp
    then show ?thesis
      using Cons.IH [OF at_Cons(1) [OF Cons.prems]] rd True by (subst tail_stars.simps) simp
  next
    case False
    obtain t q where "parse_glob (c # r) = t # parse_glob q" "t \<noteq> TStar" using match_one_correct [OF Cons.prems False] by blast
    then show ?thesis using rd False at_Cons(4) [OF Cons.prems] by (subst tail_stars.simps) simp
  qed
qed

lemma glob_star_star: "glob nocase (TStar # TStar # ts) s = glob nocase (TStar # ts) s"
  by (induction s) auto

lemma glob_stars: "glob nocase (replicate (Suc k) TStar @ ts) s = glob nocase (TStar # ts) s"
  by (induction k) (simp_all add: glob_star_star)

lemma glob_star_suffix: "glob nocase (TStar # ts) s \<longleftrightarrow> (\<exists>s'. suffix s' s \<and> glob nocase ts s')"
  by (induction s) (auto simp: suffix_Cons)

lemma parse_stars: "parse_glob (replicate k 42 @ q) = replicate k TStar @ parse_glob q"
  by (induction k) (simp_all, subst parse_glob.simps, simp)

lemma at_len: "at p i n q \<Longrightarrow> n = int (length q)"
  by (auto simp: at_def)

lemma star_loop_correct:
  assumes "\<And>s'. s' \<noteq> [] \<Longrightarrow> stringmatchlen nocase B i n s' = Some (g s')"
  shows "star_loop nocase B i n s = Some (\<exists>s'. suffix s' s \<and> s' \<noteq> [] \<and> g s')"
proof (induction s)
  case Nil
  then show ?case by (subst star_loop.simps) (auto simp: suffix_def)
next
  case (Cons c s)
  then show ?case using assms [of "c # s"] by (subst star_loop.simps) (auto simp: suffix_Cons)
qed

lemma stringmatchlen_correct:
  assumes "at p i n q"
  shows "stringmatchlen nocase (p @ 0 # junk) i n s = Some (if s = [] then q = [] else glob nocase (parse_glob q) s)"
  using assms
proof (induction "length q" arbitrary: q i n s rule: less_induct)
  case less
  show ?case
  proof (cases "q = [] \<or> s = []")
    case True
    have "n = 0 \<longleftrightarrow> q = []" using at_len [OF less.prems] by simp
    then show ?thesis using True by (subst stringmatchlen.simps) (auto simp: parse_glob.simps [of "[]"])
  next
    case False
    then obtain c r ch s' where q: "q = c # r" and s: "s = ch # s'" by (meson neq_Nil_conv)
    note a = less.prems [unfolded q]
    have n: "n \<noteq> 0" using at_Cons(4) [OF a] by simp
    show ?thesis
    proof (cases "c = 42")
      case True
      obtain i' n' k q' where h: "skip_stars (p @ 0 # junk) i n = Some (i', n')" "at p (i' + 1) (n' - 1) q'"
        "q' = [] \<or> hd q' \<noteq> 42" "r = replicate k 42 @ q'"
        using skip_stars_correct [OF a [unfolded True]] by blast
      have pq: "glob nocase (parse_glob q) s = glob nocase (TStar # parse_glob q') s" for s
        using parse_stars [of "Suc k" q'] glob_stars [of nocase k "parse_glob q'" s] by (simp add: q True h(4))
      have n1: "n' = 1 \<longleftrightarrow> q' = []" using at_len [OF h(2)] by auto
      have unf: "stringmatchlen nocase (p @ 0 # junk) i n s =
          (if n' = 1 then Some True else star_loop nocase (p @ 0 # junk) (i' + 1) (n' - 1) s)"
        using n at_Cons(3) [OF a, of junk] True h(1) s by (subst stringmatchlen.simps) simp
      show ?thesis
      proof (cases "q' = []")
        case True
        have "glob nocase [TStar] s" by (auto simp: glob_star_suffix)
        then show ?thesis using unf n1 True pq s by (simp add: parse_glob.simps [of "[]"])
      next
        case ne: False
        have len: "length q' < length q" using q h(4) by simp
        have no: "\<not> glob nocase (parse_glob q') []"
        proof -
          obtain c' r' where q': "q' = c' # r'" using ne by (cases q') auto
          then have "c' \<noteq> 42" using h(3) by simp
          from match_one_correct [OF h(2) [unfolded q'] this]
          obtain t qq where "parse_glob q' = t # parse_glob qq" "t \<noteq> TStar" using q' by blast
          then show ?thesis by simp
        qed
        have "star_loop nocase (p @ 0 # junk) (i' + 1) (n' - 1) s = Some (\<exists>s'. suffix s' s \<and> s' \<noteq> [] \<and> glob nocase (parse_glob q') s')"
          by (rule star_loop_correct) (use less.hyps [OF len h(2)] in auto)
        moreover have "(\<exists>s'. suffix s' s \<and> s' \<noteq> [] \<and> glob nocase (parse_glob q') s') \<longleftrightarrow> glob nocase (TStar # parse_glob q') s"
          unfolding glob_star_suffix using no by auto
        ultimately show ?thesis using unf n1 ne pq s by simp
      qed
    next
      case False
      obtain t q' where t: "parse_glob q = t # parse_glob q'" "t \<noteq> TStar" "length q' < length q"
        and m: "if tok_matches nocase ch t
          then \<exists>i' n'. match_one nocase ch (p @ 0 # junk) i n = Some (Some (i', n')) \<and> at p (i' + 1) (n' - 1) q'
          else match_one nocase ch (p @ 0 # junk) i n = Some None"
        using match_one_correct [OF a False, of nocase ch junk] q by auto
      show ?thesis
      proof (cases "tok_matches nocase ch t")
        case True
        then obtain i' n' where mo: "match_one nocase ch (p @ 0 # junk) i n = Some (Some (i', n'))" "at p (i' + 1) (n' - 1) q'"
          using m by auto
        obtain n'' where ts: "tail_stars (p @ 0 # junk) (i' + 1) (n' - 1) = Some n''" "n'' = 0 \<longleftrightarrow> glob nocase (parse_glob q') []"
          using tail_stars_correct [OF mo(2)] by blast
        show ?thesis
          using n at_Cons(3) [OF a, of junk] False mo(1) ts t True s less.hyps [OF t(3) mo(2), of s']
          by (subst stringmatchlen.simps) simp
      next
        case nm: False
        then show ?thesis using n at_Cons(3) [OF a, of junk] False m t s by (subst stringmatchlen.simps) simp
      qed
    qed
  qed
qed

text \<open>
  Property C27. On a null-terminated pattern (as every SDS string is) \<^verbatim>\<open>stringmatchlen\<close> terminates, never
  reads past the terminator or the string, and decides the glob semantics for every
  non-empty string; the empty string is matched by the empty pattern only.
\<close>

theorem stringmatchlen_glob:
  "stringmatchlen nocase (p @ 0 # junk) 0 (int (length p)) s =
    Some (if s = [] then p = [] else glob nocase (parse_glob p) s)"
  by (rule stringmatchlen_correct) (simp add: at_def)

text \<open>
  The pattern \<open>*\<close> does not match the empty string, although by the glob semantics it does.
\<close>

theorem stringmatchlen_empty_star:
  "stringmatchlen nocase (42 # 0 # junk) 0 1 [] = Some False \<and> glob nocase (parse_glob [42]) []"
  by (simp add: stringmatchlen.simps parse_glob.simps)



end
