(* ===== verification/Adlist.thy ===== *)
theory Adlist
  imports Redis_Prelude
begin

text \<open>
  The doubly linked list of \<^verbatim>\<open>adlist.c\<close> on an explicit heap: a node pointer is an address or null
  (\<^term>\<open>None\<close>), the heap is a partial map from addresses to nodes, and an access to an address
  that is not allocated is undefined. \<^verbatim>\<open>zmalloc\<close> returns an address that is not in use; the
  operations take it as an argument. \<^verbatim>\<open>zfree\<close> removes the node from the heap, so a use after
  free is undefined. The \<^verbatim>\<open>dup\<close> and \<^verbatim>\<open>match\<close> methods are the caller's code.
\<close>

section \<open>Data\<close>

record 'v listNode =
  prev :: "nat option"
  nxt :: "nat option"
  node_value :: 'v

type_synonym 'v node_heap = "nat \<Rightarrow> 'v listNode option"

record 'v list_hd =
  head :: "nat option"
  tail :: "nat option"
  dup :: "('v \<Rightarrow> 'v option) option"
  mtch :: "('v \<Rightarrow> 'v \<Rightarrow> bool) option"
  len :: nat

record listIter =
  it_nxt :: "nat option"
  direction :: bool  \<comment> \<open>true: \<^verbatim>\<open>AL_START_HEAD\<close>\<close>

definition upd_node :: "'v node_heap \<Rightarrow> nat option \<Rightarrow> ('v listNode \<Rightarrow> 'v listNode) \<Rightarrow> 'v node_heap option" where
  "upd_node h p f = do { a \<leftarrow> p; n \<leftarrow> h a; Some (h(a \<mapsto> f n)) }"

definition node_at :: "'v node_heap \<Rightarrow> nat option \<Rightarrow> 'v listNode option" where
  "node_at h p = do { a \<leftarrow> p; h a }"

section \<open>Operations\<close>

definition listCreate :: "unit \<Rightarrow> 'v list_hd" where
  "listCreate u = \<lparr>head = None, tail = None, dup = None, mtch = None, len = 0\<rparr>"

fun listEmpty_loop :: "nat \<Rightarrow> nat option \<Rightarrow> 'v node_heap \<Rightarrow> 'v node_heap option" where
  "listEmpty_loop 0 current h = Some h"
| "listEmpty_loop (Suc n) current h =
     do { a \<leftarrow> current; x \<leftarrow> h a; listEmpty_loop n (nxt x) (h(a := None)) }"

definition listEmpty :: "'v node_heap \<Rightarrow> 'v list_hd \<Rightarrow> ('v node_heap \<times> 'v list_hd) option" where
  "listEmpty h l = do { h' \<leftarrow> listEmpty_loop (len l) (head l) h; Some (h', l\<lparr>head := None, tail := None, len := 0\<rparr>) }"

definition listAddNodeHead :: "nat \<Rightarrow> 'v node_heap \<Rightarrow> 'v list_hd \<Rightarrow> 'v \<Rightarrow> ('v node_heap \<times> 'v list_hd) option" where
  "listAddNodeHead node h l v =
     (if len l = 0 then
        Some (h(node \<mapsto> \<lparr>prev = None, nxt = None, node_value = v\<rparr>), l\<lparr>head := Some node, tail := Some node, len := len l + 1\<rparr>)
      else do {
        let h1 = h(node \<mapsto> \<lparr>prev = None, nxt = head l, node_value = v\<rparr>);
        h2 \<leftarrow> upd_node h1 (head l) (\<lambda>n. n\<lparr>prev := Some node\<rparr>);
        Some (h2, l\<lparr>head := Some node, len := len l + 1\<rparr>)
      })"

definition listAddNodeTail :: "nat \<Rightarrow> 'v node_heap \<Rightarrow> 'v list_hd \<Rightarrow> 'v \<Rightarrow> ('v node_heap \<times> 'v list_hd) option" where
  "listAddNodeTail node h l v =
     (if len l = 0 then
        Some (h(node \<mapsto> \<lparr>prev = None, nxt = None, node_value = v\<rparr>), l\<lparr>head := Some node, tail := Some node, len := len l + 1\<rparr>)
      else do {
        let h1 = h(node \<mapsto> \<lparr>prev = tail l, nxt = None, node_value = v\<rparr>);
        h2 \<leftarrow> upd_node h1 (tail l) (\<lambda>n. n\<lparr>nxt := Some node\<rparr>);
        Some (h2, l\<lparr>tail := Some node, len := len l + 1\<rparr>)
      })"

definition listInsertNode :: "nat \<Rightarrow> 'v node_heap \<Rightarrow> 'v list_hd \<Rightarrow> nat option \<Rightarrow> 'v \<Rightarrow> bool \<Rightarrow> ('v node_heap \<times> 'v list_hd) option" where
  "listInsertNode node h l old_node v after =
     do {
       old \<leftarrow> node_at h old_node;
       let n = (if after then \<lparr>prev = old_node, nxt = nxt old, node_value = v\<rparr>
                else \<lparr>prev = prev old, nxt = old_node, node_value = v\<rparr>);
       let l1 = (if after then if tail l = old_node then l\<lparr>tail := Some node\<rparr> else l
                 else if head l = old_node then l\<lparr>head := Some node\<rparr> else l);
       let h1 = h(node \<mapsto> n);
       h2 \<leftarrow> (if prev n \<noteq> None then upd_node h1 (prev n) (\<lambda>x. x\<lparr>nxt := Some node\<rparr>) else Some h1);
       h3 \<leftarrow> (if nxt n \<noteq> None then upd_node h2 (nxt n) (\<lambda>x. x\<lparr>prev := Some node\<rparr>) else Some h2);
       Some (h3, l1\<lparr>len := len l1 + 1\<rparr>)
     }"

definition listDelNode :: "'v node_heap \<Rightarrow> 'v list_hd \<Rightarrow> nat option \<Rightarrow> ('v node_heap \<times> 'v list_hd) option" where
  "listDelNode h l node =
     do {
       a \<leftarrow> node;
       n \<leftarrow> h a;
       (h1, l1) \<leftarrow> (if prev n \<noteq> None then map_option (\<lambda>h. (h, l)) (upd_node h (prev n) (\<lambda>x. x\<lparr>nxt := nxt n\<rparr>))
                    else Some (h, l\<lparr>head := nxt n\<rparr>));
       n1 \<leftarrow> h1 a;
       (h2, l2) \<leftarrow> (if nxt n1 \<noteq> None then map_option (\<lambda>h. (h, l1)) (upd_node h1 (nxt n1) (\<lambda>x. x\<lparr>prev := prev n1\<rparr>))
                    else Some (h1, l1\<lparr>tail := prev n1\<rparr>));
       Some (h2(a := None), l2\<lparr>len := len l2 - 1\<rparr>)
     }"

definition listGetIterator :: "'v list_hd \<Rightarrow> bool \<Rightarrow> listIter" where
  "listGetIterator l dir = \<lparr>it_nxt = (if dir then head l else tail l), direction = dir\<rparr>"

definition listRewind :: "'v list_hd \<Rightarrow> listIter" where
  "listRewind l = \<lparr>it_nxt = head l, direction = True\<rparr>"

definition listRewindTail :: "'v list_hd \<Rightarrow> listIter" where
  "listRewindTail l = \<lparr>it_nxt = tail l, direction = False\<rparr>"

definition listNext :: "'v node_heap \<Rightarrow> listIter \<Rightarrow> (nat option \<times> listIter) option" where
  "listNext h it =
     (case it_nxt it of
        None \<Rightarrow> Some (None, it)
      | Some a \<Rightarrow> do { n \<leftarrow> h a; Some (Some a, it\<lparr>it_nxt := if direction it then nxt n else prev n\<rparr>) })"

text \<open>The copy loop of \<^verbatim>\<open>listDup\<close>; \<open>as\<close> are the addresses the allocator returns. The outer \<^term>\<open>None\<close> is
  undefined behaviour, the inner one the null result.\<close>

partial_function (option) listDup_loop :: "nat list \<Rightarrow> 'v node_heap \<Rightarrow> 'v list_hd \<Rightarrow> listIter \<Rightarrow>
    ('v node_heap \<times> 'v list_hd option) option" where
  "listDup_loop as h copy it =
     do {
       (node, it') \<leftarrow> listNext h it;
       if node = None then Some (h, Some copy)
       else do {
         n \<leftarrow> node_at h node;
         case (case dup copy of Some f \<Rightarrow> f (node_value n) | None \<Rightarrow> Some (node_value n)) of
           None \<Rightarrow> do { (h', l') \<leftarrow> listEmpty h copy; Some (h', None) }
         | Some v \<Rightarrow> do {
             (h', copy') \<leftarrow> listAddNodeTail (hd as) h copy v;
             listDup_loop (tl as) h' copy' it'
           }
       }
     }"

declare listDup_loop.simps [code]

definition listDup :: "nat list \<Rightarrow> 'v node_heap \<Rightarrow> 'v list_hd \<Rightarrow> ('v node_heap \<times> 'v list_hd option) option" where
  "listDup as h orig = listDup_loop as h ((listCreate ())\<lparr>dup := dup orig, mtch := mtch orig\<rparr>) (listRewind orig)"

partial_function (option) listSearchKey_loop :: "'v node_heap \<Rightarrow> 'v list_hd \<Rightarrow> 'v \<Rightarrow> listIter \<Rightarrow> nat option option" where
  "listSearchKey_loop h l key it =
     do {
       (node, it') \<leftarrow> listNext h it;
       if node = None then Some None
       else do {
         n \<leftarrow> node_at h node;
         if (case mtch l of Some f \<Rightarrow> f (node_value n) key | None \<Rightarrow> key = node_value n) then Some node
         else listSearchKey_loop h l key it'
       }
     }"

declare listSearchKey_loop.simps [code]

definition listSearchKey :: "'v node_heap \<Rightarrow> 'v list_hd \<Rightarrow> 'v \<Rightarrow> nat option option" where
  "listSearchKey h l key = listSearchKey_loop h l key (listRewind l)"

fun listIndex_loop :: "'v node_heap \<Rightarrow> bool \<Rightarrow> nat \<Rightarrow> nat option \<Rightarrow> nat option option" where
  "listIndex_loop h fwd 0 n = Some n"
| "listIndex_loop h fwd (Suc i) n =
     (case n of None \<Rightarrow> Some None
      | Some a \<Rightarrow> do { x \<leftarrow> h a; listIndex_loop h fwd i (if fwd then nxt x else prev x) })"

definition listIndex :: "'v node_heap \<Rightarrow> 'v list_hd \<Rightarrow> int \<Rightarrow> nat option option" where
  "listIndex h l index =
     (if index < 0 then listIndex_loop h False (nat ((- index) - 1)) (tail l)
      else listIndex_loop h True (nat index) (head l))"

definition listRotateTailToHead :: "'v node_heap \<Rightarrow> 'v list_hd \<Rightarrow> ('v node_heap \<times> 'v list_hd) option" where
  "listRotateTailToHead h l =
     (if len l \<le> 1 then Some (h, l)
      else do {
        let t = tail l;
        n \<leftarrow> node_at h t;
        let l1 = l\<lparr>tail := prev n\<rparr>;
        h1 \<leftarrow> upd_node h (tail l1) (\<lambda>x. x\<lparr>nxt := None\<rparr>);
        h2 \<leftarrow> upd_node h1 (head l1) (\<lambda>x. x\<lparr>prev := t\<rparr>);
        h3 \<leftarrow> upd_node h2 t (\<lambda>x. x\<lparr>prev := None\<rparr>);
        h4 \<leftarrow> upd_node h3 t (\<lambda>x. x\<lparr>nxt := head l1\<rparr>);
        Some (h4, l1\<lparr>head := t\<rparr>)
      })"

definition listRotateHeadToTail :: "'v node_heap \<Rightarrow> 'v list_hd \<Rightarrow> ('v node_heap \<times> 'v list_hd) option" where
  "listRotateHeadToTail h l =
     (if len l \<le> 1 then Some (h, l)
      else do {
        let hd = head l;
        n \<leftarrow> node_at h hd;
        let l1 = l\<lparr>head := nxt n\<rparr>;
        h1 \<leftarrow> upd_node h (head l1) (\<lambda>x. x\<lparr>prev := None\<rparr>);
        h2 \<leftarrow> upd_node h1 (tail l1) (\<lambda>x. x\<lparr>nxt := hd\<rparr>);
        h3 \<leftarrow> upd_node h2 hd (\<lambda>x. x\<lparr>nxt := None\<rparr>);
        h4 \<leftarrow> upd_node h3 hd (\<lambda>x. x\<lparr>prev := tail l1\<rparr>);
        Some (h4, l1\<lparr>tail := hd\<rparr>)
      })"

definition listJoin :: "'v node_heap \<Rightarrow> 'v list_hd \<Rightarrow> 'v list_hd \<Rightarrow> ('v node_heap \<times> 'v list_hd \<times> 'v list_hd) option" where
  "listJoin h l ot =
     do {
       h1 \<leftarrow> (if head ot \<noteq> None then upd_node h (head ot) (\<lambda>x. x\<lparr>prev := tail l\<rparr>) else Some h);
       (h2, l1) \<leftarrow> (if tail l \<noteq> None then map_option (\<lambda>h. (h, l)) (upd_node h1 (tail l) (\<lambda>x. x\<lparr>nxt := head ot\<rparr>))
                    else Some (h1, l\<lparr>head := head ot\<rparr>));
       let l2 = (if tail ot \<noteq> None then l1\<lparr>tail := tail ot\<rparr> else l1);
       Some (h2, l2\<lparr>len := len l2 + len ot\<rparr>, ot\<lparr>head := None, tail := None, len := 0\<rparr>)
     }"

section \<open>Lists in the heap\<close>

text \<open>
  \<open>dseg h p xs q\<close>: the addresses and values \<open>xs\<close> are linked in \<open>h\<close>, with \<open>p\<close> as the predecessor of the first
  and \<open>q\<close> as the successor of the last node.
\<close>

definition first_or :: "(nat \<times> 'v) list \<Rightarrow> nat option \<Rightarrow> nat option" where
  "first_or xs q = (case xs of [] \<Rightarrow> q | x # _ \<Rightarrow> Some (fst x))"

definition last_or :: "nat option \<Rightarrow> (nat \<times> 'v) list \<Rightarrow> nat option" where
  "last_or p xs = (if xs = [] then p else Some (fst (last xs)))"

fun dseg :: "'v node_heap \<Rightarrow> nat option \<Rightarrow> (nat \<times> 'v) list \<Rightarrow> nat option \<Rightarrow> bool" where
  "dseg h p [] q = True"
| "dseg h p (x # xs) q \<longleftrightarrow> h (fst x) = Some \<lparr>prev = p, nxt = first_or xs q, node_value = snd x\<rparr> \<and> dseg h (Some (fst x)) xs q"

definition lrep :: "'v node_heap \<Rightarrow> 'v list_hd \<Rightarrow> (nat \<times> 'v) list \<Rightarrow> bool" where
  "lrep h l xs \<longleftrightarrow> dseg h None xs None \<and> distinct (map fst xs) \<and> head l = first_or xs None \<and> tail l = last_or None xs \<and>
     len l = length xs"

lemma first_or_simps [simp]: "first_or [] q = q" "first_or (x # xs) q = Some (fst x)" "first_or (xs @ ys) q = first_or xs (first_or ys q)"
  by (auto simp: first_or_def split: list.splits)

lemma last_or_simps [simp]: "last_or p [] = p" "last_or p (x # xs) = last_or (Some (fst x)) xs" "last_or p (xs @ ys) = last_or (last_or p xs) ys"
  by (auto simp: last_or_def)

lemma first_or_ne: "xs \<noteq> [] \<Longrightarrow> first_or xs q = Some (fst (hd xs))"
  by (cases xs) simp_all

lemma last_or_ne: "xs \<noteq> [] \<Longrightarrow> last_or p xs = Some (fst (last xs))"
  by (simp add: last_or_def)

lemma dseg_append: "dseg h p (xs @ ys) q \<longleftrightarrow> dseg h p xs (first_or ys q) \<and> dseg h (last_or p xs) ys q"
  by (induction xs arbitrary: p) simp_all

lemma dseg_frame: "dseg h p xs q \<Longrightarrow> (\<And>a. a \<in> fst ` set xs \<Longrightarrow> h' a = h a) \<Longrightarrow> dseg h' p xs q"
  by (induction xs arbitrary: p) simp_all

lemma dseg_upd [simp]: "a \<notin> fst ` set xs \<Longrightarrow> dseg (h(a := n)) p xs q = dseg h p xs q"
  by (induction xs arbitrary: p) simp_all

definition same_out :: "nat set \<Rightarrow> 'v node_heap \<Rightarrow> 'v node_heap \<Rightarrow> bool" where
  "same_out A h h' \<longleftrightarrow> (\<forall>a. a \<notin> A \<longrightarrow> h' a = h a)"

abbreviation addrs :: "(nat \<times> 'v) list \<Rightarrow> nat set" where
  "addrs xs \<equiv> fst ` set xs"

lemma dseg_upd_prev:
  assumes "dseg h p xs q" "distinct (map fst xs)" "xs \<noteq> []"
  shows "\<exists>h'. upd_node h (first_or xs q0) (\<lambda>n. n\<lparr>prev := p'\<rparr>) = Some h' \<and> dseg h' p' xs q \<and> same_out {fst (hd xs)} h h'"
  using assms by (cases xs) (auto simp: upd_node_def same_out_def)

lemma dseg_upd_next:
  assumes "dseg h p xs q" "distinct (map fst xs)" "xs \<noteq> []"
  shows "\<exists>h'. upd_node h (last_or p0 xs) (\<lambda>n. n\<lparr>nxt := q'\<rparr>) = Some h' \<and> dseg h' p xs q' \<and> same_out {fst (last xs)} h h'"
proof -
  obtain ys y where xs: "xs = ys @ [y]" using assms(3) by (metis rev_exhaust)
  show ?thesis using assms(1,2) by (auto simp: xs dseg_append upd_node_def same_out_def)
qed

lemma same_out_dseg: "same_out A h h' \<Longrightarrow> A \<inter> addrs xs = {} \<Longrightarrow> dseg h p xs q \<Longrightarrow> dseg h' p xs q"
  using dseg_frame [of h p xs q h'] unfolding same_out_def by blast

lemma same_out_trans: "same_out A h h1 \<Longrightarrow> same_out B h1 h2 \<Longrightarrow> A \<union> B \<subseteq> C \<Longrightarrow> same_out C h h2"
  unfolding same_out_def by (metis UnCI subsetD)

lemma same_out_mono: "same_out A h h' \<Longrightarrow> A \<subseteq> B \<Longrightarrow> same_out B h h'"
  unfolding same_out_def by blast

lemma same_out_upd: "a \<in> A \<Longrightarrow> same_out A h (h(a := n))"
  by (simp add: same_out_def)

definition same_methods :: "'v list_hd \<Rightarrow> 'v list_hd \<Rightarrow> bool" where
  "same_methods l l' \<longleftrightarrow> dup l' = dup l \<and> mtch l' = mtch l"

lemma hd_in_addrs: "xs \<noteq> [] \<Longrightarrow> fst (hd xs) \<in> addrs xs" "xs \<noteq> [] \<Longrightarrow> fst (last xs) \<in> addrs xs"
  by auto

lemma last_or_self: "b \<notin> addrs xs \<Longrightarrow> last_or (Some b) xs = Some b \<longleftrightarrow> xs = []"
  by (metis hd_in_addrs(2) last_or_ne last_or_simps(1) option.inject)

lemma first_or_self: "b \<notin> addrs xs \<Longrightarrow> first_or xs (Some b) = Some b \<longleftrightarrow> xs = []"
  by (metis hd_in_addrs(1) first_or_ne first_or_simps(1) option.inject)

lemma list_add_head_correct:
  assumes rep: "lrep h l xs" and fresh: "node \<notin> addrs xs"
  shows "\<exists>h' l'. listAddNodeHead node h l v = Some (h', l') \<and> lrep h' l' ((node, v) # xs) \<and>
    same_out (insert node (addrs xs)) h h' \<and> same_methods l l'"
proof (cases "xs = []")
  case True
  then show ?thesis using rep by (simp add: listAddNodeHead_def lrep_def same_out_def same_methods_def)
next
  case False
  let ?h1 = "h(node \<mapsto> \<lparr>prev = None, nxt = head l, node_value = v\<rparr>)"
  have "dseg ?h1 None xs None" "distinct (map fst xs)" using rep fresh by (simp_all add: lrep_def)
  from dseg_upd_prev [OF this False, of None "Some node"] obtain h2 where
    h2: "upd_node ?h1 (head l) (\<lambda>n. n\<lparr>prev := Some node\<rparr>) = Some h2" "dseg h2 (Some node) xs None" "same_out {fst (hd xs)} ?h1 h2"
    using rep by (auto simp: lrep_def)
  have ne: "fst (hd xs) \<noteq> node" using fresh False by auto
  have "listAddNodeHead node h l v = Some (h2, l\<lparr>head := Some node, len := len l + 1\<rparr>)"
    using rep False h2(1) by (simp add: listAddNodeHead_def lrep_def)
  moreover have "lrep h2 (l\<lparr>head := Some node, len := len l + 1\<rparr>) ((node, v) # xs)"
    using rep h2(2,3) ne fresh False by (auto simp: lrep_def same_out_def last_or_def)
  moreover have "same_out (insert node (addrs xs)) h h2"
    by (rule same_out_trans [OF same_out_upd [of node "{node}"] h2(3)]) (use False in auto)
  ultimately show ?thesis by (auto simp: same_methods_def)
qed

lemma list_add_tail_correct:
  assumes rep: "lrep h l xs" and fresh: "node \<notin> addrs xs"
  shows "\<exists>h' l'. listAddNodeTail node h l v = Some (h', l') \<and> lrep h' l' (xs @ [(node, v)]) \<and>
    same_out (insert node (addrs xs)) h h' \<and> same_methods l l'"
proof (cases "xs = []")
  case True
  then show ?thesis using rep by (simp add: listAddNodeTail_def lrep_def same_out_def same_methods_def)
next
  case False
  let ?h1 = "h(node \<mapsto> \<lparr>prev = tail l, nxt = None, node_value = v\<rparr>)"
  have "dseg ?h1 None xs None" "distinct (map fst xs)" using rep fresh by (simp_all add: lrep_def)
  from dseg_upd_next [OF this False, of None "Some node"] obtain h2 where
    h2: "upd_node ?h1 (tail l) (\<lambda>n. n\<lparr>nxt := Some node\<rparr>) = Some h2" "dseg h2 None xs (Some node)" "same_out {fst (last xs)} ?h1 h2"
    using rep by (auto simp: lrep_def)
  have ne: "fst (last xs) \<noteq> node" using fresh False by auto
  have "listAddNodeTail node h l v = Some (h2, l\<lparr>tail := Some node, len := len l + 1\<rparr>)"
    using rep False h2(1) by (simp add: listAddNodeTail_def lrep_def)
  moreover have "lrep h2 (l\<lparr>tail := Some node, len := len l + 1\<rparr>) (xs @ [(node, v)])"
    using rep h2(2,3) ne fresh False by (auto simp: lrep_def same_out_def dseg_append first_or_def split: list.splits)
  moreover have "same_out (insert node (addrs xs)) h h2"
    by (rule same_out_trans [OF same_out_upd [of node "{node}"] h2(3)]) (use False in auto)
  ultimately show ?thesis by (auto simp: same_methods_def)
qed

text \<open>Redirecting the last \<^verbatim>\<open>next\<close> or the first \<^verbatim>\<open>prev\<close> pointer of a segment, if it has one.\<close>

lemma link_next:
  assumes "dseg h None ps q" "distinct (map fst ps)"
  shows "\<exists>h'. (if last_or None ps \<noteq> None then upd_node h (last_or None ps) (\<lambda>x. x\<lparr>nxt := q'\<rparr>) else Some h) = Some h' \<and>
    dseg h' None ps q' \<and> same_out (addrs ps) h h'"
proof (cases "ps = []")
  case True
  then show ?thesis by (simp add: same_out_def)
next
  case False
  obtain h' where u: "upd_node h (last_or None ps) (\<lambda>x. x\<lparr>nxt := q'\<rparr>) = Some h'" "dseg h' None ps q'" "same_out {fst (last ps)} h h'"
    using dseg_upd_next [OF assms False] by blast
  have "same_out (addrs ps) h h'" using same_out_mono [OF u(3)] hd_in_addrs(2) [OF False] by simp
  then show ?thesis using u False by (simp add: last_or_ne)
qed

lemma link_prev:
  assumes "dseg h p qs None" "distinct (map fst qs)"
  shows "\<exists>h'. (if first_or qs None \<noteq> None then upd_node h (first_or qs None) (\<lambda>x. x\<lparr>prev := p'\<rparr>) else Some h) = Some h' \<and>
    dseg h' p' qs None \<and> same_out (addrs qs) h h'"
proof (cases "qs = []")
  case True
  then show ?thesis by (simp add: same_out_def)
next
  case False
  obtain h' where u: "upd_node h (first_or qs None) (\<lambda>x. x\<lparr>prev := p'\<rparr>) = Some h'" "dseg h' p' qs None" "same_out {fst (hd qs)} h h'"
    using dseg_upd_prev [OF assms False] by blast
  have "same_out (addrs qs) h h'" using same_out_mono [OF u(3)] hd_in_addrs(1) [OF False] by simp
  then show ?thesis using u False by (simp add: first_or_ne)
qed

text \<open>Insertion before or after a node.\<close>

lemma list_insert_correct:
  assumes rep: "lrep h l (ys @ (b, w) # zs)" and fresh: "node \<notin> addrs (ys @ (b, w) # zs)"
  shows "\<exists>h' l'. listInsertNode node h l (Some b) v after = Some (h', l') \<and>
    lrep h' l' (if after then ys @ (b, w) # (node, v) # zs else ys @ (node, v) # (b, w) # zs) \<and>
    same_out (insert node (addrs (ys @ (b, w) # zs))) h h' \<and> same_methods l l'"
proof -
  define ps where "ps = (if after then ys @ [(b, w)] else ys)"
  define qs where "qs = (if after then zs else (b, w) # zs)"
  have psqs: "ps @ qs = ys @ (b, w) # zs" by (simp add: ps_def qs_def)
  have rep': "lrep h l (ps @ qs)" and fresh': "node \<notin> addrs (ps @ qs)" using rep fresh psqs by simp_all
  define n where "n = \<lparr>prev = last_or None ps, nxt = first_or qs None, node_value = v\<rparr>"
  have d: "dseg h None ps (first_or qs None)" "dseg h (last_or None ps) qs None" "distinct (map fst (ps @ qs))"
    using rep' by (simp_all add: lrep_def dseg_append)
  have disj: "addrs ps \<inter> addrs qs = {}" "node \<notin> addrs ps" "node \<notin> addrs qs" using d(3) fresh' by auto
  let ?h1 = "h(node \<mapsto> n)"
  have d1: "dseg ?h1 None ps (first_or qs None)" "dseg ?h1 (last_or None ps) qs None" using d fresh' by (simp_all add: image_Un)
  have dist: "distinct (map fst ps)" "distinct (map fst qs)" using d(3) by simp_all
  obtain h2 where h2: "(if last_or None ps \<noteq> None then upd_node ?h1 (last_or None ps) (\<lambda>x. x\<lparr>nxt := Some node\<rparr>) else Some ?h1) = Some h2"
    "dseg h2 None ps (Some node)" "same_out (addrs ps) ?h1 h2"
    using link_next [OF d1(1) dist(1)] by blast
  have "addrs ps \<inter> addrs qs = {}" by (rule disj(1))
  note d2 = same_out_dseg [OF h2(3) this d1(2)]
  obtain h3 where h3: "(if first_or qs None \<noteq> None then upd_node h2 (first_or qs None) (\<lambda>x. x\<lparr>prev := Some node\<rparr>) else Some h2) = Some h3"
    "dseg h3 (Some node) qs None" "same_out (addrs qs) h2 h3"
    using link_prev [OF d2 dist(2)] by blast
  have d3: "dseg h3 None ps (Some node)" using same_out_dseg [OF h3(3) _ h2(2)] disj(1) by (simp add: Int_commute)
  have hn: "h3 node = Some n" using h2(3) h3(3) disj(2,3) by (simp add: same_out_def)
  define l' where "l' = l\<lparr>head := first_or ps (Some node), tail := last_or (Some node) qs, len := len l + 1\<rparr>"
  have hb: "h b = Some \<lparr>prev = last_or None ys, nxt = first_or zs None, node_value = w\<rparr>"
    using rep by (simp add: lrep_def dseg_append)
  have nb: "(if after then \<lparr>prev = Some b, nxt = first_or zs None, node_value = v\<rparr>
      else \<lparr>prev = last_or None ys, nxt = Some b, node_value = v\<rparr>) = n"
    by (simp add: n_def ps_def qs_def)
  have "distinct (map fst (ys @ (b, w) # zs))" using rep by (simp add: lrep_def)
  then have bys: "b \<notin> addrs ys" "b \<notin> addrs zs" by simp_all
  have tl: "(last_or (Some b) zs = Some b) = (zs = [])" "(first_or ys (Some b) = Some b) = (ys = [])"
    using last_or_self [OF bys(2)] first_or_self [OF bys(1)] by simp_all
  have lh: "(let l1 = (if after then if tail l = Some b then l\<lparr>tail := Some node\<rparr> else l
      else if head l = Some b then l\<lparr>head := Some node\<rparr> else l) in l1\<lparr>len := len l1 + 1\<rparr>) = l'"
  proof (cases "after")
    case True
    then have "tail l = last_or (Some b) zs" "head l = first_or ps (Some node)" using rep by (simp_all add: lrep_def ps_def)
    then show ?thesis using True tl(1) last_or_ne [of zs] by (cases "zs = []") (simp_all add: l'_def qs_def)
  next
    case False
    then have "head l = first_or ys (Some b)" "tail l = last_or (Some node) qs" using rep by (simp_all add: lrep_def qs_def)
    then show ?thesis using False tl(2) first_or_ne [of ys] by (cases "ys = []") (simp_all add: l'_def ps_def)
  qed
  have pn: "prev n = last_or None ps" "nxt n = first_or qs None" by (simp_all add: n_def)
  have "listInsertNode node h l (Some b) v after = Some (h3, l')"
    by (simp only: listInsertNode_def node_at_def bind.bind_lunit hb listNode.select_convs nb pn h2(1) h3(1)
      lh [unfolded Let_def] Let_def)
  moreover have "distinct (map fst (ps @ (node, v) # qs))" using d(3) disj by simp
  then have "lrep h3 l' (ps @ (node, v) # qs)"
    using h3(2) d3 hn rep' by (simp add: lrep_def dseg_append n_def l'_def)
  moreover have "ps @ (node, v) # qs = (if after then ys @ (b, w) # (node, v) # zs else ys @ (node, v) # (b, w) # zs)"
    by (simp add: ps_def qs_def)
  moreover have "same_out (insert node (addrs (ps @ qs))) h h3"
    by (rule same_out_trans [OF same_out_trans [OF same_out_upd [of node "{node}"] h2(3) subset_refl] h3(3)]) auto
  ultimately show ?thesis unfolding psqs by (auto simp: same_methods_def l'_def)
qed

lemma list_del_correct:
  assumes rep: "lrep h l (ys @ (b, w) # zs)"
  shows "\<exists>h' l'. listDelNode h l (Some b) = Some (h', l') \<and> lrep h' l' (ys @ zs) \<and> h' b = None \<and>
    same_out (addrs (ys @ (b, w) # zs)) h h' \<and> same_methods l l'"
proof -
  let ?p = "last_or None ys" and ?q = "first_or zs None"
  have d: "dseg h None ys (Some b)" "h b = Some \<lparr>prev = ?p, nxt = ?q, node_value = w\<rparr>" "dseg h (Some b) zs None"
    and dist: "distinct (map fst ys)" "distinct (map fst zs)" "b \<notin> addrs ys" "b \<notin> addrs zs" "addrs ys \<inter> addrs zs = {}"
    using rep by (simp_all add: lrep_def dseg_append Int_commute)
  obtain h1 where h1: "(if ?p \<noteq> None then upd_node h ?p (\<lambda>x. x\<lparr>nxt := ?q\<rparr>) else Some h) = Some h1"
    "dseg h1 None ys ?q" "same_out (addrs ys) h h1" using link_next [OF d(1) dist(1)] by blast
  have b1: "h1 b = Some \<lparr>prev = ?p, nxt = ?q, node_value = w\<rparr>" using h1(3) d(2) dist(3) by (simp add: same_out_def)
  obtain h2 where h2: "(if ?q \<noteq> None then upd_node h1 ?q (\<lambda>x. x\<lparr>prev := ?p\<rparr>) else Some h1) = Some h2"
    "dseg h2 ?p zs None" "same_out (addrs zs) h1 h2"
    using link_prev [OF same_out_dseg [OF h1(3) dist(5) d(3)] dist(2)] by blast
  have d2: "dseg h2 None ys ?q" using same_out_dseg [OF h2(3) _ h1(2)] dist(5) by (simp add: Int_commute)
  define l1 where "l1 = (if ?p \<noteq> None then l else l\<lparr>head := ?q\<rparr>)"
  define l2 where "l2 = (if ?q \<noteq> None then l1 else l1\<lparr>tail := ?p\<rparr>)"
  have s1: "(if ?p \<noteq> None then map_option (\<lambda>h. (h, l)) (upd_node h ?p (\<lambda>x. x\<lparr>nxt := ?q\<rparr>)) else Some (h, l\<lparr>head := ?q\<rparr>)) = Some (h1, l1)"
    using h1(1) by (simp add: l1_def split: if_splits)
  have s2: "(if ?q \<noteq> None then map_option (\<lambda>h. (h, l1)) (upd_node h1 ?q (\<lambda>x. x\<lparr>prev := ?p\<rparr>)) else Some (h1, l1\<lparr>tail := ?p\<rparr>)) = Some (h2, l2)"
    using h2(1) by (simp add: l2_def split: if_splits)
  have "listDelNode h l (Some b) = Some (h2(b := None), l2\<lparr>len := len l2 - 1\<rparr>)"
    by (simp only: listDelNode_def bind.bind_lunit d(2) b1 listNode.select_convs s1 s2 prod.case)
  moreover have "lrep (h2(b := None)) (l2\<lparr>len := len l2 - 1\<rparr>) (ys @ zs)"
  proof -
    have "head l2 = first_or ys ?q" "tail l2 = last_or ?p zs" "len l2 = Suc (length ys + length zs)"
      using rep by (cases "ys = []"; cases "zs = []"; simp add: l1_def l2_def lrep_def first_or_ne last_or_ne)+
    then show ?thesis using d2 h2(2) dist rep by (simp add: lrep_def dseg_append)
  qed
  moreover have "same_out (addrs (ys @ (b, w) # zs)) h (h2(b := None))"
    by (rule same_out_trans [OF same_out_trans [OF h1(3) h2(3) subset_refl] same_out_upd [of b "{b}"]]) auto
  moreover have "same_methods l (l2\<lparr>len := len l2 - 1\<rparr>)" by (simp add: same_methods_def l1_def l2_def)
  ultimately show ?thesis by auto
qed

lemma list_nth_split: "i < length xs \<Longrightarrow> xs = take i xs @ (fst (xs ! i), snd (xs ! i)) # drop (Suc i) xs"
  by (simp add: id_take_nth_drop)

text \<open>Walking from either end.\<close>

lemma list_index_fwd: "dseg h p xs None \<Longrightarrow> listIndex_loop h True i (first_or xs None) = Some (first_or (drop i xs) None)"
proof (induction xs arbitrary: i p)
  case Nil
  then show ?case by (cases i) simp_all
next
  case (Cons x xs)
  then show ?case by (cases i) auto
qed

lemma list_index_bwd: "dseg h None xs q \<Longrightarrow> listIndex_loop h False i (last_or None xs) = Some (last_or None (take (length xs - i) xs))"
proof (induction xs arbitrary: i q rule: rev_induct)
  case Nil
  then show ?case by (cases i) simp_all
next
  case (snoc x xs)
  then show ?case by (cases i) (auto simp: dseg_append)
qed

lemma listIndex_correct:
  assumes "lrep h l xs"
  shows "listIndex h l k =
    Some (if 0 \<le> k \<and> k < int (length xs) then Some (fst (xs ! nat k))
          else if k < 0 \<and> - k \<le> int (length xs) then Some (fst (xs ! nat (int (length xs) + k))) else None)"
proof (cases "k < 0")
  case True
  let ?i = "nat (- k - 1)"
  have "listIndex h l k = Some (last_or None (take (length xs - ?i) xs))"
    using list_index_bwd [of h xs None ?i] assms True by (simp add: listIndex_def lrep_def)
  moreover have "last_or None (take (length xs - ?i) xs) = Some (fst (xs ! nat (int (length xs) + k)))" if "- k \<le> int (length xs)"
  proof -
    have e: "length xs - ?i = Suc (nat (int (length xs) + k))" "nat (int (length xs) + k) < length xs" using that True by linarith+
    then show ?thesis by (simp add: e(1) take_Suc_conv_app_nth)
  qed
  moreover have "last_or None (take (length xs - ?i) xs) = None" if "\<not> - k \<le> int (length xs)"
    using that by simp
  ultimately show ?thesis using True by auto
next
  case False
  then show ?thesis
    using list_index_fwd [of h None xs "nat k"] assms
    by (cases "nat k < length xs") (auto simp: listIndex_def lrep_def Cons_nth_drop_Suc [symmetric])
qed

lemma list_search_loop: "dseg h p xs None \<Longrightarrow>
  listSearchKey_loop h l key \<lparr>it_nxt = first_or xs None, direction = True\<rparr> =
    Some (map_option fst (find (\<lambda>x. case mtch l of Some f \<Rightarrow> f (snd x) key | None \<Rightarrow> key = snd x) xs))"
proof (induction xs arbitrary: p)
  case Nil
  then show ?case by (subst listSearchKey_loop.simps) (simp add: listNext_def)
next
  case (Cons x xs)
  then show ?case by (subst listSearchKey_loop.simps) (auto simp: listNext_def node_at_def cong: option.case_cong)
qed

lemma list_empty_loop: "dseg h p xs q \<Longrightarrow> distinct (map fst xs) \<Longrightarrow>
  listEmpty_loop (length xs) (first_or xs q) h = Some (\<lambda>a. if a \<in> addrs xs then None else h a)"
proof (induction xs arbitrary: p h)
  case Nil
  then show ?case by simp
next
  case (Cons x xs)
  then have "dseg (h(fst x := None)) (Some (fst x)) xs q" by simp
  then show ?case using Cons by (auto simp: fun_eq_iff)
qed

lemma list_empty_correct:
  assumes "lrep h l xs"
  shows "listEmpty h l = Some (\<lambda>a. if a \<in> addrs xs then None else h a, l\<lparr>head := None, tail := None, len := 0\<rparr>)"
  using assms list_empty_loop [of h None xs None] by (simp add: listEmpty_def lrep_def)

lemma list_rotate_tail_correct:
  assumes rep: "lrep h l (zs @ [t])"
  shows "\<exists>h' l'. listRotateTailToHead h l = Some (h', l') \<and> lrep h' l' (t # zs) \<and>
    same_out (addrs (zs @ [t])) h h' \<and> same_methods l l'"
proof (cases "zs = []")
  case True
  then show ?thesis using rep by (simp add: listRotateTailToHead_def lrep_def same_out_def same_methods_def)
next
  case False
  let ?t = "fst t"
  have d: "dseg h None zs (Some ?t)" "h ?t = Some \<lparr>prev = last_or None zs, nxt = None, node_value = snd t\<rparr>"
    and dist: "distinct (map fst zs)" "?t \<notin> addrs zs" and l: "head l = first_or zs None" "tail l = Some ?t" "len l = Suc (length zs)"
    using rep False by (simp_all add: lrep_def dseg_append first_or_ne)
  obtain h1 where h1: "upd_node h (last_or None zs) (\<lambda>x. x\<lparr>nxt := None\<rparr>) = Some h1" "dseg h1 None zs None" "same_out {fst (last zs)} h h1"
    using dseg_upd_next [OF d(1) dist(1) False] by blast
  obtain h2 where h2: "upd_node h1 (first_or zs None) (\<lambda>x. x\<lparr>prev := Some ?t\<rparr>) = Some h2" "dseg h2 (Some ?t) zs None" "same_out {fst (hd zs)} h1 h2"
    using dseg_upd_prev [OF h1(2) dist(1) False] by blast
  have "fst (last zs) \<noteq> ?t" "fst (hd zs) \<noteq> ?t" using dist(2) hd_in_addrs [OF False] by (metis, metis)
  then have t2: "h2 ?t = Some \<lparr>prev = last_or None zs, nxt = None, node_value = snd t\<rparr>"
    using d(2) h1(3) h2(3) by (simp add: same_out_def)
  let ?h4 = "h2(?t \<mapsto> \<lparr>prev = None, nxt = first_or zs None, node_value = snd t\<rparr>)"
  have "listRotateTailToHead h l = Some (?h4, l\<lparr>tail := last_or None zs, head := Some ?t\<rparr>)"
    using False by (simp add: listRotateTailToHead_def l node_at_def d(2) h1(1) h2(1) upd_node_def [of _ "Some ?t"] t2)
  moreover have "lrep ?h4 (l\<lparr>tail := last_or None zs, head := Some ?t\<rparr>) (t # zs)"
    using dist h2(2) l False by (simp add: lrep_def last_or_ne)
  moreover have "same_out (addrs (zs @ [t])) h ?h4"
    by (rule same_out_trans [OF same_out_trans [OF h1(3) h2(3) subset_refl] same_out_upd [of ?t "{?t}"]])
      (use hd_in_addrs [OF False] in auto)
  ultimately show ?thesis by (auto simp: same_methods_def)
qed

lemma list_rotate_head_correct:
  assumes rep: "lrep h l (t # zs)"
  shows "\<exists>h' l'. listRotateHeadToTail h l = Some (h', l') \<and> lrep h' l' (zs @ [t]) \<and>
    same_out (addrs (t # zs)) h h' \<and> same_methods l l'"
proof (cases "zs = []")
  case True
  then show ?thesis using rep by (simp add: listRotateHeadToTail_def lrep_def same_out_def same_methods_def)
next
  case False
  let ?t = "fst t"
  have d: "dseg h (Some ?t) zs None" "h ?t = Some \<lparr>prev = None, nxt = first_or zs None, node_value = snd t\<rparr>"
    and dist: "distinct (map fst zs)" "?t \<notin> addrs zs" and l: "head l = Some ?t" "tail l = last_or None zs" "len l = Suc (length zs)"
    using rep False by (simp_all add: lrep_def last_or_ne)
  obtain h1 where h1: "upd_node h (first_or zs None) (\<lambda>x. x\<lparr>prev := None\<rparr>) = Some h1" "dseg h1 None zs None" "same_out {fst (hd zs)} h h1"
    using dseg_upd_prev [OF d(1) dist(1) False] by blast
  obtain h2 where h2: "upd_node h1 (last_or None zs) (\<lambda>x. x\<lparr>nxt := Some ?t\<rparr>) = Some h2" "dseg h2 None zs (Some ?t)" "same_out {fst (last zs)} h1 h2"
    using dseg_upd_next [OF h1(2) dist(1) False] by blast
  have "fst (last zs) \<noteq> ?t" "fst (hd zs) \<noteq> ?t" using dist(2) hd_in_addrs [OF False] by (metis, metis)
  then have t2: "h2 ?t = Some \<lparr>prev = None, nxt = first_or zs None, node_value = snd t\<rparr>"
    using d(2) h1(3) h2(3) by (simp add: same_out_def)
  let ?h4 = "h2(?t \<mapsto> \<lparr>prev = last_or None zs, nxt = None, node_value = snd t\<rparr>)"
  have "listRotateHeadToTail h l = Some (?h4, l\<lparr>head := first_or zs None, tail := Some ?t\<rparr>)"
    using False by (simp add: listRotateHeadToTail_def l node_at_def d(2) h1(1) h2(1) upd_node_def [of _ "Some ?t"] t2)
  moreover have "lrep ?h4 (l\<lparr>head := first_or zs None, tail := Some ?t\<rparr>) (zs @ [t])"
    using dist h2(2) l False by (simp add: lrep_def dseg_append first_or_ne)
  moreover have "same_out (addrs (t # zs)) h ?h4"
    by (rule same_out_trans [OF same_out_trans [OF h1(3) h2(3) subset_refl] same_out_upd [of ?t "{?t}"]])
      (use hd_in_addrs [OF False] in auto)
  ultimately show ?thesis by (auto simp: same_methods_def)
qed

lemma list_join_correct:
  assumes repl: "lrep h l xs" and repo: "lrep h k ys" and disj: "addrs xs \<inter> addrs ys = {}"
  shows "\<exists>h' l'. listJoin h l k = Some (h', l', k\<lparr>head := None, tail := None, len := 0\<rparr>) \<and> lrep h' l' (xs @ ys) \<and>
    same_out (addrs xs \<union> addrs ys) h h' \<and> same_methods l l'"
proof -
  have dx: "dseg h None xs None" "distinct (map fst xs)" "head l = first_or xs None" "tail l = last_or None xs" "len l = length xs"
    and dy: "dseg h None ys None" "distinct (map fst ys)" "head k = first_or ys None" "tail k = last_or None ys" "len k = length ys"
    using repl repo by (simp_all add: lrep_def)
  obtain h1 where h1: "(if first_or ys None \<noteq> None then upd_node h (first_or ys None) (\<lambda>x. x\<lparr>prev := tail l\<rparr>) else Some h) = Some h1"
    "dseg h1 (tail l) ys None" "same_out (addrs ys) h h1" using link_prev [OF dy(1,2)] by blast
  have dx1: "dseg h1 None xs None" using same_out_dseg [OF h1(3) _ dx(1)] disj by (simp add: Int_commute)
  obtain h2 where h2: "(if last_or None xs \<noteq> None then upd_node h1 (last_or None xs) (\<lambda>x. x\<lparr>nxt := head k\<rparr>) else Some h1) = Some h2"
    "dseg h2 None xs (head k)" "same_out (addrs xs) h1 h2" using link_next [OF dx1 dx(2)] by blast
  have dy2: "dseg h2 (tail l) ys None" using same_out_dseg [OF h2(3) disj h1(2)] .
  define l1 where "l1 = (if tail l \<noteq> None then l else l\<lparr>head := head k\<rparr>)"
  define l2 where "l2 = (if tail k \<noteq> None then l1\<lparr>tail := tail k\<rparr> else l1)"
  have s1: "(if tail l \<noteq> None then map_option (\<lambda>h. (h, l)) (upd_node h1 (tail l) (\<lambda>x. x\<lparr>nxt := head k\<rparr>)) else Some (h1, l\<lparr>head := head k\<rparr>)) = Some (h2, l1)"
    using h2(1) by (simp add: l1_def dx(4) split: if_splits)
  have "listJoin h l k = Some (h2, l2\<lparr>len := len l2 + len k\<rparr>, k\<lparr>head := None, tail := None, len := 0\<rparr>)"
    using h1(1) s1 unfolding listJoin_def dy(3) [symmetric] by (simp add: l2_def)
  moreover have "head l2 = first_or xs (first_or ys None)" "tail l2 = last_or (last_or None xs) ys" "len l2 = length xs"
    using dx(3-5) dy(3,4) by (cases "xs = []"; cases "ys = []"; simp add: l1_def l2_def first_or_ne last_or_ne)+
  then have "lrep h2 (l2\<lparr>len := len l2 + len k\<rparr>) (xs @ ys)"
    using h2(2) dy2 dx dy disj by (simp add: lrep_def dseg_append)
  moreover have "same_out (addrs xs \<union> addrs ys) h h2"
    by (rule same_out_trans [OF h1(3) h2(3)]) auto
  ultimately show ?thesis by (auto simp: same_methods_def l1_def l2_def)
qed

definition dup_value :: "'v list_hd \<Rightarrow> 'v \<Rightarrow> 'v option" where
  "dup_value l v = (case dup l of Some f \<Rightarrow> f v | None \<Rightarrow> Some v)"

lemma list_dup_loop_correct:
  assumes "lrep h copy cs" "dseg h p xs None" "addrs cs \<inter> addrs xs = {}" "distinct as" "set as \<inter> addrs xs = {}"
    "\<forall>a \<in> set as. h a = None" "length xs \<le> length as"
  shows "case those (map (\<lambda>x. dup_value copy (snd x)) xs) of
      Some vs \<Rightarrow> \<exists>h' copy'. listDup_loop as h copy \<lparr>it_nxt = first_or xs None, direction = True\<rparr> = Some (h', Some copy') \<and>
        lrep h' copy' (cs @ zip as vs) \<and> same_out (addrs cs \<union> set as) h h' \<and> same_methods copy copy'
    | None \<Rightarrow> listDup_loop as h copy \<lparr>it_nxt = first_or xs None, direction = True\<rparr> =
        Some (\<lambda>a. if a \<in> addrs cs then None else h a, None)"
  using assms
proof (induction xs arbitrary: p h copy cs as)
  case Nil
  then show ?case by (subst listDup_loop.simps) (simp add: listNext_def same_out_def same_methods_def)
next
  case (Cons x xs)
  obtain a as' where as: "as = a # as'" using Cons.prems(7) by (cases as) auto
  have hx: "h (fst x) = Some \<lparr>prev = p, nxt = first_or xs None, node_value = snd x\<rparr>" "dseg h (Some (fst x)) xs None"
    using Cons.prems(2) by simp_all
  have unf: "listDup_loop as h copy \<lparr>it_nxt = first_or (x # xs) None, direction = True\<rparr> =
      (case dup_value copy (snd x) of
         None \<Rightarrow> do { (h', l') \<leftarrow> listEmpty h copy; Some (h', None) }
       | Some v \<Rightarrow> do { (h', copy') \<leftarrow> listAddNodeTail a h copy v;
           listDup_loop as' h' copy' \<lparr>it_nxt = first_or xs None, direction = True\<rparr> })"
    by (subst listDup_loop.simps) (simp add: listNext_def node_at_def hx as dup_value_def cong: option.case_cong)
  show ?case
  proof (cases "dup_value copy (snd x)")
    case None
    then show ?thesis using list_empty_correct [OF Cons.prems(1)] by (simp add: unf del: first_or_simps)
  next
    case (Some v)
    have fresh: "a \<notin> addrs cs"
    proof
      assume "a \<in> addrs cs"
      then obtain y where y: "y \<in> set cs" "a = fst y" by auto
      then obtain us ws where "cs = us @ y # ws" by (meson split_list)
      then have "h a \<noteq> None" using Cons.prems(1) y by (simp add: lrep_def dseg_append)
      then show False using Cons.prems(6) as by simp
    qed
    obtain h1 copy1 where h1: "listAddNodeTail a h copy v = Some (h1, copy1)" "lrep h1 copy1 (cs @ [(a, v)])"
      "same_out (insert a (addrs cs)) h h1" "same_methods copy copy1"
      using list_add_tail_correct [OF Cons.prems(1) fresh] by blast
    have dv: "dup_value copy1 = dup_value copy" using h1(4) by (simp add: same_methods_def dup_value_def fun_eq_iff)
    have dis: "insert a (addrs cs) \<inter> addrs xs = {}" using Cons.prems(3,5) as by auto
    have ds: "dseg h1 (Some (fst x)) xs None" by (rule same_out_dseg [OF h1(3) dis hx(2)])
    have "\<forall>b \<in> set as'. b \<notin> insert a (addrs cs)"
    proof
      fix b assume b: "b \<in> set as'"
      have "b \<notin> addrs cs"
      proof
        assume "b \<in> addrs cs"
        then obtain y where y: "y \<in> set cs" "b = fst y" by auto
        then obtain us ws where "cs = us @ y # ws" by (meson split_list)
        then have "h b \<noteq> None" using Cons.prems(1) y by (simp add: lrep_def dseg_append)
        then show False using Cons.prems(6) as b by simp
      qed
      then show "b \<notin> insert a (addrs cs)" using b Cons.prems(4) as by auto
    qed
    then have nn: "\<forall>b \<in> set as'. h1 b = None" using h1(3) Cons.prems(6) as by (auto simp: same_out_def)
    have IH: "case those (map (\<lambda>x. dup_value copy1 (snd x)) xs) of
        Some vs \<Rightarrow> \<exists>h' copy'. listDup_loop as' h1 copy1 \<lparr>it_nxt = first_or xs None, direction = True\<rparr> = Some (h', Some copy') \<and>
          lrep h' copy' ((cs @ [(a, v)]) @ zip as' vs) \<and> same_out (addrs (cs @ [(a, v)]) \<union> set as') h1 h' \<and> same_methods copy1 copy'
      | None \<Rightarrow> listDup_loop as' h1 copy1 \<lparr>it_nxt = first_or xs None, direction = True\<rparr> =
          Some (\<lambda>b. if b \<in> addrs (cs @ [(a, v)]) then None else h1 b, None)"
      by (rule Cons.IH [OF h1(2) ds]) (use dis Cons.prems(4,5,7) as nn in auto)
    show ?thesis
    proof (cases "those (map (\<lambda>x. dup_value copy (snd x)) xs)")
      case None
      have "(\<lambda>b. if b \<in> addrs (cs @ [(a, v)]) then None else h1 b) = (\<lambda>b. if b \<in> addrs cs then None else h b)"
        using h1(3) Cons.prems(6) as by (auto simp: fun_eq_iff same_out_def)
      then show ?thesis using IH None Some h1(1) dv by (simp add: unf del: first_or_simps)
    next
      case vs: (Some vs)
      obtain h' copy' where h': "listDup_loop as' h1 copy1 \<lparr>it_nxt = first_or xs None, direction = True\<rparr> = Some (h', Some copy')"
        "lrep h' copy' ((cs @ [(a, v)]) @ zip as' vs)" "same_out (addrs (cs @ [(a, v)]) \<union> set as') h1 h'" "same_methods copy1 copy'"
        using IH vs dv by auto
      have "same_out (addrs cs \<union> set as) h h'" by (rule same_out_trans [OF h1(3) h'(3)]) (use as in auto)
      moreover have "same_methods copy copy'" using h1(4) h'(4) by (simp add: same_methods_def)
      ultimately show ?thesis using h'(1,2) Some vs h1(1) as by (simp add: unf [unfolded as] del: first_or_simps)
    qed
  qed
qed

section \<open>Sequences of operations\<close>

datatype 'v lop = AddHead 'v | AddTail 'v | InsertAt int 'v bool | DelAt int | RotTail | RotHead

text \<open>The calls of a client, one fresh address per call, and the same calls on a plain list.\<close>

fun run_list :: "nat list \<Rightarrow> 'v node_heap \<Rightarrow> 'v list_hd \<Rightarrow> 'v lop list \<Rightarrow> ('v node_heap \<times> 'v list_hd) option" where
  "run_list as h l [] = Some (h, l)"
| "run_list as h l (op # ops) =
     do {
       (h', l') \<leftarrow> (case op of
           AddHead v \<Rightarrow> listAddNodeHead (hd as) h l v
         | AddTail v \<Rightarrow> listAddNodeTail (hd as) h l v
         | InsertAt k v after \<Rightarrow> do {
             n \<leftarrow> listIndex h l k;
             if n = None then Some (h, l) else listInsertNode (hd as) h l n v after
           }
         | DelAt k \<Rightarrow> do { n \<leftarrow> listIndex h l k; if n = None then Some (h, l) else listDelNode h l n }
         | RotTail \<Rightarrow> listRotateTailToHead h l
         | RotHead \<Rightarrow> listRotateHeadToTail h l);
       run_list (tl as) h' l' ops
     }"

definition norm_idx :: "int \<Rightarrow> nat \<Rightarrow> nat option" where
  "norm_idx k n = (if 0 \<le> k \<and> k < int n then Some (nat k) else if k < 0 \<and> - k \<le> int n then Some (nat (int n + k)) else None)"

fun spec_op :: "'v list \<Rightarrow> 'v lop \<Rightarrow> 'v list" where
  "spec_op vs (AddHead v) = v # vs"
| "spec_op vs (AddTail v) = vs @ [v]"
| "spec_op vs (InsertAt k v after) =
     (case norm_idx k (length vs) of None \<Rightarrow> vs
      | Some i \<Rightarrow> let j = (if after then Suc i else i) in take j vs @ v # drop j vs)"
| "spec_op vs (DelAt k) = (case norm_idx k (length vs) of None \<Rightarrow> vs | Some i \<Rightarrow> take i vs @ drop (Suc i) vs)"
| "spec_op vs RotTail = (if vs = [] then [] else last vs # butlast vs)"
| "spec_op vs RotHead = (if vs = [] then [] else tl vs @ [hd vs])"

lemma listIndex_norm: "lrep h l xs \<Longrightarrow> listIndex h l k = Some (map_option (\<lambda>i. fst (xs ! i)) (norm_idx k (length xs)))"
  using listIndex_correct [of h l xs k] by (auto simp: norm_idx_def)

lemma norm_idx_less: "norm_idx k n = Some i \<Longrightarrow> i < n"
  by (auto simp: norm_idx_def split: if_splits)

lemma run_op_correct:
  assumes rep: "lrep h l xs" and fresh: "a \<notin> addrs xs"
  shows "\<exists>h' l' xs'. run_list (a # as) h l (op # ops) = run_list as h' l' ops \<and> lrep h' l' xs' \<and>
    addrs xs' \<subseteq> insert a (addrs xs) \<and> map snd xs' = spec_op (map snd xs) op"
proof (cases op)
  case (AddHead v)
  then show ?thesis using list_add_head_correct [OF rep fresh, of v] by fastforce
next
  case (AddTail v)
  then show ?thesis using list_add_tail_correct [OF rep fresh, of v] by fastforce
next
  case (InsertAt k v after)
  show ?thesis
  proof (cases "norm_idx k (length xs)")
    case None
    then show ?thesis using InsertAt rep listIndex_norm [OF rep, of k] by (auto intro!: exI [of _ xs])
  next
    case (Some i)
    note i = norm_idx_less [OF Some]
    note xs = list_nth_split [OF i, symmetric]
    let ?xs' = "if after then take i xs @ (fst (xs ! i), snd (xs ! i)) # (a, v) # drop (Suc i) xs
      else take i xs @ (a, v) # (fst (xs ! i), snd (xs ! i)) # drop (Suc i) xs"
    obtain h' l' where h': "listInsertNode a h l (Some (fst (xs ! i))) v after = Some (h', l')" "lrep h' l' ?xs'"
      using list_insert_correct [of h l "take i xs" "fst (xs ! i)" "snd (xs ! i)" "drop (Suc i) xs" a v after, unfolded xs, OF rep fresh]
      by blast
    have "addrs ?xs' \<subseteq> insert a (addrs xs)" using i by (auto dest: in_set_takeD in_set_dropD)
    moreover have "map snd ?xs' = spec_op (map snd xs) op"
      using i Some by (auto simp: InsertAt take_map drop_map take_Suc_conv_app_nth Cons_nth_drop_Suc [symmetric])
    ultimately show ?thesis
      using h' InsertAt Some listIndex_norm [OF rep, of k] by (intro exI [of _ h'] exI [of _ l'] exI [of _ ?xs']) simp
  qed
next
  case (DelAt k)
  show ?thesis
  proof (cases "norm_idx k (length xs)")
    case None
    then show ?thesis using DelAt rep listIndex_norm [OF rep, of k] by (auto intro!: exI [of _ xs])
  next
    case (Some i)
    note i = norm_idx_less [OF Some]
    note xs = list_nth_split [OF i, symmetric]
    let ?xs' = "take i xs @ drop (Suc i) xs"
    obtain h' l' where h': "listDelNode h l (Some (fst (xs ! i))) = Some (h', l')" "lrep h' l' ?xs'"
      using list_del_correct [of h l "take i xs" "fst (xs ! i)" "snd (xs ! i)" "drop (Suc i) xs", unfolded xs, OF rep] by blast
    have "addrs ?xs' \<subseteq> insert a (addrs xs)" by (auto dest: in_set_takeD in_set_dropD)
    moreover have "map snd ?xs' = spec_op (map snd xs) op" using Some by (simp add: DelAt take_map drop_map)
    ultimately show ?thesis
      using h' DelAt Some listIndex_norm [OF rep, of k] by (intro exI [of _ h'] exI [of _ l'] exI [of _ ?xs']) simp
  qed
next
  case RotTail
  show ?thesis
  proof (cases "xs = []")
    case True
    then have "len l \<le> 1" using rep by (simp add: lrep_def)
    then show ?thesis using True RotTail rep by (auto simp: listRotateTailToHead_def intro!: exI [of _ "[]"])
  next
    case False
    then have xs: "xs = butlast xs @ [last xs]" by simp
    obtain h' l' where h': "listRotateTailToHead h l = Some (h', l')" "lrep h' l' (last xs # butlast xs)"
      using list_rotate_tail_correct [of h l "butlast xs" "last xs", folded xs, OF rep] by blast
    have "addrs (last xs # butlast xs) \<subseteq> insert a (addrs xs)" using False by (auto dest: in_set_butlastD)
    moreover have "map snd (last xs # butlast xs) = spec_op (map snd xs) op" using False by (simp add: RotTail last_map map_butlast)
    ultimately show ?thesis
      using h' RotTail by (intro exI [of _ h'] exI [of _ l'] exI [of _ "last xs # butlast xs"]) simp
  qed
next
  case RotHead
  show ?thesis
  proof (cases xs)
    case Nil
    then have "len l \<le> 1" using rep by (simp add: lrep_def)
    then show ?thesis using Nil RotHead rep by (auto simp: listRotateHeadToTail_def intro!: exI [of _ "[]"])
  next
    case (Cons x ys)
    obtain h' l' where h': "listRotateHeadToTail h l = Some (h', l')" "lrep h' l' (ys @ [x])"
      using list_rotate_head_correct [of h l x ys] rep Cons by blast
    then show ?thesis using Cons RotHead by (intro exI [of _ h'] exI [of _ l'] exI [of _ "ys @ [x]"]) auto
  qed
qed

lemma run_list_correct:
  assumes "lrep h l xs" "distinct as" "set as \<inter> addrs xs = {}" "length ops \<le> length as"
  shows "\<exists>h' l' xs'. run_list as h l ops = Some (h', l') \<and> lrep h' l' xs' \<and> map snd xs' = foldl spec_op (map snd xs) ops"
  using assms
proof (induction ops arbitrary: as h l xs)
  case Nil
  then show ?case by auto
next
  case (Cons op ops)
  obtain a as' where as: "as = a # as'" using Cons.prems(4) by (cases as) auto
  obtain h1 l1 xs1 where h1: "run_list (a # as') h l (op # ops) = run_list as' h1 l1 ops" "lrep h1 l1 xs1"
    "addrs xs1 \<subseteq> insert a (addrs xs)" "map snd xs1 = spec_op (map snd xs) op"
    using run_op_correct [OF Cons.prems(1)] Cons.prems(3) as by (metis disjoint_iff list.set_intros(1))
  have "set as' \<inter> addrs xs1 = {}" using h1(3) Cons.prems(2,3) as by auto
  then show ?case using Cons.IH [OF h1(2), of as'] Cons.prems(2,4) h1(1,4) as by auto
qed

text \<open>
  Property C17. Every sequence of insertions at either end or next to a node, deletions and rotations
  on a linked list never follows a null or freed pointer, keeps the forward and backward
  links, \<^verbatim>\<open>head\<close>, \<^verbatim>\<open>tail\<close> and \<^verbatim>\<open>len\<close> consistent, and has the effect of the same operations on a plain list.
\<close>

theorem list_refines:
  assumes "lrep h l xs" "distinct as" "set as \<inter> fst ` set xs = {}" "length ops \<le> length as"
  shows "\<exists>h' l' xs'. run_list as h l ops = Some (h', l') \<and> lrep h' l' xs' \<and> map snd xs' = foldl spec_op (map snd xs) ops"
  by (rule run_list_correct [OF assms])

theorem list_refines_witness:
  "\<exists>h' l' xs'. run_list [0, 1, 2, 3, 4] (\<lambda>a. None) (listCreate ())
      [AddTail 1, AddTail 2, AddHead (3 :: nat), InsertAt (- 1) 9 False, RotTail] = Some (h', l') \<and>
    lrep h' l' xs' \<and> map snd xs' = [2, 3, 1, 9]"
  using list_refines [of "\<lambda>a. None" "listCreate ()" "[]" "[0, 1, 2, 3, 4]"
      "[AddTail 1, AddTail 2, AddHead (3 :: nat), InsertAt (- 1) 9 False, RotTail]"]
  by (simp add: lrep_def listCreate_def norm_idx_def)

text \<open>
  Property C29. \<^verbatim>\<open>listJoin\<close> appends one list to another and empties it, and \<^verbatim>\<open>listDup\<close> copies a list to new
  nodes and leaves every node of the original as it was, or, when the copy of a value
  fails, frees everything it allocated and returns null.
\<close>

theorem list_join_dup:
  assumes "lrep h l xs" "lrep h k ys" "fst ` set xs \<inter> fst ` set ys = {}"
    and "distinct as" "\<forall>a \<in> set as. h a = None" "length xs \<le> length as"
  shows "(\<exists>h' l'. listJoin h l k = Some (h', l', k\<lparr>head := None, tail := None, len := 0\<rparr>) \<and> lrep h' l' (xs @ ys)) \<and>
    (case those (map (\<lambda>x. dup_value l (snd x)) xs) of
       Some vs \<Rightarrow> \<exists>h' c. listDup as h l = Some (h', Some c) \<and> lrep h' c (zip as vs) \<and> (\<forall>a. a \<notin> set as \<longrightarrow> h' a = h a)
     | None \<Rightarrow> listDup as h l = Some (h, None))"
proof -
  let ?c = "(listCreate ())\<lparr>dup := dup l, mtch := mtch l\<rparr>"
  have "\<forall>a \<in> addrs xs. h a \<noteq> None"
  proof
    fix a assume "a \<in> addrs xs"
    then obtain y where y: "y \<in> set xs" "a = fst y" by auto
    then obtain us ws where "xs = us @ y # ws" by (meson split_list)
    then show "h a \<noteq> None" using assms(1) y by (simp add: lrep_def dseg_append)
  qed
  then have dj: "set as \<inter> addrs xs = {}" using assms(5) by fastforce
  have dv: "dup_value ?c = dup_value l" by (simp add: dup_value_def fun_eq_iff)
  have "lrep h ?c []" by (simp add: lrep_def listCreate_def)
  then have "case those (map (\<lambda>x. dup_value ?c (snd x)) xs) of
      Some vs \<Rightarrow> \<exists>h' copy'. listDup_loop as h ?c \<lparr>it_nxt = first_or xs None, direction = True\<rparr> = Some (h', Some copy') \<and>
        lrep h' copy' ([] @ zip as vs) \<and> same_out (addrs ([] :: (nat \<times> 'a) list) \<union> set as) h h' \<and> same_methods ?c copy'
    | None \<Rightarrow> listDup_loop as h ?c \<lparr>it_nxt = first_or xs None, direction = True\<rparr> =
        Some (\<lambda>a. if a \<in> addrs ([] :: (nat \<times> 'a) list) then None else h a, None)"
    by (rule list_dup_loop_correct) (use assms dj in \<open>auto simp: lrep_def\<close>)
  moreover have "listDup as h l = listDup_loop as h ?c \<lparr>it_nxt = first_or xs None, direction = True\<rparr>"
    using assms(1) by (simp add: listDup_def listRewind_def lrep_def)
  ultimately show ?thesis
    using list_join_correct [OF assms(1-3)] unfolding dv by (auto simp: same_out_def split: option.splits)
qed

theorem list_join_dup_witness:
  "\<exists>h' c. listDup [7] ((\<lambda>a. None)(0 \<mapsto> \<lparr>prev = None, nxt = None, node_value = 5 :: nat\<rparr>))
      \<lparr>head = Some 0, tail = Some 0, dup = None, mtch = None, len = 1\<rparr> = Some (h', Some c) \<and> lrep h' c [(7, 5)]"
  using list_join_dup [of "(\<lambda>a. None)(0 \<mapsto> \<lparr>prev = None, nxt = None, node_value = 5 :: nat\<rparr>)"
      "\<lparr>head = Some 0, tail = Some 0, dup = None, mtch = None, len = 1\<rparr>" "[(0, 5)]" "listCreate ()" "[]" "[7]"]
  by (auto simp: lrep_def listCreate_def dup_value_def)

end
