(* ===== verification/Crc.thy ===== *)
theory Crc
  imports Redis_Prelude
begin

text \<open>
  The checksums: \<^verbatim>\<open>crc16\<close> (crc16.c), \<^verbatim>\<open>crc64\<close> (crc64.c) and the mapping of keys to cluster slots
  that is built on the first, \<^verbatim>\<open>keyHashSlot\<close> (cluster.c). The table-driven loops are proved equal to
  the bit-by-bit division by the polynomials the sources name, the 64-bit checksum to detect every
  corruption of at most eight adjacent bytes, and the slot of a key to be that of its hash tag.
\<close>

section \<open>Tables and loops\<close>

definition crc16tab :: "u16 list" where
  "crc16tab = [
    0x0, 0x1021, 0x2042, 0x3063, 0x4084, 0x50A5, 0x60C6, 0x70E7,
    0x8108, 0x9129, 0xA14A, 0xB16B, 0xC18C, 0xD1AD, 0xE1CE, 0xF1EF,
    0x1231, 0x210, 0x3273, 0x2252, 0x52B5, 0x4294, 0x72F7, 0x62D6,
    0x9339, 0x8318, 0xB37B, 0xA35A, 0xD3BD, 0xC39C, 0xF3FF, 0xE3DE,
    0x2462, 0x3443, 0x420, 0x1401, 0x64E6, 0x74C7, 0x44A4, 0x5485,
    0xA56A, 0xB54B, 0x8528, 0x9509, 0xE5EE, 0xF5CF, 0xC5AC, 0xD58D,
    0x3653, 0x2672, 0x1611, 0x630, 0x76D7, 0x66F6, 0x5695, 0x46B4,
    0xB75B, 0xA77A, 0x9719, 0x8738, 0xF7DF, 0xE7FE, 0xD79D, 0xC7BC,
    0x48C4, 0x58E5, 0x6886, 0x78A7, 0x840, 0x1861, 0x2802, 0x3823,
    0xC9CC, 0xD9ED, 0xE98E, 0xF9AF, 0x8948, 0x9969, 0xA90A, 0xB92B,
    0x5AF5, 0x4AD4, 0x7AB7, 0x6A96, 0x1A71, 0xA50, 0x3A33, 0x2A12,
    0xDBFD, 0xCBDC, 0xFBBF, 0xEB9E, 0x9B79, 0x8B58, 0xBB3B, 0xAB1A,
    0x6CA6, 0x7C87, 0x4CE4, 0x5CC5, 0x2C22, 0x3C03, 0xC60, 0x1C41,
    0xEDAE, 0xFD8F, 0xCDEC, 0xDDCD, 0xAD2A, 0xBD0B, 0x8D68, 0x9D49,
    0x7E97, 0x6EB6, 0x5ED5, 0x4EF4, 0x3E13, 0x2E32, 0x1E51, 0xE70,
    0xFF9F, 0xEFBE, 0xDFDD, 0xCFFC, 0xBF1B, 0xAF3A, 0x9F59, 0x8F78,
    0x9188, 0x81A9, 0xB1CA, 0xA1EB, 0xD10C, 0xC12D, 0xF14E, 0xE16F,
    0x1080, 0xA1, 0x30C2, 0x20E3, 0x5004, 0x4025, 0x7046, 0x6067,
    0x83B9, 0x9398, 0xA3FB, 0xB3DA, 0xC33D, 0xD31C, 0xE37F, 0xF35E,
    0x2B1, 0x1290, 0x22F3, 0x32D2, 0x4235, 0x5214, 0x6277, 0x7256,
    0xB5EA, 0xA5CB, 0x95A8, 0x8589, 0xF56E, 0xE54F, 0xD52C, 0xC50D,
    0x34E2, 0x24C3, 0x14A0, 0x481, 0x7466, 0x6447, 0x5424, 0x4405,
    0xA7DB, 0xB7FA, 0x8799, 0x97B8, 0xE75F, 0xF77E, 0xC71D, 0xD73C,
    0x26D3, 0x36F2, 0x691, 0x16B0, 0x6657, 0x7676, 0x4615, 0x5634,
    0xD94C, 0xC96D, 0xF90E, 0xE92F, 0x99C8, 0x89E9, 0xB98A, 0xA9AB,
    0x5844, 0x4865, 0x7806, 0x6827, 0x18C0, 0x8E1, 0x3882, 0x28A3,
    0xCB7D, 0xDB5C, 0xEB3F, 0xFB1E, 0x8BF9, 0x9BD8, 0xABBB, 0xBB9A,
    0x4A75, 0x5A54, 0x6A37, 0x7A16, 0xAF1, 0x1AD0, 0x2AB3, 0x3A92,
    0xFD2E, 0xED0F, 0xDD6C, 0xCD4D, 0xBDAA, 0xAD8B, 0x9DE8, 0x8DC9,
    0x7C26, 0x6C07, 0x5C64, 0x4C45, 0x3CA2, 0x2C83, 0x1CE0, 0xCC1,
    0xEF1F, 0xFF3E, 0xCF5D, 0xDF7C, 0xAF9B, 0xBFBA, 0x8FD9, 0x9FF8,
    0x6E17, 0x7E36, 0x4E55, 0x5E74, 0x2E93, 0x3EB2, 0xED1, 0x1EF0]"

definition crc16_step :: "u16 \<Rightarrow> u8 \<Rightarrow> u16" where
  "crc16_step crc b = push_bit 8 crc XOR crc16tab ! unat ((drop_bit 8 crc XOR ucast b) AND 0x00FF)"

text \<open>The \<open>len\<close> bytes at offset \<open>off\<close> of a buffer.\<close>

definition slice :: "bytes \<Rightarrow> nat \<Rightarrow> nat \<Rightarrow> bytes option" where
  "slice buf off n = (if off + n \<le> length buf then Some (take n (drop off buf)) else None)"

definition crc16 :: "bytes \<Rightarrow> nat \<Rightarrow> nat \<Rightarrow> u16 option" where
  "crc16 buf off len = do { bs \<leftarrow> slice buf off len; Some (foldl crc16_step 0 bs) }"

definition crc64_tab :: "u64 list" where
  "crc64_tab = [
    0x0, 0x7AD870C830358979, 0xF5B0E190606B12F2, 0x8F689158505E9B8B,
    0xC038E5739841B68F, 0xBAE095BBA8743FF6, 0x358804E3F82AA47D, 0x4F50742BC81F2D04,
    0xAB28ECB46814FE75, 0xD1F09C7C5821770C, 0x5E980D24087FEC87, 0x24407DEC384A65FE,
    0x6B1009C7F05548FA, 0x11C8790FC060C183, 0x9EA0E857903E5A08, 0xE478989FA00BD371,
    0x7D08FF3B88BE6F81, 0x7D08FF3B88BE6F8, 0x88B81EABE8D57D73, 0xF2606E63D8E0F40A,
    0xBD301A4810FFD90E, 0xC7E86A8020CA5077, 0x4880FBD87094CBFC, 0x32588B1040A14285,
    0xD620138FE0AA91F4, 0xACF86347D09F188D, 0x2390F21F80C18306, 0x594882D7B0F40A7F,
    0x1618F6FC78EB277B, 0x6CC0863448DEAE02, 0xE3A8176C18803589, 0x997067A428B5BCF0,
    0xFA11FE77117CDF02, 0x80C98EBF2149567B, 0xFA11FE77117CDF0, 0x75796F2F41224489,
    0x3A291B04893D698D, 0x40F16BCCB908E0F4, 0xCF99FA94E9567B7F, 0xB5418A5CD963F206,
    0x513912C379682177, 0x2BE1620B495DA80E, 0xA489F35319033385, 0xDE51839B2936BAFC,
    0x9101F7B0E12997F8, 0xEBD98778D11C1E81, 0x64B116208142850A, 0x1E6966E8B1770C73,
    0x8719014C99C2B083, 0xFDC17184A9F739FA, 0x72A9E0DCF9A9A271, 0x8719014C99C2B08,
    0x4721E43F0183060C, 0x3DF994F731B68F75, 0xB29105AF61E814FE, 0xC849756751DD9D87,
    0x2C31EDF8F1D64EF6, 0x56E99D30C1E3C78F, 0xD9810C6891BD5C04, 0xA3597CA0A188D57D,
    0xEC09088B6997F879, 0x96D1784359A27100, 0x19B9E91B09FCEA8B, 0x636199D339C963F2,
    0xDF7ADABD7A6E2D6F, 0xA5A2AA754A5BA416, 0x2ACA3B2D1A053F9D, 0x50124BE52A30B6E4,
    0x1F423FCEE22F9BE0, 0x659A4F06D21A1299, 0xEAF2DE5E82448912, 0x902AAE96B271006B,
    0x74523609127AD31A, 0xE8A46C1224F5A63, 0x81E2D7997211C1E8, 0xFB3AA75142244891,
    0xB46AD37A8A3B6595, 0xCEB2A3B2BA0EECEC, 0x41DA32EAEA507767, 0x3B024222DA65FE1E,
    0xA2722586F2D042EE, 0xD8AA554EC2E5CB97, 0x57C2C41692BB501C, 0x2D1AB4DEA28ED965,
    0x624AC0F56A91F461, 0x1892B03D5AA47D18, 0x97FA21650AFAE693, 0xED2251AD3ACF6FEA,
    0x95AC9329AC4BC9B, 0x7382B9FAAAF135E2, 0xFCEA28A2FAAFAE69, 0x8632586ACA9A2710,
    0xC9622C4102850A14, 0xB3BA5C8932B0836D, 0x3CD2CDD162EE18E6, 0x460ABD1952DB919F,
    0x256B24CA6B12F26D, 0x5FB354025B277B14, 0xD0DBC55A0B79E09F, 0xAA03B5923B4C69E6,
    0xE553C1B9F35344E2, 0x9F8BB171C366CD9B, 0x10E3202993385610, 0x6A3B50E1A30DDF69,
    0x8E43C87E03060C18, 0xF49BB8B633338561, 0x7BF329EE636D1EEA, 0x12B592653589793,
    0x4E7B2D0D9B47BA97, 0x34A35DC5AB7233EE, 0xBBCBCC9DFB2CA865, 0xC113BC55CB19211C,
    0x5863DBF1E3AC9DEC, 0x22BBAB39D3991495, 0xADD33A6183C78F1E, 0xD70B4AA9B3F20667,
    0x985B3E827BED2B63, 0xE2834E4A4BD8A21A, 0x6DEBDF121B863991, 0x1733AFDA2BB3B0E8,
    0xF34B37458BB86399, 0x8993478DBB8DEAE0, 0x6FBD6D5EBD3716B, 0x7C23A61DDBE6F812,
    0x3373D23613F9D516, 0x49ABA2FE23CC5C6F, 0xC6C333A67392C7E4, 0xBC1B436E43A74E9D,
    0x95AC9329AC4BC9B5, 0xEF74E3E19C7E40CC, 0x601C72B9CC20DB47, 0x1AC40271FC15523E,
    0x5594765A340A7F3A, 0x2F4C0692043FF643, 0xA02497CA54616DC8, 0xDAFCE7026454E4B1,
    0x3E847F9DC45F37C0, 0x445C0F55F46ABEB9, 0xCB349E0DA4342532, 0xB1ECEEC59401AC4B,
    0xFEBC9AEE5C1E814F, 0x8464EA266C2B0836, 0xB0C7B7E3C7593BD, 0x71D40BB60C401AC4,
    0xE8A46C1224F5A634, 0x927C1CDA14C02F4D, 0x1D148D82449EB4C6, 0x67CCFD4A74AB3DBF,
    0x289C8961BCB410BB, 0x5244F9A98C8199C2, 0xDD2C68F1DCDF0249, 0xA7F41839ECEA8B30,
    0x438C80A64CE15841, 0x3954F06E7CD4D138, 0xB63C61362C8A4AB3, 0xCCE411FE1CBFC3CA,
    0x83B465D5D4A0EECE, 0xF96C151DE49567B7, 0x76048445B4CBFC3C, 0xCDCF48D84FE7545,
    0x6FBD6D5EBD3716B7, 0x15651D968D029FCE, 0x9A0D8CCEDD5C0445, 0xE0D5FC06ED698D3C,
    0xAF85882D2576A038, 0xD55DF8E515432941, 0x5A3569BD451DB2CA, 0x20ED197575283BB3,
    0xC49581EAD523E8C2, 0xBE4DF122E51661BB, 0x3125607AB548FA30, 0x4BFD10B2857D7349,
    0x4AD64994D625E4D, 0x7E7514517D57D734, 0xF11D85092D094CBF, 0x8BC5F5C11D3CC5C6,
    0x12B5926535897936, 0x686DE2AD05BCF04F, 0xE70573F555E26BC4, 0x9DDD033D65D7E2BD,
    0xD28D7716ADC8CFB9, 0xA85507DE9DFD46C0, 0x273D9686CDA3DD4B, 0x5DE5E64EFD965432,
    0xB99D7ED15D9D8743, 0xC3450E196DA80E3A, 0x4C2D9F413DF695B1, 0x36F5EF890DC31CC8,
    0x79A59BA2C5DC31CC, 0x37DEB6AF5E9B8B5, 0x8C157A32A5B7233E, 0xF6CD0AFA9582AA47,
    0x4AD64994D625E4DA, 0x300E395CE6106DA3, 0xBF66A804B64EF628, 0xC5BED8CC867B7F51,
    0x8AEEACE74E645255, 0xF036DC2F7E51DB2C, 0x7F5E4D772E0F40A7, 0x5863DBF1E3AC9DE,
    0xE1FEA520BE311AAF, 0x9B26D5E88E0493D6, 0x144E44B0DE5A085D, 0x6E963478EE6F8124,
    0x21C640532670AC20, 0x5B1E309B16452559, 0xD476A1C3461BBED2, 0xAEAED10B762E37AB,
    0x37DEB6AF5E9B8B5B, 0x4D06C6676EAE0222, 0xC26E573F3EF099A9, 0xB8B627F70EC510D0,
    0xF7E653DCC6DA3DD4, 0x8D3E2314F6EFB4AD, 0x256B24CA6B12F26, 0x788EC2849684A65F,
    0x9CF65A1B368F752E, 0xE62E2AD306BAFC57, 0x6946BB8B56E467DC, 0x139ECB4366D1EEA5,
    0x5CCEBF68AECEC3A1, 0x2616CFA09EFB4AD8, 0xA97E5EF8CEA5D153, 0xD3A62E30FE90582A,
    0xB0C7B7E3C7593BD8, 0xCA1FC72BF76CB2A1, 0x45775673A732292A, 0x3FAF26BB9707A053,
    0x70FF52905F188D57, 0xA2722586F2D042E, 0x854FB3003F739FA5, 0xFF97C3C80F4616DC,
    0x1BEF5B57AF4DC5AD, 0x61372B9F9F784CD4, 0xEE5FBAC7CF26D75F, 0x9487CA0FFF135E26,
    0xDBD7BE24370C7322, 0xA10FCEEC0739FA5B, 0x2E675FB4576761D0, 0x54BF2F7C6752E8A9,
    0xCDCF48D84FE75459, 0xB71738107FD2DD20, 0x387FA9482F8C46AB, 0x42A7D9801FB9CFD2,
    0xDF7ADABD7A6E2D6, 0x772FDD63E7936BAF, 0xF8474C3BB7CDF024, 0x829F3CF387F8795D,
    0x66E7A46C27F3AA2C, 0x1C3FD4A417C62355, 0x935745FC4798B8DE, 0xE98F353477AD31A7,
    0xA6DF411FBFB21CA3, 0xDC0731D78F8795DA, 0x536FA08FDFD90E51, 0x29B7D047EFEC8728]"

definition crc64_step :: "u64 \<Rightarrow> u8 \<Rightarrow> u64" where
  "crc64_step crc byte = crc64_tab ! unat ((ucast crc :: u8) XOR byte) XOR drop_bit 8 crc"

definition crc64 :: "u64 \<Rightarrow> bytes \<Rightarrow> u64" where
  "crc64 crc s = foldl crc64_step crc s"

section \<open>Cluster slots\<close>

text \<open>The search loops of \<^verbatim>\<open>keyHashSlot\<close>: the first index from \<open>i\<close> on that holds \<open>c\<close>, or \<open>keylen\<close>.\<close>

function scan_byte :: "bytes \<Rightarrow> u8 \<Rightarrow> nat \<Rightarrow> nat \<Rightarrow> nat option" where
  "scan_byte key c i keylen =
     (if i < keylen then do { b \<leftarrow> nth_opt key i; if b = c then Some i else scan_byte key c (Suc i) keylen }
      else Some i)"
  by pat_completeness auto
termination by (relation "measure (\<lambda>(key, c, i, keylen). keylen - i)") auto

declare scan_byte.simps [simp del]

definition keyHashSlot :: "bytes \<Rightarrow> nat \<Rightarrow> u16 option" where
  "keyHashSlot key keylen =
     do {
       s \<leftarrow> scan_byte key 0x7B 0 keylen;
       if s = keylen then map_option (\<lambda>c. c AND 0x3FFF) (crc16 key 0 keylen)
       else do {
         e \<leftarrow> scan_byte key 0x7D (s + 1) keylen;
         if e = keylen \<or> e = s + 1 then map_option (\<lambda>c. c AND 0x3FFF) (crc16 key 0 keylen)
         else map_option (\<lambda>c. c AND 0x3FFF) (crc16 key (s + 1) (e - s - 1))
       }
     }"

section \<open>Reference checksums\<close>

text \<open>One bit of the division by \<open>x^16 + x^12 + x^5 + 1\<close>, most significant bit first, and of the division by
  the bit-reversed polynomial \<open>0xad93d23594c935a9\<close>, least significant bit first.\<close>

definition div16 :: "u16 \<Rightarrow> u16" where
  "div16 c = (if bit c 15 then push_bit 1 c XOR 0x1021 else push_bit 1 c)"

definition div64 :: "u64 \<Rightarrow> u64" where
  "div64 c = (if bit c 0 then drop_bit 1 c XOR 0x95AC9329AC4BC9B5 else drop_bit 1 c)"

definition crc16_ref :: "bytes \<Rightarrow> u16" where
  "crc16_ref bs = foldl (\<lambda>c b. (div16 ^^ 8) (c XOR push_bit 8 (ucast b))) 0 bs"

definition crc64_ref :: "u64 \<Rightarrow> bytes \<Rightarrow> u64" where
  "crc64_ref c bs = foldl (\<lambda>c b. (div64 ^^ 8) (c XOR ucast b)) c bs"

lemma div16_xor: "div16 (a XOR b) = div16 a XOR div16 b"
  by (auto simp: div16_def bit_xor_iff push_bit_xor ac_simps xor.left_commute)

lemma div64_xor: "div64 (a XOR b) = div64 a XOR div64 b"
  by (auto simp: div64_def bit_xor_iff drop_bit_xor ac_simps xor.left_commute)

lemma funpow_xor: "(\<And>a b. f (a XOR b) = f a XOR f b) \<Longrightarrow> (f ^^ n) (a XOR b) = (f ^^ n) a XOR (f ^^ n) b"
  for f :: "'a::semiring_bit_operations \<Rightarrow> 'a"
  by (induction n) simp_all

text \<open>A table of a linear map has \<open>2 ^ n\<close> entries that follow from \<open>n\<close> of them.\<close>

fun tabgen :: "'a::len word list \<Rightarrow> 'a word list \<Rightarrow> 'a word list" where
  "tabgen [] t = t"
| "tabgen (c # cs) t = tabgen cs (t @ map (\<lambda>x. c XOR x) t)"

lemma of_nat_high_bit: "i < 2 ^ k \<Longrightarrow> (of_nat (2 ^ k + i) :: 'a::len word) = of_nat (2 ^ k) XOR of_nat i"
proof -
  assume "i < 2 ^ k"
  then have "\<not> bit i j" if "k \<le> j" for j
    using that by (metis bit_take_bit_iff leD take_bit_nat_eq_self)
  then have "(2 ^ k :: nat) AND i = 0" by (intro bit_eqI) (auto simp: bit_and_iff bit_exp_iff)
  then have "2 ^ k + i = (2 ^ k) XOR i"
    by (simp add: disjunctive_xor_eq_or disjunctive_add_eq_or)
  then show ?thesis by (simp only: of_nat_xor_eq)
qed

lemma tab_double:
  fixes f :: "'a::len word \<Rightarrow> 'a word"
  assumes "\<And>a b. f (a XOR b) = f a XOR f b"
  shows "map (\<lambda>i. f (of_nat i)) [0..<2 ^ Suc k] =
    (let t = map (\<lambda>i. f (of_nat i)) [0..<2 ^ k] in t @ map (\<lambda>x. f (of_nat (2 ^ k)) XOR x) t)"
proof -
  have "[0..<2 ^ Suc k] = [0..<2 ^ k] @ map (\<lambda>i. i + 2 ^ k) [0..<2 ^ k]"
    using upt_add_eq_append [of 0 "2 ^ k" "2 ^ k"] map_add_upt [of "2 ^ k" "2 ^ k"] by (simp add: mult_2)
  moreover have "map (\<lambda>i. f (of_nat (i + 2 ^ k))) [0..<2 ^ k] = map (\<lambda>i. f (of_nat (2 ^ k)) XOR f (of_nat i)) [0..<2 ^ k]"
    by (rule map_cong [OF refl]) (simp only: atLeastLessThan_iff set_upt add.commute [of _ "2 ^ k"] of_nat_high_bit assms)
  ultimately show ?thesis by (simp only: map_append map_map comp_def Let_def)
qed

lemma tabgen_eq:
  fixes f :: "'a::len word \<Rightarrow> 'a word"
  assumes "\<And>a b. f (a XOR b) = f a XOR f b"
  shows "tabgen (map (\<lambda>k. f (of_nat (2 ^ k))) [m..<m + n]) (map (\<lambda>i. f (of_nat i)) [0..<2 ^ m]) =
    map (\<lambda>i. f (of_nat i)) [0..<2 ^ (m + n)]"
proof (induction n arbitrary: m)
  case 0
  then show ?case by simp
next
  case (Suc n)
  have "[m..<m + Suc n] = m # [Suc m..<Suc m + n]" by (simp add: upt_rec)
  then show ?case using Suc [of "Suc m"] tab_double [OF assms, of m]
    by (simp only: list.map tabgen.simps Let_def add_Suc_shift)
qed

lemma tab256_eq:
  fixes f :: "'a::len word \<Rightarrow> 'a word"
  assumes "\<And>a b. f (a XOR b) = f a XOR f b"
  shows "map (\<lambda>i. f (of_nat i)) [0..<256] = tabgen [f 1, f 2, f 4, f 8, f 16, f 32, f 64, f 128] [0]"
proof -
  have "f 0 = 0" using assms [of 0 0] by simp
  then have "map (\<lambda>i. f (of_nat i)) [0..<2 ^ 0] = [0]" by simp
  moreover have "map (\<lambda>k. f (of_nat (2 ^ k))) [0..<0 + 8] = [f 1, f 2, f 4, f 8, f 16, f 32, f 64, f 128]"
    by (simp add: upt_rec)
  moreover have "2 ^ (0 + 8) = (256 :: nat)" by simp
  ultimately show ?thesis using tabgen_eq [OF assms, of 0 8] by (simp only:)
qed

definition div16_8 :: "u16 \<Rightarrow> u16" where
  "div16_8 x = (div16 ^^ 8) (push_bit 8 x)"

definition div64_8 :: "u64 \<Rightarrow> u64" where
  "div64_8 x = (div64 ^^ 8) x"

lemma div16_8_double: "\<not> bit x 7 \<Longrightarrow> div16_8 (push_bit 1 x) = div16 (div16_8 x)"
proof -
  assume "\<not> bit x 7"
  then have "push_bit 8 (push_bit 1 x) = div16 (push_bit 8 x)"
    by (simp only: div16_def bit_push_bit_iff push_bit_push_bit) simp
  then show ?thesis by (simp only: div16_8_def funpow_swap1)
qed

lemma div64_8_double: "\<not> bit x 63 \<Longrightarrow> div64_8 x = div64 (div64_8 (push_bit 1 x))"
proof -
  assume nb: "\<not> bit x 63"
  have "drop_bit 1 (push_bit 1 x) = x"
  proof (rule bit_word_eqI)
    fix n assume "n < LENGTH(64)"
    then have "n < 63 \<or> n = 63" by auto
    then show "bit (drop_bit 1 (push_bit 1 x)) n = bit x n"
      using nb by (auto simp: bit_drop_bit_eq bit_push_bit_iff simp del: One_nat_def)
  qed
  then have "x = div64 (push_bit 1 x)" by (simp add: div64_def bit_push_bit_iff del: One_nat_def)
  then show ?thesis by (metis div64_8_def funpow_swap1)
qed

lemma funpow_8: "(f ^^ 8) x = f (f (f (f (f (f (f (f x)))))))"
  by (simp add: eval_nat_numeral)

lemma div16_8_1: "div16_8 1 = 0x1021"
  by (simp add: div16_8_def funpow_8 div16_def)

lemma div64_8_128: "div64_8 128 = 0x95AC9329AC4BC9B5"
  by (simp add: div64_8_def funpow_8 div64_def)

lemma div16_8_basis:
  "div16_8 2 = 0x2042" "div16_8 4 = 0x4084" "div16_8 8 = 0x8108" "div16_8 16 = 0x1231" "div16_8 32 = 0x2462"
  "div16_8 64 = 0x48C4" "div16_8 128 = 0x9188"
proof -
  show 2: "div16_8 2 = 0x2042" using div16_8_double [of 1] by (simp add: div16_8_1 div16_def)
  show 4: "div16_8 4 = 0x4084" using div16_8_double [of 2] by (simp add: 2 div16_def)
  show 8: "div16_8 8 = 0x8108" using div16_8_double [of 4] by (simp add: 4 div16_def)
  show 16: "div16_8 16 = 0x1231" using div16_8_double [of 8] by (simp add: 8 div16_def)
  show 32: "div16_8 32 = 0x2462" using div16_8_double [of 16] by (simp add: 16 div16_def)
  show 64: "div16_8 64 = 0x48C4" using div16_8_double [of 32] by (simp add: 32 div16_def)
  show "div16_8 128 = 0x9188" using div16_8_double [of 64] by (simp add: 64 div16_def)
qed

lemma div64_8_basis:
  "div64_8 64 = 0xDF7ADABD7A6E2D6F" "div64_8 32 = 0xFA11FE77117CDF02" "div64_8 16 = 0x7D08FF3B88BE6F81" "div64_8 8 = 0xAB28ECB46814FE75" "div64_8 4 = 0xC038E5739841B68F" "div64_8 2 = 0xF5B0E190606B12F2" "div64_8 1 = 0x7AD870C830358979"
proof -
  show 64: "div64_8 64 = 0xDF7ADABD7A6E2D6F" using div64_8_double [of 64] by (simp add: div64_8_128 div64_def)
  show 32: "div64_8 32 = 0xFA11FE77117CDF02" using div64_8_double [of 32] by (simp add: 64 div64_def)
  show 16: "div64_8 16 = 0x7D08FF3B88BE6F81" using div64_8_double [of 16] by (simp add: 32 div64_def)
  show 8: "div64_8 8 = 0xAB28ECB46814FE75" using div64_8_double [of 8] by (simp add: 16 div64_def)
  show 4: "div64_8 4 = 0xC038E5739841B68F" using div64_8_double [of 4] by (simp add: 8 div64_def)
  show 2: "div64_8 2 = 0xF5B0E190606B12F2" using div64_8_double [of 2] by (simp add: 4 div64_def)
  show "div64_8 1 = 0x7AD870C830358979" using div64_8_double [of 1] by (simp add: 2 div64_def)
qed

lemma crc16tab_eq: "crc16tab = map (\<lambda>i. div16_8 (of_nat i)) [0..<256]"
proof -
  have "div16_8 (a XOR b) = div16_8 a XOR div16_8 b" for a b
    by (simp add: div16_8_def push_bit_xor funpow_xor div16_xor)
  note eq = tab256_eq [OF this]
  show ?thesis unfolding eq div16_8_1 div16_8_basis by (simp add: crc16tab_def)
qed

lemma crc64_tab_eq: "crc64_tab = map (\<lambda>i. div64_8 (of_nat i)) [0..<256]"
proof -
  have "div64_8 (a XOR b) = div64_8 a XOR div64_8 b" for a b
    by (simp add: div64_8_def funpow_xor div64_xor)
  note eq = tab256_eq [OF this]
  show ?thesis unfolding eq div64_8_128 div64_8_basis by (simp add: crc64_tab_def)
qed

section \<open>The loops compute the reference checksums\<close>

lemma push_bit_Suc1: "push_bit (Suc n) y = push_bit 1 (push_bit n y)" for y :: "'a::len word"
  by (simp only: push_bit_push_bit plus_1_eq_Suc)

lemma div16_free: "(\<And>j. 16 - n \<le> j \<Longrightarrow> \<not> bit y j) \<Longrightarrow> n \<le> 16 \<Longrightarrow> (div16 ^^ n) y = push_bit n y"
proof (induction n)
  case 0
  then show ?case by simp
next
  case (Suc n)
  have "\<not> bit (push_bit n y) 15" using Suc.prems(1) [of "15 - n"] Suc.prems(2) by (auto simp: bit_push_bit_iff)
  then have "div16 (push_bit n y) = push_bit 1 (push_bit n y)" by (simp only: div16_def if_False)
  then show ?case using Suc by (simp add: push_bit_Suc1 del: One_nat_def push_bit_Suc)
qed

lemma div64_push1: "\<not> bit y 63 \<Longrightarrow> div64 (push_bit 1 y) = y"
proof -
  assume nb: "\<not> bit y 63"
  have "drop_bit 1 (push_bit 1 y) = y"
  proof (rule bit_word_eqI)
    fix n assume "n < LENGTH(64)"
    then have "n < 63 \<or> n = 63" by auto
    then show "bit (drop_bit 1 (push_bit 1 y)) n = bit y n"
      using nb by (auto simp: bit_drop_bit_eq bit_push_bit_iff simp del: One_nat_def)
  qed
  then show ?thesis by (simp add: div64_def bit_push_bit_iff del: One_nat_def)
qed

lemma div64_free: "(\<And>j. 64 - n \<le> j \<Longrightarrow> \<not> bit w j) \<Longrightarrow> n \<le> 64 \<Longrightarrow> (div64 ^^ n) (push_bit n w) = w"
proof (induction n)
  case 0
  then show ?case by simp
next
  case (Suc n)
  have "\<not> bit (push_bit n w) 63" using Suc.prems(1) [of "63 - n"] Suc.prems(2) by (auto simp: bit_push_bit_iff)
  then have "div64 (push_bit (Suc n) w) = push_bit n w"
    unfolding push_bit_Suc1 by (rule div64_push1)
  then show ?case using Suc by (simp add: funpow_swap1 del: push_bit_Suc)
qed

lemma xor_split: "x = push_bit n (drop_bit n x) XOR take_bit n x" for x :: "'a::len word"
  by (rule bit_word_eqI) (auto simp: bit_simps)

lemma crc16_step_ref: "crc16_step crc b = (div16 ^^ 8) (crc XOR push_bit 8 (ucast b))"
proof -
  let ?x = "crc XOR push_bit 8 (ucast b)" and ?y = "drop_bit 8 crc XOR ucast b :: u16"
  have d: "drop_bit 8 ?x = ?y" by (rule bit_word_eqI) (auto simp: bit_simps dest: bit_imp_le_length)
  have t: "take_bit 8 ?y = ?y" by (rule bit_word_eqI) (auto simp: bit_simps dest: bit_imp_le_length)
  then have "unat ?y < 2 ^ 8" by (metis unsigned_take_bit_eq take_bit_nat_less_exp)
  then have y: "drop_bit 8 ?x = ?y" "?y AND 0xFF = ?y" "unat ?y < 256" using d t by (simp_all add: take_bit_eq_mask mask_numeral)
  have "(div16 ^^ 8) ?x = (div16 ^^ 8) (push_bit 8 (drop_bit 8 ?x)) XOR (div16 ^^ 8) (take_bit 8 ?x)"
    by (subst xor_split [of ?x 8]) (simp only: funpow_xor div16_xor)
  also have "(div16 ^^ 8) (take_bit 8 ?x) = push_bit 8 (take_bit 8 ?x)" by (rule div16_free) (auto simp: bit_simps)
  also have "push_bit 8 (take_bit 8 ?x) = push_bit 8 crc" by (rule bit_word_eqI) (auto simp: bit_simps)
  also have "(div16 ^^ 8) (push_bit 8 (drop_bit 8 ?x)) = crc16tab ! unat (?y AND 0xFF)"
    using y by (simp add: crc16tab_eq div16_8_def)
  finally show ?thesis by (simp only: crc16_step_def xor.commute)
qed

lemma crc64_step_ref: "crc64_step crc b = (div64 ^^ 8) (crc XOR ucast b)"
proof -
  let ?x = "crc XOR ucast b" and ?y = "ucast crc XOR b :: u8"
  have y: "take_bit 8 ?x = ucast ?y" by (rule bit_word_eqI) (auto simp: bit_simps dest: bit_imp_le_length)
  have l: "unat ?y < 256" using unsigned_less [of ?y] by simp
  have "(div64 ^^ 8) ?x = (div64 ^^ 8) (push_bit 8 (drop_bit 8 ?x)) XOR (div64 ^^ 8) (take_bit 8 ?x)"
    by (subst xor_split [of ?x 8]) (simp only: funpow_xor div64_xor)
  also have "(div64 ^^ 8) (push_bit 8 (drop_bit 8 ?x)) = drop_bit 8 ?x"
    by (rule div64_free) (auto simp: bit_simps dest: bit_imp_le_length)
  also have "drop_bit 8 ?x = drop_bit 8 crc" by (rule bit_word_eqI) (auto simp: bit_simps dest: bit_imp_le_length)
  also have "(div64 ^^ 8) (take_bit 8 ?x) = crc64_tab ! unat ?y"
    using y l by (simp add: crc64_tab_eq div64_8_def)
  finally show ?thesis by (simp only: crc64_step_def xor.commute)
qed

lemma crc16_fold: "foldl crc16_step 0 bs = crc16_ref bs"
proof -
  have "crc16_step = (\<lambda>c b. (div16 ^^ 8) (c XOR push_bit 8 (ucast b)))"
    by (intro ext) (rule crc16_step_ref)
  then show ?thesis by (simp add: crc16_ref_def)
qed

lemma crc64_fold: "crc64 crc bs = crc64_ref crc bs"
proof -
  have "crc64_step = (\<lambda>c b. (div64 ^^ 8) (c XOR ucast b))" by (intro ext) (rule crc64_step_ref)
  then show ?thesis by (simp add: crc64_def crc64_ref_def)
qed

text \<open>
  Property C30. The table-driven \<^verbatim>\<open>crc16\<close> is the XMODEM checksum its comment names: for every buffer it is the
  bitwise division by \<open>x^16 + x^12 + x^5 + 1\<close>, most significant bit first, and the table-driven \<^verbatim>\<open>crc64\<close>
  is the bitwise division by the reflected Jones polynomial, from any starting value.
\<close>

theorem crc_tables_correct:
  "crc16 buf 0 (length buf) = Some (crc16_ref buf) \<and> crc64 crc buf = crc64_ref crc buf"
  by (simp add: crc16_def slice_def crc16_fold crc64_fold)

section \<open>Error detection\<close>

lemma xor_zero: "a XOR b = 0 \<Longrightarrow> a = b" for a b :: "'a::len word"
  by (metis xor.assoc xor.left_neutral xor.right_neutral xor_self_eq)

lemma div64_zero: "div64 c = 0 \<Longrightarrow> c = 0"
proof -
  assume z: "div64 c = 0"
  have "\<not> bit c 0"
  proof
    assume "bit c 0"
    then have "drop_bit 1 c XOR 0x95AC9329AC4BC9B5 = 0" using z by (simp add: div64_def)
    then have "bit (drop_bit 1 c) 63 = bit (0x95AC9329AC4BC9B5 :: u64) 63" by (metis xor_zero)
    then show False by (simp add: bit_drop_bit_eq del: One_nat_def) (auto dest: bit_imp_le_length)
  qed
  then have d: "drop_bit 1 c = 0" and "\<not> bit c 0" using z by (simp_all add: div64_def)
  show "c = 0"
  proof (rule bit_word_eqI)
    fix n assume "n < LENGTH(64)"
    show "bit c n = bit 0 n"
    proof (cases n)
      case 0
      then show ?thesis using \<open>\<not> bit c 0\<close> by simp
    next
      case (Suc m)
      have "bit (drop_bit 1 c) m = bit (0 :: u64) m" by (simp only: d)
      then show ?thesis using Suc by (simp add: bit_drop_bit_eq)
    qed
  qed
qed

lemma div64_inj: "(div64 ^^ n) a = (div64 ^^ n) b \<Longrightarrow> a = b"
proof (induction n)
  case 0
  then show ?case by simp
next
  case (Suc n)
  have "div64 ((div64 ^^ n) a XOR (div64 ^^ n) b) = 0" using Suc.prems by (simp add: div64_xor)
  then have "(div64 ^^ n) a XOR (div64 ^^ n) b = 0" by (rule div64_zero)
  then show ?case by (rule Suc.IH [OF xor_zero])
qed

fun pack :: "bytes \<Rightarrow> u64" where
  "pack [] = 0"
| "pack (b # bs) = ucast b XOR push_bit 8 (pack bs)"

lemma bit_pack: "j < 64 \<Longrightarrow> bit (pack bs) j \<longleftrightarrow> j < 8 * length bs \<and> bit (bs ! (j div 8)) (j mod 8)"
proof (induction bs arbitrary: j)
  case Nil
  then show ?case by simp
next
  case (Cons b bs)
  show ?case
  proof (cases "j < 8")
    case True
    then show ?thesis by (simp add: bit_simps)
  next
    case False
    then have "j div 8 = Suc ((j - 8) div 8)" "j mod 8 = (j - 8) mod 8"
      by (simp_all add: div_if [of j 8] mod_if [of j 8])
    moreover have "\<not> bit b j" using False by (auto dest: bit_imp_le_length)
    ultimately show ?thesis using Cons.IH [of "j - 8"] Cons.prems False by (auto simp: bit_simps)
  qed
qed

lemma pack_inj: "length x = length y \<Longrightarrow> length x \<le> 8 \<Longrightarrow> pack x = pack y \<Longrightarrow> x = y"
proof (rule nth_equalityI)
  fix i assume l: "length x = length y" "length x \<le> 8" "pack x = pack y" "i < length x"
  show "x ! i = y ! i"
  proof (rule bit_word_eqI)
    fix n assume "n < LENGTH(8)"
    then have n: "8 * i + n < 64" "8 * i + n < 8 * length x" "(8 * i + n) div 8 = i" "(8 * i + n) mod 8 = n"
      using l by auto
    then show "bit (x ! i) n = bit (y ! i) n"
      using l bit_pack [of "8 * i + n" x] bit_pack [of "8 * i + n" y] by simp
  qed
qed simp

lemma crc64_pack: "length x \<le> 8 \<Longrightarrow> crc64 c x = (div64 ^^ (8 * length x)) (c XOR pack x)"
proof (induction x arbitrary: c)
  case Nil
  then show ?case by (simp add: crc64_def)
next
  case (Cons b x)
  have "(div64 ^^ 8) (push_bit 8 (pack x)) = pack x"
  proof (rule div64_free)
    fix j :: nat assume "64 - 8 \<le> j"
    then show "\<not> bit (pack x) j" using Cons.prems bit_pack [of j x] by (cases "j < 64") (auto dest: bit_imp_le_length)
  qed simp
  then have "(div64 ^^ 8) (c XOR pack (b # x)) = (div64 ^^ 8) (c XOR ucast b) XOR pack x"
    by (simp add: funpow_xor div64_xor xor.assoc)
  moreover have "crc64 c (b # x) = crc64 ((div64 ^^ 8) (c XOR ucast b)) x" by (simp add: crc64_def crc64_step_ref)
  moreover have "div64 ^^ (8 * length (b # x)) = (div64 ^^ (8 * length x)) \<circ> (div64 ^^ 8)"
    by (simp add: funpow_add [symmetric] add.commute)
  ultimately show ?case using Cons by simp
qed

lemma crc64_append: "crc64 c (x @ y) = crc64 (crc64 c x) y"
  by (simp add: crc64_def)

lemma crc64_inj: "crc64 c s = crc64 d s \<Longrightarrow> c = d"
proof (induction s arbitrary: c d)
  case Nil
  then show ?case by (simp add: crc64_def)
next
  case (Cons b s)
  have "crc64 (crc64_step c b) s = crc64 (crc64_step d b) s" using Cons.prems by (simp add: crc64_def)
  then have "crc64_step c b = crc64_step d b" by (rule Cons.IH)
  then have "c XOR ucast b = d XOR ucast b" by (simp only: crc64_step_ref) (rule div64_inj)
  then have "(c XOR ucast b) XOR ucast b = (d XOR ucast b) XOR ucast b" by simp
  then show ?case by (simp add: xor.assoc)
qed

text \<open>
  Property C31. The checksum of a dump detects every corruption that is confined to eight adjacent bytes: two
  byte sequences that differ only there have different values of \<^verbatim>\<open>crc64\<close>.
\<close>

theorem crc64_detects_burst:
  assumes "length x = length y" "length x \<le> 8"
  shows "crc64 crc (pre @ x @ post) = crc64 crc (pre @ y @ post) \<longleftrightarrow> x = y"
proof
  assume "crc64 crc (pre @ x @ post) = crc64 crc (pre @ y @ post)"
  then have "crc64 (crc64 crc pre) x = crc64 (crc64 crc pre) y" by (simp only: crc64_append) (rule crc64_inj)
  then have "crc64 crc pre XOR pack x = crc64 crc pre XOR pack y" using assms by (simp only: crc64_pack) (rule div64_inj)
  then have "crc64 crc pre XOR (crc64 crc pre XOR pack x) = crc64 crc pre XOR (crc64 crc pre XOR pack y)" by simp
  then have "pack x = pack y" by (simp add: xor.assoc [symmetric])
  then show "x = y" using pack_inj assms by blast
qed simp

theorem crc64_detects_burst_witness:
  "crc64 0 ([1, 2] @ [3, 4, 5, 6, 7, 8, 9, 10] @ [11]) \<noteq> crc64 0 ([1, 2] @ [3, 4, 5, 6, 7, 8, 9, 11] @ [11])"
  using crc64_detects_burst [of "[3, 4, 5, 6, 7, 8, 9, 10]" "[3, 4, 5, 6, 7, 8, 9, 11]" 0 "[1, 2]" "[11]"] by simp

section \<open>Hash tags\<close>

text \<open>The part of a key that decides its slot.\<close>

definition hash_tag :: "bytes \<Rightarrow> bytes" where
  "hash_tag key =
     (let rest = tl (dropWhile (\<lambda>b. b \<noteq> 0x7B) key); tag = takeWhile (\<lambda>b. b \<noteq> 0x7D) rest in
      if 0x7B \<in> set key \<and> 0x7D \<in> set rest \<and> tag \<noteq> [] then tag else key)"

lemma scan_byte_eq:
  "i \<le> length key \<Longrightarrow> scan_byte key c i (length key) = Some (i + length (takeWhile (\<lambda>b. b \<noteq> c) (drop i key)))"
proof (induction "length key - i" arbitrary: i)
  case 0
  then show ?case by (simp add: scan_byte.simps)
next
  case (Suc n)
  then have i: "i < length key" by simp
  have "drop i key = key ! i # drop (Suc i) key" using i by (simp add: Cons_nth_drop_Suc)
  then show ?case using Suc i by (subst scan_byte.simps) simp
qed

lemma takeWhile_all: "length (takeWhile (\<lambda>b. b \<noteq> c) xs) = length xs \<longleftrightarrow> c \<notin> set xs"
  by (induction xs) auto

text \<open>
  Property C32. Every key has a slot below 16384, and it is the reference checksum of its hash tag modulo 16384: of
  the bytes between the first opening brace and the first closing brace after it when there are any,
  of the whole key otherwise. So keys with a common tag are in one slot.
\<close>

theorem keyHashSlot_tag:
  "\<exists>slot. keyHashSlot key (length key) = Some slot \<and> unat slot = unat (crc16_ref (hash_tag key)) mod 16384 \<and> unat slot < 16384"
proof -
  have m: "unat (c AND 0x3FFF) = unat c mod 16384" for c :: u16
  proof -
    have "c AND 0x3FFF = take_bit 14 c" by (simp add: take_bit_eq_mask mask_numeral)
    moreover have "unat (take_bit 14 c) = unat c mod 2 ^ 14" by (subst unsigned_take_bit_eq) (rule take_bit_eq_mod)
    ultimately show ?thesis by simp
  qed
  have c: "crc16 key off n = Some (crc16_ref (take n (drop off key)))" if "off + n \<le> length key" for off n
    using that by (simp add: crc16_def slice_def crc16_fold)
  let ?s = "length (takeWhile (\<lambda>b. b \<noteq> 0x7B) key)"
  let ?rest = "drop (?s + 1) key"
  let ?tag = "takeWhile (\<lambda>b. b \<noteq> 0x7D) ?rest"
  have rest: "tl (dropWhile (\<lambda>b. b \<noteq> 0x7B) key) = ?rest" by (simp add: dropWhile_eq_drop tl_drop drop_Suc)
  have tag: "take (length ?tag) ?rest = ?tag" by (simp add: takeWhile_eq_take [symmetric])
  show ?thesis
  proof (cases "0x7B \<in> set key")
    case False
    then have "hash_tag key = key" "?s = length key" by (simp_all add: hash_tag_def takeWhile_all)
    then show ?thesis by (simp add: keyHashSlot_def scan_byte_eq c m)
  next
    case True
    then have "?s \<noteq> length key" by (simp add: takeWhile_all)
    then have s: "?s < length key" using length_takeWhile_le [of "\<lambda>b. b \<noteq> 0x7B" key] by linarith
    have e: "scan_byte key 0x7D (?s + 1) (length key) = Some (?s + 1 + length ?tag)" using s by (intro scan_byte_eq) simp
    have all: "?s + 1 + length ?tag = length key \<longleftrightarrow> 0x7D \<notin> set ?rest"
      using s takeWhile_all [of "0x7D" ?rest] by auto
    show ?thesis
    proof (cases "0x7D \<notin> set ?rest \<or> ?tag = []")
      case True
      then have "hash_tag key = key" using rest by (auto simp: hash_tag_def Let_def)
      then show ?thesis using s e all True by (simp add: keyHashSlot_def scan_byte_eq c m)
    next
      case False
      then have "hash_tag key = ?tag" using rest \<open>0x7B \<in> set key\<close> by (simp add: hash_tag_def Let_def)
      moreover have "?s + 1 + length ?tag \<le> length key" using s length_takeWhile_le [of "\<lambda>b. b \<noteq> 0x7D" ?rest] by simp
      ultimately show ?thesis using s e all False tag by (simp add: keyHashSlot_def scan_byte_eq c m)
    qed
  qed
qed

end
