(* ===== verification/Sds.thy ===== *)
theory Sds
  imports Redis_Prelude
begin

text \<open>
  Dynamic strings (sds.c, sds.h), at the level of bytes: a string is a heap block and the offset of the
  pointer the program holds, which is the size of the header that precedes it. The header holds the
  length and the allocated size in a width that depends on the type in the flags byte, and the
  content is followed by a null byte. Allocation failure aborts the server (zmalloc.c), so the
  null results of the allocator have no counterpart. Sizes are \<^verbatim>\<open>size_t\<close>, so sums wrap at \<open>2 ^ 64\<close>.
\<close>

type_synonym sds = "mem \<times> nat"

definition szt :: "nat \<Rightarrow> nat" where
  "szt n = n mod 2 ^ 64"

definition SDS_MAX_PREALLOC :: nat where
  "SDS_MAX_PREALLOC = 1024 * 1024"

section \<open>Headers\<close>

text \<open>The width of the fields of the header structs; type 5 has no fields but the flags byte.\<close>

definition sdshdr_width :: "nat \<Rightarrow> nat option" where
  "sdshdr_width t = (if t = 1 then Some 1 else if t = 2 then Some 2 else if t = 3 then Some 4 else if t = 4 then Some 8 else None)"

definition sdsHdrSize :: "u8 \<Rightarrow> nat" where
  "sdsHdrSize ty =
     (let t = unat (ty AND 7) in
      if t = 0 then 1 else case sdshdr_width t of Some w \<Rightarrow> 2 * w + 1 | None \<Rightarrow> 0)"

definition sdsReqType :: "nat \<Rightarrow> nat" where
  "sdsReqType n = (if n < 2 ^ 5 then 0 else if n < 2 ^ 8 then 1 else if n < 2 ^ 16 then 2 else if n < 2 ^ 32 then 3 else 4)"

text \<open>\<^verbatim>\<open>s[-1]\<close>, and the fields of the struct that ends where the string begins.\<close>

definition hdr_rd :: "sds \<Rightarrow> nat \<Rightarrow> nat \<Rightarrow> bytes option" where
  "hdr_rd s k n = (if k \<le> snd s then rd (snd s - k) n (fst s) else None)"

definition hdr_wr :: "sds \<Rightarrow> nat \<Rightarrow> bytes \<Rightarrow> sds option" where
  "hdr_wr s k bs = (if k \<le> snd s then map_option (\<lambda>m. (m, snd s)) (wr (snd s - k) bs (fst s)) else None)"

definition sds_flags :: "sds \<Rightarrow> u8 option" where
  "sds_flags s = map_option hd (hdr_rd s 1 1)"

definition hdr_len :: "nat \<Rightarrow> sds \<Rightarrow> nat option" where
  "hdr_len w s = map_option (\<lambda>bs. nat (le_udec bs)) (hdr_rd s (2 * w + 1) w)"

definition hdr_alloc :: "nat \<Rightarrow> sds \<Rightarrow> nat option" where
  "hdr_alloc w s = map_option (\<lambda>bs. nat (le_udec bs)) (hdr_rd s (w + 1) w)"

definition sdslen :: "sds \<Rightarrow> nat option" where
  "sdslen s =
     do {
       flags \<leftarrow> sds_flags s;
       let t = unat (flags AND 7);
       if t = 0 then Some (unat (drop_bit 3 flags))
       else case sdshdr_width t of Some w \<Rightarrow> hdr_len w s | None \<Rightarrow> Some 0
     }"

definition sdsavail :: "sds \<Rightarrow> nat option" where
  "sdsavail s =
     do {
       flags \<leftarrow> sds_flags s;
       let t = unat (flags AND 7);
       if t = 0 then Some 0
       else case sdshdr_width t of
         Some w \<Rightarrow> do { a \<leftarrow> hdr_alloc w s; l \<leftarrow> hdr_len w s; Some (nat ((int a - int l) mod 2 ^ 64)) }
       | None \<Rightarrow> Some 0
     }"

definition sdssetlen :: "sds \<Rightarrow> nat \<Rightarrow> sds option" where
  "sdssetlen s newlen =
     do {
       flags \<leftarrow> sds_flags s;
       let t = unat (flags AND 7);
       if t = 0 then hdr_wr s 1 [push_bit 3 (of_nat newlen)]
       else case sdshdr_width t of Some w \<Rightarrow> hdr_wr s (2 * w + 1) (le_enc w (int newlen)) | None \<Rightarrow> Some s
     }"

definition sdsinclen :: "sds \<Rightarrow> nat \<Rightarrow> sds option" where
  "sdsinclen s inc =
     do {
       flags \<leftarrow> sds_flags s;
       let t = unat (flags AND 7);
       if t = 0 then hdr_wr s 1 [push_bit 3 (drop_bit 3 flags + of_nat inc)]
       else case sdshdr_width t of
         Some w \<Rightarrow> do { l \<leftarrow> hdr_len w s; hdr_wr s (2 * w + 1) (le_enc w (int (l + inc))) }
       | None \<Rightarrow> Some s
     }"

definition sdsalloc :: "sds \<Rightarrow> nat option" where
  "sdsalloc s =
     do {
       flags \<leftarrow> sds_flags s;
       let t = unat (flags AND 7);
       if t = 0 then Some (unat (drop_bit 3 flags))
       else case sdshdr_width t of Some w \<Rightarrow> hdr_alloc w s | None \<Rightarrow> Some 0
     }"

definition sdssetalloc :: "sds \<Rightarrow> nat \<Rightarrow> sds option" where
  "sdssetalloc s newlen =
     do {
       flags \<leftarrow> sds_flags s;
       let t = unat (flags AND 7);
       if t = 0 then Some s
       else case sdshdr_width t of Some w \<Rightarrow> hdr_wr s (w + 1) (le_enc w (int newlen)) | None \<Rightarrow> Some s
     }"

section \<open>Creation\<close>

text \<open>The content argument of \<^verbatim>\<open>sdsnewlen\<close>: the marker that leaves the buffer uninitialised, a null
  pointer, which gives a zeroed buffer, or bytes.\<close>

datatype sds_init = SDS_NOINIT | NULL_INIT | Init bytes

definition sdsnewlen :: "sds_init \<Rightarrow> nat \<Rightarrow> sds option" where
  "sdsnewlen init initlen =
     (let type = (if sdsReqType initlen = 0 \<and> initlen = 0 then 1 else sdsReqType initlen);
          hdrlen = sdsHdrSize (of_nat type);
          sh = replicate (szt (hdrlen + initlen + 1)) (if init = NULL_INIT then Some 0 else None) in
      do {
        s \<leftarrow> (case sdshdr_width type of
            None \<Rightarrow> hdr_wr (sh, hdrlen) 1 [of_nat type OR push_bit 3 (of_nat initlen)]
          | Some w \<Rightarrow> do {
              s1 \<leftarrow> hdr_wr (sh, hdrlen) (2 * w + 1) (le_enc w (int initlen));
              s2 \<leftarrow> hdr_wr s1 (w + 1) (le_enc w (int initlen));
              hdr_wr s2 1 [of_nat type]
            });
        m \<leftarrow> (case init of
            Init bs \<Rightarrow> if initlen = 0 then Some (fst s)
              else if initlen \<le> length bs then wr hdrlen (take initlen bs) (fst s) else None
          | _ \<Rightarrow> Some (fst s));
        m' \<leftarrow> wr (hdrlen + initlen) [0] m;
        Some (m', hdrlen)
      })"

definition sdsempty :: "unit \<Rightarrow> sds option" where
  "sdsempty u = sdsnewlen (Init []) 0"

text \<open>\<^verbatim>\<open>strlen\<close> of a C string given by the bytes up to the end of its block.\<close>

definition c_strlen :: "bytes \<Rightarrow> nat option" where
  "c_strlen bs = (if 0 \<in> set bs then Some (length (takeWhile (\<lambda>b. b \<noteq> 0) bs)) else None)"

definition sdsnew :: "bytes option \<Rightarrow> sds option" where
  "sdsnew init =
     (case init of None \<Rightarrow> sdsnewlen NULL_INIT 0
      | Some bs \<Rightarrow> do { initlen \<leftarrow> c_strlen bs; sdsnewlen (Init bs) initlen })"

definition sds_content :: "sds \<Rightarrow> bytes option" where
  "sds_content s = do { len \<leftarrow> sdslen s; rd (snd s) len (fst s) }"

definition sdsdup :: "sds \<Rightarrow> sds option" where
  "sdsdup s = do { len \<leftarrow> sdslen s; bs \<leftarrow> rd (snd s) len (fst s); sdsnewlen (Init bs) len }"

section \<open>Growing and shrinking\<close>

text \<open>A write at \<^verbatim>\<open>s + i\<close>.\<close>

definition sds_wr :: "sds \<Rightarrow> nat \<Rightarrow> bytes \<Rightarrow> sds option" where
  "sds_wr s i bs = map_option (\<lambda>m. (m, snd s)) (wr (snd s + i) bs (fst s))"

definition sdsclear :: "sds \<Rightarrow> sds option" where
  "sdsclear s = do { s1 \<leftarrow> sdssetlen s 0; sds_wr s1 0 [0] }"

text \<open>The size and the type \<^verbatim>\<open>sdsMakeRoomFor\<close> reallocates to.\<close>

definition grown_size :: "nat \<Rightarrow> nat \<Rightarrow> nat" where
  "grown_size len addlen =
     (let newlen = szt (len + addlen) in
      if newlen < SDS_MAX_PREALLOC then szt (newlen * 2) else szt (newlen + SDS_MAX_PREALLOC))"

definition grown_type :: "nat \<Rightarrow> nat" where
  "grown_type newlen = (if sdsReqType newlen = 0 then 1 else sdsReqType newlen)"

definition sdsMakeRoomFor :: "sds \<Rightarrow> nat \<Rightarrow> sds option" where
  "sdsMakeRoomFor s addlen =
     do {
       avail \<leftarrow> sdsavail s;
       flags \<leftarrow> sds_flags s;
       let oldtype = unat (flags AND 7);
       if avail \<ge> addlen then Some s
       else do {
         len \<leftarrow> sdslen s;
         if snd s \<noteq> sdsHdrSize (of_nat oldtype) then None
         else do {
           let newlen = grown_size len addlen;
           let type = grown_type newlen;
           let hdrlen = sdsHdrSize (of_nat type);
           s' \<leftarrow> (if oldtype = type then Some (realloc_mem (szt (hdrlen + newlen + 1)) (fst s), hdrlen)
                 else do {
                   bs \<leftarrow> rd (snd s) (len + 1) (fst s);
                   newsh \<leftarrow> wr hdrlen bs (replicate (szt (hdrlen + newlen + 1)) None);
                   s1 \<leftarrow> hdr_wr (newsh, hdrlen) 1 [of_nat type];
                   sdssetlen s1 len
                 });
           sdssetalloc s' newlen
         }
       }
     }"

definition sdsRemoveFreeSpace :: "sds \<Rightarrow> sds option" where
  "sdsRemoveFreeSpace s =
     do {
       flags \<leftarrow> sds_flags s;
       let oldtype = unat (flags AND 7);
       let oldhdrlen = sdsHdrSize (of_nat oldtype);
       len \<leftarrow> sdslen s;
       avail \<leftarrow> sdsavail s;
       if avail = 0 then Some s
       else if snd s \<noteq> oldhdrlen then None
       else do {
         let type = sdsReqType len;
         let hdrlen = sdsHdrSize (of_nat type);
         s' \<leftarrow> (if oldtype = type \<or> type > 1 then Some (realloc_mem (szt (oldhdrlen + len + 1)) (fst s), oldhdrlen)
               else do {
                 bs \<leftarrow> rd (snd s) (len + 1) (fst s);
                 newsh \<leftarrow> wr hdrlen bs (replicate (szt (hdrlen + len + 1)) None);
                 s1 \<leftarrow> hdr_wr (newsh, hdrlen) 1 [of_nat type];
                 sdssetlen s1 len
               });
         sdssetalloc s' len
       }
     }"

definition sdsAllocSize :: "sds \<Rightarrow> nat option" where
  "sdsAllocSize s = do { alloc \<leftarrow> sdsalloc s; flags \<leftarrow> sds_flags s; Some (szt (sdsHdrSize flags + alloc + 1)) }"

text \<open>\<^verbatim>\<open>sdsIncrLen\<close> with its assertions; the comparisons for the 32-bit header are made in \<^verbatim>\<open>unsigned int\<close>.\<close>

definition sdsIncrLen :: "sds \<Rightarrow> int \<Rightarrow> sds option" where
  "sdsIncrLen s incr =
     do {
       flags \<leftarrow> sds_flags s;
       let t = unat (flags AND 7);
       if t = 0 then do {
         let oldlen = unat (drop_bit 3 flags);
         if incr > 0 \<and> int oldlen + incr < 32 \<or> incr < 0 \<and> int oldlen \<ge> (- incr) mod 2 ^ 32 then do {
           s1 \<leftarrow> hdr_wr s 1 [push_bit 3 (word_of_int (int oldlen + incr))];
           if 0 \<le> int oldlen + incr then sds_wr s1 (nat (int oldlen + incr)) [0] else None
         } else None
       }
       else case sdshdr_width t of
         Some w \<Rightarrow> do {
           a \<leftarrow> hdr_alloc w s;
           l \<leftarrow> hdr_len w s;
           let wrap = (\<lambda>v :: int. if w = 4 then v mod 2 ^ 32 else if w = 8 then v mod 2 ^ 64 else v);
           if incr \<ge> 0 \<and> wrap (int a - int l) \<ge> wrap incr \<or>
              incr < 0 \<and> int l \<ge> (if w = 8 then (- incr) mod 2 ^ 64 else (- incr) mod 2 ^ 32) then do {
             let len = nat ((int l + incr) mod 2 ^ (8 * w));
             s1 \<leftarrow> hdr_wr s (2 * w + 1) (le_enc w (int l + incr));
             sds_wr s1 len [0]
           } else None
         }
       | None \<Rightarrow> sds_wr s 0 [0]
     }"

definition sdsgrowzero :: "sds \<Rightarrow> nat \<Rightarrow> sds option" where
  "sdsgrowzero s len =
     do {
       curlen \<leftarrow> sdslen s;
       if len \<le> curlen then Some s
       else do {
         s1 \<leftarrow> sdsMakeRoomFor s (len - curlen);
         s2 \<leftarrow> sds_wr s1 curlen (replicate (len - curlen + 1) 0);
         sdssetlen s2 len
       }
     }"

definition sdscatlen :: "sds \<Rightarrow> bytes \<Rightarrow> sds option" where
  "sdscatlen s t =
     do {
       curlen \<leftarrow> sdslen s;
       s1 \<leftarrow> sdsMakeRoomFor s (length t);
       s2 \<leftarrow> sds_wr s1 curlen t;
       s3 \<leftarrow> sdssetlen s2 (curlen + length t);
       sds_wr s3 (curlen + length t) [0]
     }"

definition sdscat :: "sds \<Rightarrow> bytes \<Rightarrow> sds option" where
  "sdscat s t = do { n \<leftarrow> c_strlen t; sdscatlen s (take n t) }"

definition sdscatsds :: "sds \<Rightarrow> sds \<Rightarrow> sds option" where
  "sdscatsds s t = do { bs \<leftarrow> sds_content t; sdscatlen s bs }"

definition sdscpylen :: "sds \<Rightarrow> bytes \<Rightarrow> sds option" where
  "sdscpylen s t =
     do {
       a \<leftarrow> sdsalloc s;
       s1 \<leftarrow> (if a < length t then do { l \<leftarrow> sdslen s; sdsMakeRoomFor s (length t - l) } else Some s);
       s2 \<leftarrow> sds_wr s1 0 t;
       s3 \<leftarrow> sds_wr s2 (length t) [0];
       sdssetlen s3 (length t)
     }"

definition sdscpy :: "sds \<Rightarrow> bytes \<Rightarrow> sds option" where
  "sdscpy s t = do { n \<leftarrow> c_strlen t; sdscpylen s (take n t) }"

section \<open>Editing in place\<close>

definition sds_byte :: "sds \<Rightarrow> nat \<Rightarrow> u8 option" where
  "sds_byte s i = map_option hd (rd (snd s + i) 1 (fst s))"

definition sds_move :: "sds \<Rightarrow> nat \<Rightarrow> nat \<Rightarrow> nat \<Rightarrow> sds option" where
  "sds_move s dst src n = map_option (\<lambda>m. (m, snd s)) (memmove (snd s + dst) (snd s + src) n (fst s))"

text \<open>\<^verbatim>\<open>strchr\<close> on the C string with the bytes \<open>cset\<close>; it also finds the terminator.\<close>

definition in_cset :: "bytes \<Rightarrow> u8 \<Rightarrow> bool" where
  "in_cset cset c \<longleftrightarrow> c \<in> set cset \<or> c = 0"

function trim_left :: "sds \<Rightarrow> bytes \<Rightarrow> nat \<Rightarrow> nat \<Rightarrow> nat option" where
  "trim_left s cset sp n =
     (if sp < n then do { c \<leftarrow> sds_byte s sp; if in_cset cset c then trim_left s cset (Suc sp) n else Some sp }
      else Some sp)"
  by pat_completeness auto
termination by (relation "measure (\<lambda>(s, cset, sp, n). n - sp)") auto

function trim_right :: "sds \<Rightarrow> bytes \<Rightarrow> int \<Rightarrow> nat \<Rightarrow> int option" where
  "trim_right s cset ep sp =
     (if ep > int sp then do { c \<leftarrow> sds_byte s (nat ep); if in_cset cset c then trim_right s cset (ep - 1) sp else Some ep }
      else Some ep)"
  by pat_completeness auto
termination by (relation "measure (\<lambda>(s, cset, ep, sp). nat (ep - int sp))") auto

declare trim_left.simps [simp del] trim_right.simps [simp del]

definition sdstrim :: "sds \<Rightarrow> bytes \<Rightarrow> sds option" where
  "sdstrim s cset =
     do {
       n \<leftarrow> sdslen s;
       sp \<leftarrow> trim_left s cset 0 n;
       ep \<leftarrow> trim_right s cset (int n - 1) sp;
       let len = (if int sp > ep then 0 else nat ((ep - int sp) + 1));
       s1 \<leftarrow> (if sp \<noteq> 0 then sds_move s 0 sp len else Some s);
       s2 \<leftarrow> sds_wr s1 len [0];
       sdssetlen s2 len
     }"

text \<open>\<^verbatim>\<open>sdsrange\<close>: the length of the range is computed in \<^verbatim>\<open>ssize_t\<close>, whose overflow is undefined.\<close>

definition range_len :: "int \<Rightarrow> int \<Rightarrow> nat option" where
  "range_len start over = (if start > over then Some 0 else if over - start + 1 > INT64_MAX then None else Some (nat (over - start + 1)))"

definition sdsrange :: "sds \<Rightarrow> int \<Rightarrow> int \<Rightarrow> sds option" where
  "sdsrange s start over =
     do {
       len \<leftarrow> sdslen s;
       if len = 0 then Some s
       else do {
         let start = (if start < 0 then max 0 (int len + start) else start);
         let over = (if over < 0 then max 0 (int len + over) else over);
         newlen \<leftarrow> range_len start over;
         (start, newlen) \<leftarrow> (if newlen \<noteq> 0 then
             if start \<ge> int len then Some (start, 0)
             else if over \<ge> int len then do { n \<leftarrow> range_len start (int len - 1); Some (start, n) }
             else Some (start, newlen)
           else Some (0, newlen));
         s1 \<leftarrow> (if start \<noteq> 0 \<and> newlen \<noteq> 0 then sds_move s 0 (nat start) newlen else Some s);
         s2 \<leftarrow> sds_wr s1 newlen [0];
         sdssetlen s2 newlen
       }
     }"

text \<open>The loops of \<^verbatim>\<open>sdstolower\<close>, \<^verbatim>\<open>sdstoupper\<close> and \<^verbatim>\<open>sdsmapchars\<close> replace every byte by a function of it.\<close>

function sds_map_loop :: "(u8 \<Rightarrow> u8) \<Rightarrow> sds \<Rightarrow> nat \<Rightarrow> nat \<Rightarrow> sds option" where
  "sds_map_loop f s j l =
     (if j < l then do { c \<leftarrow> sds_byte s j; s' \<leftarrow> sds_wr s j [f c]; sds_map_loop f s' (Suc j) l } else Some s)"
  by pat_completeness auto
termination by (relation "measure (\<lambda>(f, s, j, l). l - j)") auto

declare sds_map_loop.simps [simp del]

definition c_tolower :: "u8 \<Rightarrow> u8" where
  "c_tolower c = (if 0x41 \<le> c \<and> c \<le> 0x5A then c + 32 else c)"

definition c_toupper :: "u8 \<Rightarrow> u8" where
  "c_toupper c = (if 0x61 \<le> c \<and> c \<le> 0x7A then c - 32 else c)"

definition sdstolower :: "sds \<Rightarrow> sds option" where
  "sdstolower s = do { l \<leftarrow> sdslen s; sds_map_loop c_tolower s 0 l }"

definition sdstoupper :: "sds \<Rightarrow> sds option" where
  "sdstoupper s = do { l \<leftarrow> sdslen s; sds_map_loop c_toupper s 0 l }"

fun map_char :: "u8 \<Rightarrow> (u8 \<times> u8) list \<Rightarrow> u8" where
  "map_char c [] = c"
| "map_char c ((x, y) # ft) = (if c = x then y else map_char c ft)"

definition sdsmapchars :: "sds \<Rightarrow> bytes \<Rightarrow> bytes \<Rightarrow> nat \<Rightarrow> sds option" where
  "sdsmapchars s from to setlen =
     do { l \<leftarrow> sdslen s; sds_map_loop (\<lambda>c. map_char c (zip (take setlen from) (take setlen to))) s 0 l }"

text \<open>\<^verbatim>\<open>memcmp\<close>, of which only the sign is specified.\<close>

fun c_memcmp :: "bytes \<Rightarrow> bytes \<Rightarrow> int" where
  "c_memcmp (a # as) (b # bs) = (if a < b then - 1 else if b < a then 1 else c_memcmp as bs)"
| "c_memcmp _ _ = 0"

definition sdscmp :: "sds \<Rightarrow> sds \<Rightarrow> int option" where
  "sdscmp s1 s2 =
     do {
       l1 \<leftarrow> sdslen s1;
       l2 \<leftarrow> sdslen s2;
       let minlen = (if l1 < l2 then l1 else l2);
       a \<leftarrow> rd (snd s1) minlen (fst s1);
       b \<leftarrow> rd (snd s2) minlen (fst s2);
       let cmp = c_memcmp a b;
       Some (if cmp = 0 then (if l1 > l2 then 1 else if l1 < l2 then - 1 else 0) else cmp)
     }"

section \<open>Representation\<close>

definition hdr_bytes :: "nat \<Rightarrow> nat \<Rightarrow> nat \<Rightarrow> bytes" where
  "hdr_bytes t l a =
     (case sdshdr_width t of None \<Rightarrow> [push_bit 3 (of_nat l)]
      | Some w \<Rightarrow> le_enc w (int l) @ le_enc w (int a) @ [of_nat t])"

definition hdr_cap :: "nat \<Rightarrow> nat" where
  "hdr_cap t = (case sdshdr_width t of None \<Rightarrow> 32 | Some w \<Rightarrow> 2 ^ (8 * w))"

text \<open>A block of type \<open>t\<close> that holds \<open>str\<close> and has the bytes \<open>free\<close> left.\<close>

definition sds_of :: "nat \<Rightarrow> bytes \<Rightarrow> mem \<Rightarrow> sds" where
  "sds_of t str free =
     (map Some (hdr_bytes t (length str) (length str + length free)) @ map Some str @ Some 0 # free,
      sdsHdrSize (of_nat t))"

definition sds_ok :: "nat \<Rightarrow> bytes \<Rightarrow> mem \<Rightarrow> bool" where
  "sds_ok t str free \<longleftrightarrow> t \<le> 4 \<and> length str + length free < hdr_cap t"

definition sds_rep :: "sds \<Rightarrow> bytes \<Rightarrow> bool" where
  "sds_rep s str \<longleftrightarrow> (\<exists>t free. sds_ok t str free \<and> s = sds_of t str free)"

lemma type_le4: "t \<le> 4 \<longleftrightarrow> t = 0 \<or> t = 1 \<or> t = 2 \<or> t = 3 \<or> t = 4" for t :: nat
  by auto

lemma type_cases:
  assumes "t \<le> 4"
  obtains (five) "t = 0" "sdshdr_width t = None" "sdsHdrSize (of_nat t) = 1" "hdr_cap t = 32"
    | (fields) w where "t \<le> 4" "0 < t" "sdshdr_width t = Some w" "0 < w" "w \<le> 8"
        "sdsHdrSize (of_nat t) = Suc (2 * w)" "hdr_cap t = 2 ^ (8 * w)"
  using assms by (auto simp: type_le4 sdshdr_width_def sdsHdrSize_def hdr_cap_def)

lemma type_unat: "t \<le> 4 \<Longrightarrow> unat (of_nat t AND 7 :: u8) = t"
  by (auto simp: type_le4)

lemma le_udec_enc_less: "n < 2 ^ (8 * w) \<Longrightarrow> nat (le_udec (le_enc w (int n))) = n"
  by (simp add: le_udec_enc nat_mod_distrib nat_power_eq)

section \<open>Field accesses\<close>

text \<open>A header whose bytes may still be uninitialised.\<close>

lemma raw_hdr:
  shows "length A = w \<Longrightarrow> length B = w \<Longrightarrow> sds_flags (A @ B @ Some f # rest, Suc (2 * w)) = Some f"
    and "length C = w \<Longrightarrow> length B = w \<Longrightarrow> hdr_rd (map Some C @ B @ F # rest, Suc (2 * w)) (Suc (2 * w)) w = Some C"
    and "length A = w \<Longrightarrow> length D = w \<Longrightarrow> hdr_rd (A @ map Some D @ F # rest, Suc (2 * w)) (Suc w) w = Some D"
    and "length A = w \<Longrightarrow> length B = w \<Longrightarrow> length C = w \<Longrightarrow>
      hdr_wr (A @ B @ F # rest, Suc (2 * w)) (Suc (2 * w)) C = Some (map Some C @ B @ F # rest, Suc (2 * w))"
    and "length A = w \<Longrightarrow> length B = w \<Longrightarrow> length C = w \<Longrightarrow>
      hdr_wr (A @ B @ F # rest, Suc (2 * w)) (Suc w) C = Some (A @ map Some C @ F # rest, Suc (2 * w))"
    and "length A = w \<Longrightarrow> length B = w \<Longrightarrow> hdr_wr (A @ B @ F # rest, Suc (2 * w)) (Suc 0) [g] = Some (A @ B @ Some g # rest, Suc (2 * w))"
  by (simp_all add: sds_flags_def hdr_rd_def hdr_wr_def rd_def wr_def mult_2)

lemma five_hdr:
  shows "sds_flags (Some f # rest, Suc 0) = Some f"
    and "hdr_wr (F # rest, Suc 0) (Suc 0) [g] = Some (Some g # rest, Suc 0)"
  by (simp_all add: sds_flags_def hdr_rd_def hdr_wr_def rd_def wr_def)

lemma five_flag:
  shows "unat (push_bit 3 (of_nat l) AND 7 :: u8) = 0"
    and "l < 32 \<Longrightarrow> unat (drop_bit 3 (push_bit 3 (of_nat l)) :: u8) = l"
proof -
  have "(push_bit 3 (of_nat l) :: u8) AND mask 3 = 0"
    by (simp only: take_bit_eq_mask [symmetric] take_bit_push_bit) simp
  then show "unat (push_bit 3 (of_nat l) AND 7 :: u8) = 0" by (simp add: mask_numeral)
  assume "l < 32"
  then have "unat (push_bit 3 (of_nat l) :: u8) = 8 * l" by (simp only: push_bit_of_nat unat_of_nat) (simp add: push_bit_nat_def)
  then show "unat (drop_bit 3 (push_bit 3 (of_nat l)) :: u8) = l" using \<open>l < 32\<close>
    by (simp add: unsigned_drop_bit_eq drop_bit_nat_def take_bit_nat_def)
qed

lemma raw_setlen:
  assumes "t \<le> 4" "sdshdr_width t = Some w" "length A = w" "length B = w"
  shows "sdssetlen (A @ B @ Some (of_nat t) # rest, Suc (2 * w)) n = Some (map Some (le_enc w (int n)) @ B @ Some (of_nat t) # rest, Suc (2 * w))"
    and "sdssetalloc (A @ B @ Some (of_nat t) # rest, Suc (2 * w)) n = Some (A @ map Some (le_enc w (int n)) @ Some (of_nat t) # rest, Suc (2 * w))"
proof -
  have "0 < t" using assms(2) by (auto simp: sdshdr_width_def intro: gr0I)
  then show "sdssetlen (A @ B @ Some (of_nat t) # rest, Suc (2 * w)) n = Some (map Some (le_enc w (int n)) @ B @ Some (of_nat t) # rest, Suc (2 * w))"
    and "sdssetalloc (A @ B @ Some (of_nat t) # rest, Suc (2 * w)) n = Some (A @ map Some (le_enc w (int n)) @ Some (of_nat t) # rest, Suc (2 * w))"
    using assms by (simp_all add: sdssetlen_def sdssetalloc_def type_unat Let_def raw_hdr)
qed

definition blk :: "nat \<Rightarrow> nat \<Rightarrow> nat \<Rightarrow> mem \<Rightarrow> sds" where
  "blk t l a rest = (map Some (hdr_bytes t l a) @ rest, sdsHdrSize (of_nat t))"

lemma sds_of_blk: "sds_of t str free = blk t (length str) (length str + length free) (map Some str @ Some 0 # free)"
  by (simp add: sds_of_def blk_def)

lemma blk_five: "blk 0 l a rest = (Some (push_bit 3 (of_nat l)) # rest, Suc 0)"
  by (simp add: blk_def hdr_bytes_def sdshdr_width_def sdsHdrSize_def)

lemma blk_fields: "t \<le> 4 \<Longrightarrow> sdshdr_width t = Some w \<Longrightarrow>
    blk t l a rest = (map Some (le_enc w (int l)) @ map Some (le_enc w (int a)) @ Some (of_nat t) # rest, Suc (2 * w))"
  by (erule type_cases) (auto simp: blk_def hdr_bytes_def)

lemma blk_flags: "t \<le> 4 \<Longrightarrow> \<exists>f. sds_flags (blk t l a rest) = Some f \<and> unat (f AND 7) = t \<and> (t = 0 \<longrightarrow> f = push_bit 3 (of_nat l))"
  by (erule type_cases) (simp_all add: blk_five blk_fields five_hdr five_flag raw_hdr type_unat)

lemma blk_sdslen [simp]:
  assumes "t \<le> 4" "l < hdr_cap t"
  shows "sdslen (blk t l a rest) = Some l"
  using assms(1)
proof (cases rule: type_cases)
  case five
  then show ?thesis using assms(2) by (simp add: sdslen_def blk_five five_hdr five_flag)
next
  case (fields w)
  then show ?thesis using assms
    by (simp add: sdslen_def blk_fields raw_hdr hdr_len_def type_unat le_udec_enc_less Let_def)
qed

lemma blk_sdsalloc [simp]:
  assumes "t \<le> 4" "a < hdr_cap t" "l \<le> a"
  shows "sdsalloc (blk t l a rest) = Some (if t = 0 then l else a)"
  using assms(1)
proof (cases rule: type_cases)
  case five
  then show ?thesis using assms by (simp add: sdsalloc_def blk_five five_hdr five_flag)
next
  case (fields w)
  then show ?thesis using assms
    by (simp add: sdsalloc_def blk_fields raw_hdr hdr_alloc_def type_unat le_udec_enc_less Let_def)
qed

lemma hdr_cap_le: "hdr_cap t \<le> 2 ^ 64"
  by (auto simp: hdr_cap_def sdshdr_width_def)

lemma blk_sdsavail [simp]:
  assumes "t \<le> 4" "a < hdr_cap t" "l \<le> a"
  shows "sdsavail (blk t l a rest) = Some (if t = 0 then 0 else a - l)"
  using assms(1)
proof (cases rule: type_cases)
  case five
  then show ?thesis using assms by (simp add: sdsavail_def blk_five five_hdr five_flag)
next
  case (fields w)
  have "l < 2 ^ (8 * w)" using fields assms by simp
  moreover have "int a - int l < 2 ^ 64" using assms hdr_cap_le [of t] by simp
  ultimately show ?thesis using fields assms
    by (simp add: sdsavail_def blk_fields raw_hdr hdr_alloc_def hdr_len_def type_unat le_udec_enc_less Let_def nat_diff_distrib)
qed

lemma blk_sdssetlen [simp]: "t \<le> 4 \<Longrightarrow> sdssetlen (blk t l a rest) n = Some (blk t n a rest)"
  by (erule type_cases) (simp_all add: blk_fields raw_setlen, simp add: blk_five sdssetlen_def five_hdr five_flag)

lemma blk_sdssetalloc [simp]: "t \<le> 4 \<Longrightarrow> sdssetalloc (blk t l a rest) n = Some (blk t l n rest)"
  by (erule type_cases) (simp_all add: blk_fields raw_setlen, simp add: blk_five sdssetalloc_def five_hdr five_flag)

lemma hdr_length: "t \<le> 4 \<Longrightarrow> length (hdr_bytes t l a) = sdsHdrSize (of_nat t)"
  by (erule type_cases) (simp_all add: hdr_bytes_def)

lemma blk_wr:
  assumes "t \<le> 4" "length xs = i" "length ys = length bs"
  shows "sds_wr (blk t l a (xs @ ys @ zs)) i bs = Some (blk t l a (xs @ map Some bs @ zs))"
  using assms by (simp add: sds_wr_def blk_def wr_def hdr_length)

lemma blk_rd:
  assumes "t \<le> 4"
  shows "rd (snd (blk t l a (map Some xs @ zs))) (length xs) (fst (blk t l a (map Some xs @ zs))) = Some xs"
  using assms by (simp add: blk_def rd_def hdr_length)

section \<open>Operations on representations\<close>

lemma sds_okD:
  assumes "sds_ok t str free"
  shows "t \<le> 4" "length str < hdr_cap t" "length str + length free < hdr_cap t"
  using assms by (auto simp: sds_ok_def)

lemma sdslen_of: "sds_ok t str free \<Longrightarrow> sdslen (sds_of t str free) = Some (length str)"
  by (simp add: sds_of_blk sds_okD)

lemma sdsavail_of: "sds_ok t str free \<Longrightarrow> sdsavail (sds_of t str free) = Some (if t = 0 then 0 else length free)"
  by (simp add: sds_of_blk sds_okD)

lemma sdsalloc_of: "sds_ok t str free \<Longrightarrow> sdsalloc (sds_of t str free) = Some (if t = 0 then length str else length str + length free)"
  by (simp add: sds_of_blk sds_okD)

lemma reqtype_cap: "n < 2 ^ 64 \<Longrightarrow> sdsReqType n \<le> 4 \<and> n < hdr_cap (sdsReqType n) \<and> (if sdsReqType n = 0 then n < hdr_cap 1 else True)"
  by (auto simp: sdsReqType_def hdr_cap_def sdshdr_width_def)

text \<open>A new block with an uninitialised header of type \<open>t\<close>.\<close>

lemma fresh_header:
  assumes "t \<le> 4"
  shows "do { s1 \<leftarrow> hdr_wr (replicate (sdsHdrSize (of_nat t)) None @ rest, sdsHdrSize (of_nat t)) 1 [of_nat t];
              s2 \<leftarrow> sdssetlen s1 l; sdssetalloc s2 a } = Some (blk t l a rest)"
  using assms(1)
proof (cases rule: type_cases)
  case five
  then show ?thesis by (simp add: five_hdr sdssetlen_def sdssetalloc_def five_flag blk_five)
next
  case (fields w)
  have "replicate (Suc (2 * w)) None @ rest = replicate w None @ replicate w None @ None # rest" for rest :: mem
    by (simp add: mult_2 replicate_add replicate_append_same)
  then show ?thesis using fields by (simp add: raw_hdr raw_setlen blk_fields)
qed

lemma hdr_size_le: "t \<le> 4 \<Longrightarrow> 0 < sdsHdrSize (of_nat t) \<and> sdsHdrSize (of_nat t) \<le> 17"
  by (erule type_cases) simp_all

lemma szt_id [simp]: "n < 2 ^ 64 \<Longrightarrow> szt n = n"
  by (simp add: szt_def)

lemma flags_of:
  "sds_ok t str free \<Longrightarrow> \<exists>f. sds_flags (sds_of t str free) = Some f \<and> unat (f AND 7) = t"
  unfolding sds_of_blk using blk_flags sds_okD by metis

lemma copy_block:
  assumes "t' \<le> 4" "length str \<le> a" "a < 2 ^ 63" "sds_ok t str free"
  shows "do { bs \<leftarrow> rd (snd (sds_of t str free)) (length str + 1) (fst (sds_of t str free));
              newsh \<leftarrow> wr (sdsHdrSize (of_nat t')) bs (replicate (szt (sdsHdrSize (of_nat t') + a + 1)) None);
              s1 \<leftarrow> hdr_wr (newsh, sdsHdrSize (of_nat t')) 1 [of_nat t'];
              s' \<leftarrow> sdssetlen s1 (length str);
              sdssetalloc s' a } = Some (sds_of t' str (replicate (a - length str) None))"
proof -
  let ?h = "sdsHdrSize (of_nat t')"
  have t: "t \<le> 4" using sds_okD [OF assms(4)] by blast
  have "rd (snd (sds_of t str free)) (length (str @ [0])) (fst (sds_of t str free)) = Some (str @ [0])"
    using blk_rd [OF t, of _ _ "str @ [0]" free] by (simp add: sds_of_blk)
  moreover have "wr ?h (str @ [0]) (replicate (?h + a + 1) None) =
      Some (replicate ?h None @ map Some str @ Some 0 # replicate (a - length str) None)"
    using assms(2) by (simp add: wr_def Suc_diff_le del: replicate_Suc)
  moreover have "szt (?h + a + 1) = ?h + a + 1" using hdr_size_le [OF assms(1)] assms(3) by (intro szt_id) simp
  ultimately show ?thesis using fresh_header [OF assms(1)] assms(2) by (simp add: sds_of_blk)
qed

lemma realloc_block:
  assumes "t \<le> 4" "length str + length free \<le> N" "N < 2 ^ 63"
  shows "(realloc_mem (szt (sdsHdrSize (of_nat t) + N + 1)) (fst (sds_of t str free)), sdsHdrSize (of_nat t)) =
    blk t (length str) (length str + length free) (map Some str @ Some 0 # free @ replicate (N - (length str + length free)) None)"
proof -
  have "szt (sdsHdrSize (of_nat t) + N + 1) = sdsHdrSize (of_nat t) + N + 1"
    using hdr_size_le [of t] assms by (intro szt_id) simp
  then show ?thesis using assms by (simp add: realloc_mem_def sds_of_def blk_def hdr_length)
qed

lemma grown_size_bounds: "len + addlen < 2 ^ 62 \<Longrightarrow> len + addlen \<le> grown_size len addlen"
    "len + addlen < 2 ^ 62 \<Longrightarrow> grown_size len addlen < 2 ^ 63"
  by (auto simp: grown_size_def SDS_MAX_PREALLOC_def Let_def)

lemma grown_type_ok: "grown_type n \<le> 4" "n < 2 ^ 64 \<Longrightarrow> n < hdr_cap (grown_type n)" "grown_type n \<noteq> 0"
  by (auto simp: grown_type_def sdsReqType_def hdr_cap_def sdshdr_width_def)

lemma makeroom_of:
  assumes ok: "sds_ok t str free" and b: "length str + addlen < 2 ^ 62"
  shows "\<exists>t' free'. sdsMakeRoomFor (sds_of t str free) addlen = Some (sds_of t' str free') \<and>
    sds_ok t' str free' \<and> addlen \<le> length free' \<and> (t' \<noteq> 0 \<or> addlen = 0)"
proof (cases "addlen \<le> (if t = 0 then 0 else length free)")
  case True
  obtain f where "sds_flags (sds_of t str free) = Some f" using flags_of [OF ok] by blast
  then show ?thesis using True ok
    by (intro exI [of _ t] exI [of _ free]) (auto simp: sdsMakeRoomFor_def sdsavail_of sds_ok_def split: if_splits)
next
  case False
  obtain f where f: "sds_flags (sds_of t str free) = Some f" "unat (f AND 7) = t" using flags_of [OF ok] by blast
  note okD = sds_okD [OF ok]
  define N where "N = grown_size (length str) addlen"
  define t' where "t' = grown_type N"
  note N = grown_size_bounds [OF b, folded N_def] and t' = grown_type_ok [of N, folded t'_def]
  have snd: "snd (sds_of t str free) = sdsHdrSize (of_nat t)" by (simp add: sds_of_def)
  have t0: "t = t' \<Longrightarrow> t \<noteq> 0" "t = 0 \<Longrightarrow> addlen \<noteq> 0" using t' False by auto
  have unf: "sdsMakeRoomFor (sds_of t str free) addlen =
      do {
        s' \<leftarrow> (if t = t' then Some (realloc_mem (szt (sdsHdrSize (of_nat t') + N + 1)) (fst (sds_of t str free)), sdsHdrSize (of_nat t'))
          else do {
            bs \<leftarrow> rd (snd (sds_of t str free)) (length str + 1) (fst (sds_of t str free));
            newsh \<leftarrow> wr (sdsHdrSize (of_nat t')) bs (replicate (szt (sdsHdrSize (of_nat t') + N + 1)) None);
            s1 \<leftarrow> hdr_wr (newsh, sdsHdrSize (of_nat t')) 1 [of_nat t'];
            sdssetlen s1 (length str)
          });
        sdssetalloc s' N
      }"
    using False f snd unfolding sdsMakeRoomFor_def Let_def sdsavail_of [OF ok] sdslen_of [OF ok] N_def t'_def by simp
  let ?free = "if t = t' then free @ replicate (N - (length str + length free)) None else replicate (N - length str) None"
  have "sdsMakeRoomFor (sds_of t str free) addlen = Some (sds_of t' str ?free)"
  proof (cases "t = t'")
    case True
    have "length str + length free \<le> N" using False N t0(1) [OF True] by auto
    note realloc_block [OF okD(1) this N(2)]
    moreover have "length str + length ?free = N" using False N True t0(1) [OF True] by simp
    ultimately show ?thesis
      using False snd okD True unfolding unf by (simp add: sds_of_blk)
  next
    case ne: False
    then show ?thesis
      using copy_block [OF t'(1) _ N(2) ok] N unfolding unf by simp
  qed
  moreover have "sds_ok t' str ?free" using t' N False t0 by (auto simp: sds_ok_def)
  ultimately show ?thesis using t' N False t0 by (intro exI [of _ t'] exI [of _ ?free]) auto
qed

lemma sds_repI: "sds_ok t str free \<Longrightarrow> sds_rep (sds_of t str free) str"
  by (auto simp: sds_rep_def)

lemma sdslen_rep: "sds_rep s str \<Longrightarrow> sdslen s = Some (length str)"
  by (auto simp: sds_rep_def sdslen_of)

lemma content_rep: "sds_rep s str \<Longrightarrow> sds_content s = Some str"
  by (auto simp: sds_rep_def sds_content_def sdslen_of) (simp add: sds_of_blk blk_rd sds_okD)

text \<open>The header that \<^verbatim>\<open>sdsnewlen\<close> writes into a fresh block.\<close>

lemma newlen_hdr:
  assumes "t \<le> 4"
  shows "(case sdshdr_width t of
        None \<Rightarrow> hdr_wr (replicate (sdsHdrSize (of_nat t) + n + 1) None, sdsHdrSize (of_nat t)) 1 [of_nat t OR push_bit 3 (of_nat n)]
      | Some w \<Rightarrow> do {
          s1 \<leftarrow> hdr_wr (replicate (sdsHdrSize (of_nat t) + n + 1) None, sdsHdrSize (of_nat t)) (2 * w + 1) (le_enc w (int n));
          s2 \<leftarrow> hdr_wr s1 (w + 1) (le_enc w (int n));
          hdr_wr s2 1 [of_nat t]
        }) = Some (blk t n n (replicate (n + 1) None))"
  using assms
proof (cases rule: type_cases)
  case five
  then show ?thesis by (simp add: five_hdr blk_five)
next
  case (fields w)
  have r: "replicate (sdsHdrSize (of_nat t) + n + 1) None = replicate w None @ replicate w None @ None # replicate (n + 1) None"
    using fields by (simp add: mult_2 replicate_add replicate_app_Cons_same)
  show ?thesis using fields unfolding r by (simp add: raw_hdr blk_fields)
qed

definition newlen_type :: "nat \<Rightarrow> nat" where
  "newlen_type n = (if sdsReqType n = 0 \<and> n = 0 then 1 else sdsReqType n)"

lemma newlen_type_ok: "n < 2 ^ 64 \<Longrightarrow> newlen_type n \<le> 4 \<and> n < hdr_cap (newlen_type n)"
  using reqtype_cap [of n] by (auto simp: newlen_type_def hdr_cap_def sdshdr_width_def)

lemma newlen_rep:
  assumes "n \<le> length bs" "n < 2 ^ 62"
  shows "\<exists>s. sdsnewlen (Init bs) n = Some s \<and> sds_rep s (take n bs)"
proof -
  define t where "t = newlen_type n"
  have t: "t \<le> 4" "n < hdr_cap t" using newlen_type_ok [of n] assms by (auto simp: t_def)
  define h where "h = sdsHdrSize (of_nat t :: u8)"
  have sz: "szt (h + n + 1) = h + n + 1" using hdr_size_le [OF t(1)] assms unfolding h_def by (intro szt_id) simp
  have m: "(if n = 0 then Some (fst (blk t n n (replicate (n + 1) None)))
      else if n \<le> length bs then wr h (take n bs) (fst (blk t n n (replicate (n + 1) None))) else None) =
      Some (fst (blk t n n (map Some (take n bs) @ [None])))"
    using assms(1) blk_wr [OF t(1), of "[]" 0 "replicate n None" "take n bs" n n "[None]"]
    by (auto simp: sds_wr_def h_def blk_def replicate_append_same)
  have "wr (h + n) [0] (fst (blk t n n (map Some (take n bs) @ [None]))) = Some (fst (blk t n n (map Some (take n bs) @ [Some 0])))"
    using assms(1) blk_wr [OF t(1), of "map Some (take n bs)" n "[None]" "[0]" n n "[]"] by (simp add: sds_wr_def h_def blk_def)
  then have "sdsnewlen (Init bs) n = Some (blk t n n (map Some (take n bs) @ [Some 0]))"
    unfolding sdsnewlen_def newlen_type_def [symmetric] t_def [symmetric] Let_def h_def [symmetric] sz
    by (simp only: sds_init.distinct sds_init.simps if_False newlen_hdr [OF t(1), folded h_def] m bind.bind_lunit) (simp add: blk_def h_def)
  then have "sdsnewlen (Init bs) n = Some (sds_of t (take n bs) [])" using assms(1) by (simp add: sds_of_blk min_def)
  moreover have "sds_ok t (take n bs) []" using t by (simp add: sds_ok_def)
  ultimately show ?thesis by (auto intro: sds_repI)
qed

text \<open>A string created without content is filled by a write of its length.\<close>

lemma noinit_rep:
  assumes "length bs = n" "n < 2 ^ 62"
  shows "\<exists>s s'. sdsnewlen SDS_NOINIT n = Some s \<and> sds_wr s 0 bs = Some s' \<and> sds_rep s' bs"
proof -
  define t where "t = newlen_type n"
  have t: "t \<le> 4" "n < hdr_cap t" using newlen_type_ok [of n] assms by (auto simp: t_def)
  define h where "h = sdsHdrSize (of_nat t :: u8)"
  have sz: "szt (h + n + 1) = h + n + 1" using hdr_size_le [OF t(1)] assms unfolding h_def by (intro szt_id) simp
  have "wr (h + n) [0] (fst (blk t n n (replicate (n + 1) None))) = Some (fst (blk t n n (replicate n None @ [Some 0])))"
    using blk_wr [OF t(1), of "replicate n None" n "[None]" "[0]" n n "[]"] by (simp add: sds_wr_def h_def blk_def replicate_append_same)
  then have "sdsnewlen SDS_NOINIT n = Some (blk t n n (replicate n None @ [Some 0]))"
    unfolding sdsnewlen_def newlen_type_def [symmetric] t_def [symmetric] Let_def h_def [symmetric] sz
    by (simp only: sds_init.distinct sds_init.simps if_False newlen_hdr [OF t(1), folded h_def] bind.bind_lunit) (simp add: blk_def h_def)
  moreover have "sds_wr (blk t n n (replicate n None @ [Some 0])) 0 bs = Some (sds_of t bs [])"
    using blk_wr [OF t(1), of "[]" 0 "replicate n None" bs n n "[Some 0]"] assms(1) by (simp add: sds_of_blk)
  moreover have "sds_ok t bs []" using t assms(1) by (simp add: sds_ok_def)
  ultimately show ?thesis using sds_repI by blast
qed

lemma catlen_rep:
  assumes "sds_rep s str" "length str + length t < 2 ^ 62"
  shows "\<exists>s'. sdscatlen s t = Some s' \<and> sds_rep s' (str @ t)"
proof -
  obtain ty free where s: "s = sds_of ty str free" "sds_ok ty str free" using assms(1) by (auto simp: sds_rep_def)
  obtain t' f where r: "sdsMakeRoomFor s (length t) = Some (sds_of t' str f)" "sds_ok t' str f" "length t \<le> length f"
    using makeroom_of [OF s(2) assms(2)] s by blast
  note ok = sds_okD [OF r(2)]
  let ?a = "length str + length f"
  have rest: "Some 0 # f = take (length t) (Some 0 # f) @ drop (length t) (Some 0 # f)" by simp
  have last: "drop (length t) (Some 0 # f) = [(Some 0 # f) ! length t] @ drop (length t) f"
    using r(3) Cons_nth_drop_Suc [of "length t" "Some 0 # f"] by simp
  have "sds_wr (sds_of t' str f) (length str) t = Some (blk t' (length str) ?a (map Some str @ map Some t @ drop (length t) (Some 0 # f)))"
    unfolding sds_of_blk by (subst rest) (rule blk_wr, use ok r(3) in auto)
  moreover have "sds_wr (blk t' n ?a (map Some str @ map Some t @ drop (length t) (Some 0 # f))) (length str + length t) [0] =
      Some (blk t' n ?a (map Some (str @ t) @ Some 0 # drop (length t) f))" for n
    using blk_wr [OF ok(1), of "map Some (str @ t)" "length str + length t" "[(Some 0 # f) ! length t]" "[0]" n ?a "drop (length t) f"]
    unfolding last by simp
  ultimately have "sdscatlen s t = Some (sds_of t' (str @ t) (drop (length t) f))"
    using r ok by (simp add: sdscatlen_def sdslen_rep [OF assms(1)]) (simp add: sds_of_blk)
  moreover have "sds_ok t' (str @ t) (drop (length t) f)" using ok r by (auto simp: sds_ok_def)
  ultimately show ?thesis by (auto intro: sds_repI)
qed

text \<open>The content replaced by a prefix of the block and terminated there.\<close>

lemma put_of:
  assumes ok: "sds_ok t str free" and n: "length new \<le> length str + length free"
    and rest: "rest = map Some new @ b # free'" "length free' = length str + length free - length new"
  shows "do { s2 \<leftarrow> sds_wr (blk t l (length str + length free) rest) (length new) [0]; sdssetlen s2 (length new) } =
    Some (sds_of t new free')" "sds_ok t new free'"
proof -
  show "do { s2 \<leftarrow> sds_wr (blk t l (length str + length free) rest) (length new) [0]; sdssetlen s2 (length new) } =
    Some (sds_of t new free')"
    using blk_wr [of t "map Some new" "length new" "[b]" "[0]" l "length str + length free" free'] sds_okD [OF ok] rest n
    by (simp add: sds_of_blk)
  show "sds_ok t new free'" using sds_okD [OF ok] rest n by (simp add: sds_ok_def)
qed

lemma clear_rep: "sds_rep s str \<Longrightarrow> \<exists>s'. sdsclear s = Some s' \<and> sds_rep s' []"
proof -
  assume "sds_rep s str"
  then obtain t free where s: "s = sds_of t str free" and ok: "sds_ok t str free" by (auto simp: sds_rep_def)
  let ?m = "map Some str @ Some 0 # free"
  have split: "?m = [] @ [hd ?m] @ tl ?m" by (simp add: hd_append tl_append split: list.split)
  have "sds_wr (blk t 0 (length str + length free) ?m) 0 [0] = Some (blk t 0 (length str + length free) ([] @ map Some [0] @ tl ?m))"
    by (subst split, rule blk_wr) (use sds_okD [OF ok] in auto)
  then have "sdsclear s = Some (sds_of t [] (tl ?m))"
    using sds_okD [OF ok] by (simp add: s sdsclear_def sds_of_blk)
  moreover have "sds_ok t [] (tl ?m)" using sds_okD [OF ok] by (simp add: sds_ok_def)
  ultimately show ?thesis by (auto intro: sds_repI)
qed

lemma cpylen_rep:
  assumes "sds_rep s str" "length str + length t < 2 ^ 62"
  shows "\<exists>s'. sdscpylen s t = Some s' \<and> sds_rep s' t"
proof -
  obtain ty free where s: "s = sds_of ty str free" "sds_ok ty str free" using assms(1) by (auto simp: sds_rep_def)
  define a where "a = (if ty = 0 then length str else length str + length free)"
  obtain t' f where r: "(if a < length t then do { l \<leftarrow> sdslen s; sdsMakeRoomFor s (length t - l) } else Some s) = Some (sds_of t' str f)"
    "sds_ok t' str f" "length t \<le> length str + length f"
  proof (cases "a < length t")
    case True
    then have "length str \<le> length t" by (simp add: a_def split: if_splits)
    then show ?thesis using that True makeroom_of [OF s(2), of "length t - length str"] s assms by (auto simp: sdslen_of)
  next
    case False
    then show ?thesis using that [of ty free] s by (auto simp: a_def split: if_splits)
  qed
  note ok = sds_okD [OF r(2)]
  let ?m = "map Some str @ Some 0 # f" and ?n = "length t"
  have split: "?m = [] @ take ?n ?m @ drop ?n ?m" by (simp only: append_Nil append_take_drop_id)
  have wr1: "sds_wr (sds_of t' str f) 0 t = Some (blk t' (length str) (length str + length f) ([] @ map Some t @ drop ?n ?m))"
    unfolding sds_of_blk by (subst split, rule blk_wr) (use ok r(3) in auto)
  have last: "drop ?n ?m = ?m ! ?n # drop (Suc ?n) ?m" using r(3) by (intro Cons_nth_drop_Suc [symmetric]) simp
  have len: "length (drop (Suc ?n) ?m) = length str + length f - length t" by simp
  note put = put_of(1) [OF r(2) r(3) refl len, of "length str" "?m ! ?n"] put_of(2) [OF r(2) r(3) refl len]
  have "sdscpylen s t = Some (sds_of t' t (drop (Suc ?n) ?m))"
    using r(1) wr1 put(1) unfolding sdscpylen_def sdsalloc_of [OF s(2), folded s(1)] a_def [symmetric] last by simp
  then show ?thesis using put(2) by (auto intro: sds_repI)
qed

lemma growzero_rep:
  assumes "sds_rep s str" "n < 2 ^ 62"
  shows "\<exists>s'. sdsgrowzero s n = Some s' \<and> sds_rep s' (str @ replicate (n - length str) 0)"
proof (cases "n \<le> length str")
  case True
  then show ?thesis using assms by (auto simp: sdsgrowzero_def sdslen_rep)
next
  case False
  obtain ty free where s: "s = sds_of ty str free" "sds_ok ty str free" using assms(1) by (auto simp: sds_rep_def)
  define k where "k = n - length str"
  obtain t' f where r: "sdsMakeRoomFor s k = Some (sds_of t' str f)" "sds_ok t' str f" "k \<le> length f"
    using makeroom_of [OF s(2), of k] s assms False unfolding k_def by auto
  note ok = sds_okD [OF r(2)]
  have split: "map Some str @ Some 0 # f = map Some str @ take (k + 1) (Some 0 # f) @ drop (k + 1) (Some 0 # f)" by simp
  have "sds_wr (sds_of t' str f) (length str) (replicate (k + 1) 0) =
      Some (blk t' (length str) (length str + length f) (map Some str @ map Some (replicate (k + 1) 0) @ drop k f))"
    unfolding sds_of_blk by (subst split, subst blk_wr) (use ok r(3) in auto)
  moreover have "map Some str @ map Some (replicate (k + 1) 0) @ drop k f = map Some (str @ replicate k 0) @ Some 0 # drop k f"
    by (simp add: replicate_append_same [symmetric])
  ultimately have "sdsgrowzero s n = Some (sds_of t' (str @ replicate k 0) (drop k f))"
    using False r ok by (simp add: sdsgrowzero_def sdslen_rep [OF assms(1)] k_def [symmetric]) (simp add: sds_of_blk k_def replicate_app_Cons_same ac_simps)
  moreover have "sds_ok t' (str @ replicate k 0) (drop k f)" using ok r by (auto simp: sds_ok_def)
  ultimately show ?thesis unfolding k_def by (auto intro: sds_repI)
qed

lemma removefree_rep:
  assumes "sds_rep s str" "length str < 2 ^ 62"
  shows "\<exists>s'. sdsRemoveFreeSpace s = Some s' \<and> sds_rep s' str \<and> sdsavail s' = Some 0"
proof -
  obtain t free where s: "s = sds_of t str free" and ok: "sds_ok t str free" using assms(1) by (auto simp: sds_rep_def)
  note okD = sds_okD [OF ok]
  obtain f where f: "sds_flags (sds_of t str free) = Some f" "unat (f AND 7) = t" using flags_of [OF ok] by blast
  show ?thesis
  proof (cases "t = 0 \<or> free = []")
    case True
    then show ?thesis using f ok assms(1)
      by (intro exI [of _ s]) (auto simp: sdsRemoveFreeSpace_def s sdsavail_of [OF ok] sdslen_of [OF ok])
  next
    case False
    define t' where "t' = sdsReqType (length str)"
    have t': "t' \<le> 4" "length str < hdr_cap t'" using reqtype_cap [of "length str"] assms(2) by (auto simp: t'_def)
    have snd: "snd (sds_of t str free) = sdsHdrSize (of_nat t)" by (simp add: sds_of_def)
    have unf: "sdsRemoveFreeSpace s = do {
        s' \<leftarrow> (if t = t' \<or> t' > 1 then Some (realloc_mem (szt (sdsHdrSize (of_nat t) + length str + 1)) (fst (sds_of t str free)), sdsHdrSize (of_nat t))
          else do {
            bs \<leftarrow> rd (snd (sds_of t str free)) (length str + 1) (fst (sds_of t str free));
            newsh \<leftarrow> wr (sdsHdrSize (of_nat t')) bs (replicate (szt (sdsHdrSize (of_nat t') + length str + 1)) None);
            s1 \<leftarrow> hdr_wr (newsh, sdsHdrSize (of_nat t')) 1 [of_nat t'];
            sdssetlen s1 (length str)
          });
        sdssetalloc s' (length str)
      }"
      using False snd unfolding s sdsRemoveFreeSpace_def Let_def sdsavail_of [OF ok] sdslen_of [OF ok] t'_def f(1) bind.bind_lunit f(2)
      by simp
    show ?thesis
    proof (cases "t = t' \<or> t' > 1")
      case True
      have "szt (sdsHdrSize (of_nat t) + length str + 1) = sdsHdrSize (of_nat t) + length str + 1"
        using hdr_size_le [of t] okD assms by (intro szt_id) simp
      then have "(realloc_mem (szt (sdsHdrSize (of_nat t) + length str + 1)) (fst (sds_of t str free)), sdsHdrSize (of_nat t)) =
          blk t (length str) (length str + length free) (map Some str @ [Some 0])"
        using okD by (simp add: realloc_mem_def sds_of_def blk_def hdr_length)
      then have "sdsRemoveFreeSpace s = Some (sds_of t str [])" using True okD unfolding unf by (simp add: sds_of_blk)
      moreover have "sds_ok t str []" using okD by (simp add: sds_ok_def)
      ultimately show ?thesis by (auto intro: sds_repI simp: sdsavail_of)
    next
      case ne: False
      have "sdsRemoveFreeSpace s = Some (sds_of t' str [])"
        using copy_block [OF t'(1) order.refl _ ok] ne assms(2) unfolding unf by simp
      moreover have "sds_ok t' str []" using t' by (simp add: sds_ok_def)
      ultimately show ?thesis by (auto intro: sds_repI simp: sdsavail_of)
    qed
  qed
qed

lemma byte_rep: "sds_rep s str \<Longrightarrow> i < length str \<Longrightarrow> sds_byte s i = Some (str ! i)"
proof -
  assume rep: "sds_rep s str" and i: "i < length str"
  then obtain t free where s: "s = sds_of t str free" and ok: "sds_ok t str free" by (auto simp: sds_rep_def)
  have "take 1 (drop i str) = [str ! i]" using i by (simp add: take_Suc_conv_app_nth hd_drop_conv_nth take_Suc drop_map)
  then have "rd (sdsHdrSize (of_nat t) + i) 1 (fst (sds_of t str free)) = Some [str ! i]"
    using i sds_okD [OF ok] by (simp add: rd_def sds_of_def hdr_length take_map drop_map)
  then show ?thesis by (simp add: sds_byte_def s) (simp add: sds_of_def)
qed

text \<open>Moving the bytes \<open>i\<close> to \<open>i + n\<close> to the front and cutting the string there.\<close>

lemma move_rep:
  assumes rep: "sds_rep s str" and i: "i + n \<le> length str"
  shows "\<exists>s'. do { s1 \<leftarrow> (if i \<noteq> 0 then sds_move s 0 i n else Some s); s2 \<leftarrow> sds_wr s1 n [0]; sdssetlen s2 n } = Some s' \<and>
    sds_rep s' (take n (drop i str))"
proof -
  obtain t free where s: "s = sds_of t str free" and ok: "sds_ok t str free" using rep by (auto simp: sds_rep_def)
  let ?new = "take n (drop i str)" and ?m = "map Some str @ Some 0 # free"
  have len: "length ?new = n" using i by simp
  have "(if i \<noteq> 0 then sds_move s 0 i n else Some s) =
      Some (blk t (length str) (length str + length free) (map Some ?new @ drop n ?m))"
    using i sds_okD [OF ok]
    by (auto simp: sds_move_def memmove_def s sds_of_def blk_def hdr_length take_map drop_map simp flip: map_append)
  moreover have "drop n ?m = ?m ! n # drop (Suc n) ?m" using i by (intro Cons_nth_drop_Suc [symmetric]) simp
  ultimately have mv: "(if i \<noteq> 0 then sds_move s 0 i n else Some s) =
      Some (blk t (length str) (length str + length free) (map Some ?new @ ?m ! n # drop (Suc n) ?m))" by metis
  have l: "length (drop (Suc n) ?m) = length str + length free - length ?new" using i by simp
  have le: "length ?new \<le> length str + length free" using i by simp
  note put = put_of(1) [OF ok le refl l, of "length str" "?m ! n", unfolded len] put_of(2) [OF ok le refl l]
  show ?thesis unfolding mv bind.bind_lunit put(1) using put(2) by (auto intro: sds_repI)
qed

section \<open>Editing\<close>

definition rdrop :: "('a \<Rightarrow> bool) \<Rightarrow> 'a list \<Rightarrow> 'a list" where
  "rdrop P xs = rev (dropWhile P (rev xs))"

lemma rdrop_prefix: "take (length (rdrop P xs)) xs = rdrop P xs"
proof -
  have "xs = rdrop P xs @ rev (takeWhile P (rev xs))"
    by (metis rdrop_def rev_append rev_rev_ident takeWhile_dropWhile_id)
  then show ?thesis by (metis append_eq_conv_conj)
qed

lemma rdrop_snoc [simp]: "rdrop P (xs @ [x]) = (if P x then rdrop P xs else xs @ [x])" "rdrop P [] = []"
  by (simp_all add: rdrop_def)

lemma rdrop_all: "(\<forall>x \<in> set xs. P x) \<Longrightarrow> rdrop P xs = []"
  by (simp add: rdrop_def)

lemma trim_left_eq:
  "sds_rep s str \<Longrightarrow> sp \<le> length str \<Longrightarrow>
   trim_left s cset sp (length str) = Some (sp + length (takeWhile (in_cset cset) (drop sp str)))"
proof (induction "length str - sp" arbitrary: sp)
  case 0
  then show ?case by (simp add: trim_left.simps)
next
  case (Suc n)
  then have i: "sp < length str" by simp
  have "drop sp str = str ! sp # drop (Suc sp) str" using i by (simp add: Cons_nth_drop_Suc)
  then show ?case using Suc i by (subst trim_left.simps) (simp add: byte_rep)
qed

lemma trim_right_eq:
  assumes "sds_rep s str" "sp + j \<le> length str" "0 < j" "\<not> in_cset cset (str ! sp)"
  shows "trim_right s cset (int (sp + j) - 1) sp = Some (int (sp + length (rdrop (in_cset cset) (take j (drop sp str)))) - 1)"
  using assms(2,3)
proof (induction j)
  case 0
  then show ?case by simp
next
  case (Suc j)
  have tk: "take (Suc j) (drop sp str) = take j (drop sp str) @ [str ! (sp + j)]"
    using Suc.prems by (subst take_Suc_conv_app_nth) auto
  show ?case
  proof (cases "j = 0")
    case True
    then show ?thesis using assms(4) tk by (simp add: trim_right.simps rdrop_def)
  next
    case False
    have "trim_right s cset (int (sp + Suc j) - 1) sp =
        (if in_cset cset (str ! (sp + j)) then trim_right s cset (int (sp + Suc j) - 1 - 1) sp else Some (int (sp + Suc j) - 1))"
      using False Suc.prems byte_rep [OF assms(1), of "sp + j"] by (subst trim_right.simps) (simp add: nat_int_add)
    moreover have "length (rdrop (in_cset cset) (take (Suc j) (drop sp str))) =
        (if in_cset cset (str ! (sp + j)) then length (rdrop (in_cset cset) (take j (drop sp str))) else Suc j)"
      using Suc.prems unfolding tk by simp
    ultimately show ?thesis using Suc False by auto
  qed
qed

lemma trim_rep:
  assumes rep: "sds_rep s str"
  shows "\<exists>s'. sdstrim s cset = Some s' \<and> sds_rep s' (rdrop (in_cset cset) (dropWhile (in_cset cset) str))"
proof -
  let ?P = "in_cset cset"
  define sp where "sp = length (takeWhile ?P str)"
  define new where "new = rdrop ?P (drop sp str)"
  have le: "sp \<le> length str" by (simp add: sp_def length_takeWhile_le)
  have dw: "dropWhile ?P str = drop sp str" by (simp add: sp_def dropWhile_eq_drop)
  have l: "trim_left s cset 0 (length str) = Some sp" using trim_left_eq [OF rep, of 0] by (simp add: sp_def)
  obtain ep where r: "trim_right s cset (int (length str) - 1) sp = Some ep"
    "(if int sp > ep then 0 else nat (ep - int sp + 1)) = length new"
  proof (cases "sp = length str")
    case True
    then show ?thesis using that [of "int sp - 1"] by (simp add: trim_right.simps new_def)
  next
    case False
    then have "\<not> ?P (str ! sp)" unfolding sp_def using nth_length_takeWhile [of ?P str] le sp_def by auto
    then have "trim_right s cset (int (sp + (length str - sp)) - 1) sp = Some (int (sp + length new) - 1)"
      using trim_right_eq [OF rep, of sp "length str - sp"] False le by (simp add: new_def)
    then show ?thesis using le by (intro that) auto
  qed
  have "sp + length new \<le> length str" using le rdrop_prefix [of ?P "drop sp str"] unfolding new_def
    by (metis add.commute le_diff_conv2 length_drop length_take min.cobounded1)
  from move_rep [OF rep this] obtain s' where "do { s1 \<leftarrow> (if sp \<noteq> 0 then sds_move s 0 sp (length new) else Some s);
      s2 \<leftarrow> sds_wr s1 (length new) [0]; sdssetlen s2 (length new) } = Some s'" "sds_rep s' (take (length new) (drop sp str))"
    by blast
  then show ?thesis using l r rdrop_prefix [of ?P "drop sp str"]
    by (simp add: sdstrim_def sdslen_rep [OF rep] dw new_def [symmetric])
qed

definition str_range :: "'a list \<Rightarrow> int \<Rightarrow> int \<Rightarrow> 'a list" where
  "str_range str a b =
     (let n = int (length str); a = (if a < 0 then max 0 (n + a) else a); b = (if b < 0 then max 0 (n + b) else b) in
      if a > b \<or> a \<ge> n then [] else take (nat (min b (n - 1) - a + 1)) (drop (nat a) str))"

lemma range_rep:
  assumes rep: "sds_rep s str" and n: "length str < 2 ^ 62" and b: "b < INT64_MAX"
  shows "\<exists>s'. sdsrange s a b = Some s' \<and> sds_rep s' (str_range str a b)"
proof (cases "str = []")
  case True
  then show ?thesis using rep by (auto simp: sdsrange_def sdslen_rep [OF rep] str_range_def Let_def)
next
  case False
  define a' where "a' = (if a < 0 then max 0 (int (length str) + a) else a)"
  define b' where "b' = (if b < 0 then max 0 (int (length str) + b) else b)"
  define k where "k = (if a' > b' \<or> a' \<ge> int (length str) then 0 else nat (min b' (int (length str) - 1) - a' + 1))"
  define i where "i = (if k = 0 then 0 else nat a')"
  have ab: "0 \<le> a'" "0 \<le> b'" "b' < INT64_MAX" using n b by (auto simp: a'_def b'_def)
  have "sdsrange s a b = do { s1 \<leftarrow> (if i \<noteq> 0 then sds_move s 0 i k else Some s); s2 \<leftarrow> sds_wr s1 k [0]; sdssetlen s2 k }"
    using False ab n
    unfolding sdsrange_def sdslen_rep [OF rep] bind.bind_lunit Let_def a'_def [symmetric] b'_def [symmetric]
    by (auto simp: range_len_def k_def i_def min_def)
  moreover have "i + k \<le> length str" using ab by (auto simp: i_def k_def min_def)
  moreover have "take k (drop i str) = str_range str a b"
    using ab by (auto simp: str_range_def Let_def a'_def [symmetric] b'_def [symmetric] i_def k_def)
  ultimately show ?thesis using move_rep [OF rep, of i k] by auto
qed

lemma set_byte_rep:
  assumes "sds_rep s (xs @ c # ys)"
  shows "\<exists>s'. sds_wr s (length xs) [b] = Some s' \<and> sds_rep s' (xs @ b # ys)"
proof -
  obtain t free where s: "s = sds_of t (xs @ c # ys) free" and ok: "sds_ok t (xs @ c # ys) free" using assms by (auto simp: sds_rep_def)
  have "sds_wr s (length xs) [b] = Some (sds_of t (xs @ b # ys) free)"
    using blk_wr [OF sds_okD(1) [OF ok], of "map Some xs" "length xs" "[Some c]" "[b]"] by (simp add: s sds_of_blk)
  moreover have "sds_ok t (xs @ b # ys) free" using sds_okD [OF ok] by (simp add: sds_ok_def)
  ultimately show ?thesis by (auto intro: sds_repI)
qed

lemma map_loop_rep:
  "sds_rep s (xs @ ys) \<Longrightarrow> \<exists>s'. sds_map_loop f s (length xs) (length (xs @ ys)) = Some s' \<and> sds_rep s' (xs @ map f ys)"
proof (induction ys arbitrary: s xs)
  case Nil
  then show ?case by (simp add: sds_map_loop.simps)
next
  case (Cons y ys)
  obtain s1 where s1: "sds_wr s (length xs) [f y] = Some s1" "sds_rep s1 (xs @ f y # ys)"
    using set_byte_rep [OF Cons.prems] by blast
  obtain s' where "sds_map_loop f s1 (length (xs @ [f y])) (length ((xs @ [f y]) @ ys)) = Some s'" "sds_rep s' ((xs @ [f y]) @ map f ys)"
    using Cons.IH [of s1 "xs @ [f y]"] s1 by auto
  then show ?case using s1 byte_rep [OF Cons.prems, of "length xs"] by (subst sds_map_loop.simps) simp
qed

lemma mapchars_rep:
  assumes rep: "sds_rep s str"
  shows "\<exists>s'. sdsmapchars s from to n = Some s' \<and> sds_rep s' (map (\<lambda>c. map_char c (zip (take n from) (take n to))) str)"
    and "\<exists>s'. sdstolower s = Some s' \<and> sds_rep s' (map c_tolower str)"
    and "\<exists>s'. sdstoupper s = Some s' \<and> sds_rep s' (map c_toupper str)"
  using map_loop_rep [of s "[]" str] rep
  by (auto simp: sdsmapchars_def sdstolower_def sdstoupper_def sdslen_rep [OF rep])

lemma incrlen_blk:
  assumes t: "t \<le> 4" "sdshdr_width t = Some w" and n: "n \<le> a - l" and a: "l \<le> a" "a < hdr_cap t"
  shows "sdsIncrLen (blk t l a m) (int n) = sds_wr (blk t (l + n) a m) (l + n) [0]"
proof -
  have t0: "0 < t" and w: "w \<in> {1, 2, 4, 8}" and c: "hdr_cap t = 2 ^ (8 * w)"
    using t by (auto simp: sdshdr_width_def hdr_cap_def split: if_splits)
  have cap: "a < 2 ^ (8 * w)" "l < 2 ^ (8 * w)" "l + n < 2 ^ (8 * w)" using a n c by auto
  have fr: "(if w = 4 then (int a - int l) mod 2 ^ 32 else if w = 8 then (int a - int l) mod 2 ^ 64 else int a - int l) = int a - int l"
    "(if w = 4 then int n mod 2 ^ 32 else if w = 8 then int n mod 2 ^ 64 else int n) = int n"
    using cap n w a by auto
  have "nat ((int l + int n) mod 2 ^ (8 * w)) = l + n"
    using cap by (simp add: nat_mod_distrib nat_add_distrib nat_power_eq)
  moreover have "blk t (l + n) a m = (map Some (le_enc w (int l + int n)) @ map Some (le_enc w (int a)) @ Some (of_nat t) # m, Suc (2 * w))"
    using t by (simp add: blk_fields)
  moreover have "int n \<le> int a - int l" using n a by simp
  ultimately show ?thesis using t t0 cap fr
    by (simp add: sdsIncrLen_def blk_fields raw_hdr hdr_alloc_def hdr_len_def type_unat le_udec_enc_less Let_def split del: if_split)
qed

lemma incrlen_of:
  assumes ok: "sds_ok t str free" and t: "t \<noteq> 0" and n: "length bs \<le> length free"
    and m: "m = map Some str @ map Some bs @ b # free'" "length free' = length free - length bs"
  shows "sdsIncrLen (blk t (length str) (length str + length free) m) (int (length bs)) = Some (sds_of t (str @ bs) free')"
    "sds_ok t (str @ bs) free'"
proof -
  show "sds_ok t (str @ bs) free'" using sds_okD [OF ok] n m by (simp add: sds_ok_def)
  obtain w where w: "sdshdr_width t = Some w" using sds_okD(1) [OF ok] t by (auto elim: type_cases)
  show "sdsIncrLen (blk t (length str) (length str + length free) m) (int (length bs)) = Some (sds_of t (str @ bs) free')"
    using blk_wr [OF sds_okD(1) [OF ok], of "map Some (str @ bs)" "length (str @ bs)" "[b]" "[0]" _ "length str + length free" free']
      incrlen_blk [OF sds_okD(1) [OF ok] w, of "length bs" "length str + length free" "length str"] sds_okD [OF ok] m n
    by (simp add: sds_of_blk)
qed

text \<open>The way the server reads from a socket: make room, let the system call fill the bytes after the content, and
  account for them.\<close>

definition sds_fill :: "sds \<Rightarrow> bytes \<Rightarrow> sds option" where
  "sds_fill s bs = do { s1 \<leftarrow> sdsMakeRoomFor s (length bs); l \<leftarrow> sdslen s1; s2 \<leftarrow> sds_wr s1 l bs; sdsIncrLen s2 (int (length bs)) }"

lemma fill_rep:
  assumes "sds_rep s str" "bs \<noteq> []" "length str + length bs < 2 ^ 62"
  shows "\<exists>s'. sds_fill s bs = Some s' \<and> sds_rep s' (str @ bs)"
proof -
  obtain ty free where s: "s = sds_of ty str free" "sds_ok ty str free" using assms(1) by (auto simp: sds_rep_def)
  obtain t f where r: "sdsMakeRoomFor s (length bs) = Some (sds_of t str f)" "sds_ok t str f" "length bs \<le> length f" "t \<noteq> 0"
    using makeroom_of [OF s(2) assms(3)] s assms(2) by auto
  let ?m = "Some 0 # f" and ?n = "length bs"
  have split: "map Some str @ ?m = map Some str @ take ?n ?m @ drop ?n ?m" by (simp only: append_take_drop_id)
  have "sds_wr (sds_of t str f) (length str) bs = Some (blk t (length str) (length str + length f) (map Some str @ map Some bs @ drop ?n ?m))"
    unfolding sds_of_blk by (subst split, rule blk_wr) (use sds_okD [OF r(2)] r(3) in auto)
  moreover have "drop ?n ?m = ?m ! ?n # drop (Suc ?n) ?m" using r(3) by (intro Cons_nth_drop_Suc [symmetric]) simp
  moreover have "length (drop (Suc ?n) ?m) = length f - ?n" by simp
  ultimately show ?thesis
    using r incrlen_of(1) [OF r(2,4,3) refl, of "drop (Suc ?n) ?m" "?m ! ?n"] incrlen_of(2) [OF r(2,4,3) refl, of "drop (Suc ?n) ?m"]
    by (auto simp: sds_fill_def sdslen_of intro: sds_repI)
qed

definition sds_compare :: "bytes \<Rightarrow> bytes \<Rightarrow> int" where
  "sds_compare a b =
     (if c_memcmp (take (min (length a) (length b)) a) (take (min (length a) (length b)) b) = 0
      then (if length a > length b then 1 else if length a < length b then - 1 else 0)
      else c_memcmp (take (min (length a) (length b)) a) (take (min (length a) (length b)) b))"

lemma sds_compare_simps:
  "sds_compare [] [] = 0" "sds_compare [] (y # b) = - 1" "sds_compare (x # a) [] = 1"
  "sds_compare (x # a) (y # b) = (if x < y then - 1 else if y < x then 1 else sds_compare a b)"
  by (auto simp: sds_compare_def)

lemma sds_compare_lex:
  "(sds_compare a b < 0 \<longleftrightarrow> (a, b) \<in> lexord {(x, y). x < y}) \<and> (sds_compare a b = 0 \<longleftrightarrow> a = b) \<and> sds_compare a b \<in> {- 1, 0, 1}"
proof (induction a arbitrary: b)
  case Nil
  then show ?case by (cases b) (auto simp: sds_compare_simps)
next
  case (Cons x a)
  show ?case
  proof (cases b)
    case Nil
    then show ?thesis by (simp add: sds_compare_simps)
  next
    case (Cons y b')
    then show ?thesis using Cons.IH [of b'] by (cases x y rule: linorder_cases) (auto simp: sds_compare_simps)
  qed
qed

lemma prefix_rep:
  assumes "sds_rep s str" "n \<le> length str"
  shows "rd (snd s) n (fst s) = Some (take n str)"
proof -
  obtain t free where s: "s = sds_of t str free" "sds_ok t str free" using assms(1) by (auto simp: sds_rep_def)
  have "map Some str @ Some 0 # free = map Some (take n str) @ map Some (drop n str) @ Some 0 # free"
    by (simp flip: map_append append_assoc)
  then show ?thesis
    using blk_rd [OF sds_okD(1) [OF s(2)], of "length str" "length str + length free" "take n str" "map Some (drop n str) @ Some 0 # free"] assms(2)
    by (simp add: s sds_of_blk)
qed

lemma cmp_rep:
  assumes "sds_rep s1 a" "sds_rep s2 b"
  shows "sdscmp s1 s2 = Some (sds_compare a b)"
proof -
  have m: "(if length a < length b then length a else length b) = min (length a) (length b)" by simp
  have "rd (snd s1) (min (length a) (length b)) (fst s1) = Some (take (min (length a) (length b)) a)"
    "rd (snd s2) (min (length a) (length b)) (fst s2) = Some (take (min (length a) (length b)) b)"
    using assms by (simp_all add: prefix_rep)
  then show ?thesis
    unfolding sdscmp_def sdslen_rep [OF assms(1)] sdslen_rep [OF assms(2)] bind.bind_lunit Let_def m sds_compare_def by simp
qed

lemma rep_block: "sds_rep s str \<Longrightarrow> snd s + length str < length (fst s)"
  by (auto simp: sds_rep_def sds_of_def hdr_length dest!: sds_okD(1))

section \<open>Sequences of operations\<close>

datatype sds_op = SCat bytes | SCpy bytes | SRange int int | STrim bytes | SGrow nat | SClear | SShrink | SFill bytes
  | SLower | SUpper | SMapChars bytes bytes nat

fun sds_step :: "sds \<Rightarrow> sds_op \<Rightarrow> sds option" where
  "sds_step s (SCat t) = sdscatlen s t"
| "sds_step s (SCpy t) = sdscpylen s t"
| "sds_step s (SRange a b) = sdsrange s a b"
| "sds_step s (STrim cset) = sdstrim s cset"
| "sds_step s (SGrow n) = sdsgrowzero s n"
| "sds_step s SClear = sdsclear s"
| "sds_step s SShrink = sdsRemoveFreeSpace s"
| "sds_step s (SFill bs) = sds_fill s bs"
| "sds_step s SLower = sdstolower s"
| "sds_step s SUpper = sdstoupper s"
| "sds_step s (SMapChars from to n) = sdsmapchars s from to n"

fun sds_run :: "sds \<Rightarrow> sds_op list \<Rightarrow> sds option" where
  "sds_run s [] = Some s"
| "sds_run s (op # ops) = do { s' \<leftarrow> sds_step s op; sds_run s' ops }"

text \<open>The same operations on plain byte sequences.\<close>

fun str_step :: "bytes \<Rightarrow> sds_op \<Rightarrow> bytes" where
  "str_step str (SCat t) = str @ t"
| "str_step str (SCpy t) = t"
| "str_step str (SRange a b) = str_range str a b"
| "str_step str (STrim cset) = rdrop (in_cset cset) (dropWhile (in_cset cset) str)"
| "str_step str (SGrow n) = str @ replicate (n - length str) 0"
| "str_step str SClear = []"
| "str_step str SShrink = str"
| "str_step str (SFill bs) = str @ bs"
| "str_step str SLower = map c_tolower str"
| "str_step str SUpper = map c_toupper str"
| "str_step str (SMapChars from to n) = map (\<lambda>c. map_char c (zip (take n from) (take n to))) str"

text \<open>How much an operation can add, and what its arguments have to satisfy.\<close>

fun sds_op_size :: "sds_op \<Rightarrow> nat" where
  "sds_op_size (SCat t) = length t"
| "sds_op_size (SCpy t) = length t"
| "sds_op_size (SFill t) = length t"
| "sds_op_size (SGrow n) = n"
| "sds_op_size _ = 0"

fun sds_op_ok :: "sds_op \<Rightarrow> bool" where
  "sds_op_ok (SRange a b) \<longleftrightarrow> b < INT64_MAX"
| "sds_op_ok (SFill bs) \<longleftrightarrow> bs \<noteq> []"
| "sds_op_ok _ \<longleftrightarrow> True"

lemma length_rdrop: "length (rdrop P xs) \<le> length xs"
  by (metis length_take min.cobounded1 rdrop_prefix)

lemma length_str_range: "length (str_range str a b) \<le> length str"
  unfolding str_range_def Let_def by (simp only: if_split length_take length_drop list.size) (simp add: min.coboundedI1)

lemma str_step_size: "length (str_step str op) \<le> length str + sds_op_size op"
  by (cases op) (auto simp: length_str_range length_dropWhile_le intro: order.trans [OF length_rdrop])

lemma sds_step_rep:
  "sds_rep s str \<Longrightarrow> sds_op_ok op \<Longrightarrow> length str + sds_op_size op < 2 ^ 62 \<Longrightarrow>
   \<exists>s'. sds_step s op = Some s' \<and> sds_rep s' (str_step str op)"
  using catlen_rep [of s str] cpylen_rep [of s str] range_rep [of s str] trim_rep [of s str] growzero_rep [of s str] clear_rep [of s str]
    removefree_rep [of s str] fill_rep [of s str] mapchars_rep [of s str]
  by (cases op) auto

lemma sds_run_rep:
  "sds_rep s str \<Longrightarrow> list_all sds_op_ok ops \<Longrightarrow> length str + sum_list (map sds_op_size ops) < 2 ^ 62 \<Longrightarrow>
   \<exists>s'. sds_run s ops = Some s' \<and> sds_rep s' (foldl str_step str ops)"
proof (induction ops arbitrary: s str)
  case Nil
  then show ?case by simp
next
  case (Cons op ops)
  obtain s1 where s1: "sds_step s op = Some s1" "sds_rep s1 (str_step str op)"
    using sds_step_rep [of s str op] Cons.prems by auto
  have "length (str_step str op) + sum_list (map sds_op_size ops) < 2 ^ 62"
    using str_step_size [of str op] Cons.prems(3) by simp
  then show ?case using Cons.IH [OF s1(2)] Cons.prems(2) s1(1) by auto
qed



text \<open>
  \<^verbatim>\<open>sdscmp\<close> orders strings lexicographically by unsigned bytes, a proper prefix first, and returns 0
  exactly for equal strings.
\<close>

theorem sdscmp_lexicographic:
  assumes "sds_rep s1 a" "sds_rep s2 b"
  shows "\<exists>v. sdscmp s1 s2 = Some v \<and> (v < 0 \<longleftrightarrow> (a, b) \<in> lexord {(x, y). x < y}) \<and> (v = 0 \<longleftrightarrow> a = b)"
  using cmp_rep [OF assms] sds_compare_lex by blast

theorem sdscmp_lexicographic_witness:
  "\<exists>s1 s2 v. sdsnewlen (Init [65]) 1 = Some s1 \<and> sdsnewlen (Init [65, 0]) 2 = Some s2 \<and> sdscmp s1 s2 = Some v \<and> v < 0"
proof -
  obtain s1 where s1: "sdsnewlen (Init [65]) 1 = Some s1" "sds_rep s1 [65]" using newlen_rep [of 1 "[65]"] by auto
  obtain s2 where s2: "sdsnewlen (Init [65, 0]) 2 = Some s2" "sds_rep s2 [65, 0]" using newlen_rep [of 2 "[65, 0]"] by auto
  show ?thesis using sdscmp_lexicographic [OF s1(2) s2(2)] s1(1) s2(1) by auto
qed



end
