(* ===== verification/Sds_Text.thy ===== *)
theory Sds_Text
  imports Sds
begin

text \<open>
  The text functions of sds.c that build strings by appending: quoting (\<^verbatim>\<open>sdscatrepr\<close>) and the parser of
  command lines (\<^verbatim>\<open>sdssplitargs\<close>), joining and splitting. Their proofs use the append operation only
  through the contract \<open>string_buffer\<close>, which \<^verbatim>\<open>sdscatlen\<close> satisfies. A \<^verbatim>\<open>char *\<close> that walks through a
  C string is the list of the bytes that are left, terminator included; reading past them is
  \<^term>\<open>None\<close>.
\<close>

section \<open>Appending\<close>

fun cat_all :: "('s \<Rightarrow> bytes \<Rightarrow> 's option) \<Rightarrow> 's \<Rightarrow> bytes list \<Rightarrow> 's option" where
  "cat_all cat s [] = Some s"
| "cat_all cat s (t # ts) = do { s' \<leftarrow> cat s t; cat_all cat s' ts }"

locale string_buffer =
  fixes cat :: "'s \<Rightarrow> bytes \<Rightarrow> 's option" and holds :: "'s \<Rightarrow> bytes \<Rightarrow> bool" and cap :: nat
  assumes cat_holds: "holds s str \<Longrightarrow> length str + length t < cap \<Longrightarrow> \<exists>s'. cat s t = Some s' \<and> holds s' (str @ t)"
begin

lemma catE:
  assumes "holds s str" "length str + length t < cap"
  obtains s' where "cat s t = Some s'" "holds s' (str @ t)"
  using cat_holds [OF assms] by blast

lemma cat_all_holds:
  "holds s str \<Longrightarrow> length str + length (concat ts) < cap \<Longrightarrow> \<exists>s'. cat_all cat s ts = Some s' \<and> holds s' (str @ concat ts)"
proof (induction ts arbitrary: s str)
  case Nil
  then show ?case by simp
next
  case (Cons t ts)
  obtain s1 where s1: "cat s t = Some s1" "holds s1 (str @ t)" by (rule catE [of s str t]) (use Cons.prems in auto)
  then show ?case using Cons.IH [OF s1(2)] Cons.prems by auto
qed

lemma cat_all_append: "cat_all cat s (ts @ us) = do { s' \<leftarrow> cat_all cat s ts; cat_all cat s' us }"
  by (induction ts arbitrary: s) (auto split: bind_split)

end

interpretation sdsbuf: string_buffer sdscatlen sds_rep "2 ^ 62"
  by unfold_locales (rule catlen_rep)

section \<open>Quoting\<close>

text \<open>The character classes of the C locale.\<close>

definition c_isspace :: "u8 \<Rightarrow> bool" where
  "c_isspace c \<longleftrightarrow> c = 0x20 \<or> 0x09 \<le> c \<and> c \<le> 0x0D"

definition c_isprint :: "u8 \<Rightarrow> bool" where
  "c_isprint c \<longleftrightarrow> 0x20 \<le> c \<and> c \<le> 0x7E"

text \<open>A digit printed by \<^verbatim>\<open>%x\<close>.\<close>

definition hexchar :: "nat \<Rightarrow> u8" where
  "hexchar d = (if d < 10 then 48 + of_nat d else 87 + of_nat d)"

definition repr_char :: "u8 \<Rightarrow> bytes" where
  "repr_char c =
     (if c = 0x5C \<or> c = 0x22 then [0x5C, c]
      else if c = 0x0A then [0x5C, 0x6E]
      else if c = 0x0D then [0x5C, 0x72]
      else if c = 0x09 then [0x5C, 0x74]
      else if c = 0x07 then [0x5C, 0x61]
      else if c = 0x08 then [0x5C, 0x62]
      else if c_isprint c then [c]
      else [0x5C, 0x78, hexchar (unat c div 16), hexchar (unat c mod 16)])"

fun repr_loop :: "sds \<Rightarrow> bytes \<Rightarrow> sds option" where
  "repr_loop s [] = Some s"
| "repr_loop s (c # p) = do { s' \<leftarrow> sdscatlen s (repr_char c); repr_loop s' p }"

definition sdscatrepr :: "sds \<Rightarrow> bytes \<Rightarrow> sds option" where
  "sdscatrepr s p = do { s1 \<leftarrow> sdscatlen s [0x22]; s2 \<leftarrow> repr_loop s1 p; sdscatlen s2 [0x22] }"

section \<open>Command lines\<close>

definition is_hex_digit :: "u8 \<Rightarrow> bool" where
  "is_hex_digit c \<longleftrightarrow> 0x30 \<le> c \<and> c \<le> 0x39 \<or> 0x61 \<le> c \<and> c \<le> 0x66 \<or> 0x41 \<le> c \<and> c \<le> 0x46"

definition hex_digit_to_int :: "u8 \<Rightarrow> nat" where
  "hex_digit_to_int c =
     (if 0x30 \<le> c \<and> c \<le> 0x39 then unat c - 0x30
      else if 0x61 \<le> c \<and> c \<le> 0x66 then unat c - 0x61 + 10
      else if 0x41 \<le> c \<and> c \<le> 0x46 then unat c - 0x41 + 10
      else 0)"

text \<open>The test for \<^verbatim>\<open>\x\<close> followed by two hexadecimal digits, with the short-circuit evaluation of C.\<close>

definition hex_escape :: "bytes \<Rightarrow> u8 option option" where
  "hex_escape p =
     do {
       c0 \<leftarrow> nth_opt p 0;
       if c0 \<noteq> 0x5C then Some None else do {
       c1 \<leftarrow> nth_opt p 1;
       if c1 \<noteq> 0x78 then Some None else do {
       c2 \<leftarrow> nth_opt p 2;
       if \<not> is_hex_digit c2 then Some None else do {
       c3 \<leftarrow> nth_opt p 3;
       if \<not> is_hex_digit c3 then Some None
       else Some (Some (of_nat (hex_digit_to_int c2 * 16 + hex_digit_to_int c3))) } } }
     }"

definition unescape :: "u8 \<Rightarrow> u8" where
  "unescape c =
     (if c = 0x6E then 0x0A else if c = 0x72 then 0x0D else if c = 0x74 then 0x09
      else if c = 0x62 then 0x08 else if c = 0x61 then 0x07 else c)"

text \<open>A closing quote must be followed by a space or the end.\<close>

definition bad_close :: "bytes \<Rightarrow> bool option" where
  "bad_close p = do { c1 \<leftarrow> nth_opt p 1; Some (c1 \<noteq> 0 \<and> \<not> c_isspace c1) }"

text \<open>The loop over one token. The inner \<^term>\<open>None\<close> is the error exit.\<close>

function split_token :: "bytes \<Rightarrow> bool \<Rightarrow> bool \<Rightarrow> sds \<Rightarrow> (bytes \<times> sds) option option" where
  "split_token [] inq insq current = None"
| "split_token (c # p) inq insq current =
     (if inq then do {
        h \<leftarrow> hex_escape (c # p);
        if h \<noteq> None then do { cur \<leftarrow> sdscatlen current [the h]; split_token (drop 3 p) True False cur }
        else do {
        esc \<leftarrow> (if c = 0x5C then map_option (\<lambda>c1. c1 \<noteq> 0) (nth_opt p 0) else Some False);
        if esc then do { cur \<leftarrow> sdscatlen current [unescape (hd p)]; split_token (drop 1 p) True False cur }
        else if c = 0x22 then do { bad \<leftarrow> bad_close (c # p); Some (if bad then None else Some (p, current)) }
        else if c = 0 then Some None
        else do { cur \<leftarrow> sdscatlen current [c]; split_token p True False cur } }
      }
      else if insq then do {
        esc \<leftarrow> (if c = 0x5C then map_option (\<lambda>c1. c1 = 0x27) (nth_opt p 0) else Some False);
        if esc then do { cur \<leftarrow> sdscatlen current [0x27]; split_token (drop 1 p) False True cur }
        else if c = 0x27 then do { bad \<leftarrow> bad_close (c # p); Some (if bad then None else Some (p, current)) }
        else if c = 0 then Some None
        else do { cur \<leftarrow> sdscatlen current [c]; split_token p False True cur }
      }
      else if c = 0x20 \<or> c = 0x0A \<or> c = 0x0D \<or> c = 0x09 then Some (Some (p, current))
      else if c = 0 then Some (Some (c # p, current))
      else if c = 0x22 then split_token p True False current
      else if c = 0x27 then split_token p False True current
      else do { cur \<leftarrow> sdscatlen current [c]; split_token p False False cur })"
  by pat_completeness auto
termination by (relation "measure (\<lambda>(p, inq, insq, current). length p)") auto

declare split_token.simps [simp del]

fun skip_blanks :: "bytes \<Rightarrow> bytes option" where
  "skip_blanks [] = None"
| "skip_blanks (c # p) = (if c \<noteq> 0 \<and> c_isspace c then skip_blanks p else Some (c # p))"

lemma split_token_shorter:
  "split_token p inq insq cur = Some (Some (p', cur')) \<Longrightarrow> p' = p \<and> hd p = 0 \<or> length p' < length p"
proof (induction "length p" arbitrary: p inq insq cur rule: less_induct)
  case less
  show ?case
  proof (cases p)
    case Nil
    then show ?thesis using less.prems by (simp add: split_token.simps)
  next
    case (Cons c p1)
    have IH: "length p' \<le> length p1" if "split_token q i j s = Some (Some (p', cur'))" "length q \<le> length p1" for q i j s
      using less.hyps [of q i j s] that Cons by auto
    from less.prems show ?thesis unfolding Cons
      by (subst (asm) split_token.simps) (auto split: if_splits bind_splits dest: IH simp: less_Suc_eq_le)
  qed
qed

lemma skip_blanks_length: "skip_blanks p = Some q \<Longrightarrow> length q \<le> length p"
  by (induction p rule: skip_blanks.induct) (auto split: if_splits)

function splitargs_loop :: "bytes \<Rightarrow> sds list \<Rightarrow> sds list option option" where
  "splitargs_loop p vector =
     do {
       p1 \<leftarrow> skip_blanks p;
       if hd p1 \<noteq> 0 then do {
         current \<leftarrow> sdsempty ();
         r \<leftarrow> split_token p1 False False current;
         if r = None then Some None
         else splitargs_loop (fst (the r)) (vector @ [snd (the r)])
       }
       else Some (Some vector)
     }"
  by pat_completeness auto

termination
proof (relation "measure (\<lambda>(p, vector). length p)", goal_cases)
  case (2 p vector p1 current r)
  then show ?case using skip_blanks_length [of p p1] split_token_shorter [of p1 False False current] by fastforce
qed simp

declare splitargs_loop.simps [simp del]

definition sdssplitargs :: "bytes \<Rightarrow> sds list option option" where
  "sdssplitargs line = splitargs_loop line []"

section \<open>Joining and splitting\<close>

text \<open>\<^verbatim>\<open>sdsjoin\<close> over C strings and \<^verbatim>\<open>sdsjoinsds\<close> over dynamic strings: the separator follows every element but the last.\<close>

fun join_loop :: "sds \<Rightarrow> bytes list \<Rightarrow> bytes \<Rightarrow> sds option" where
  "join_loop join [] sep = Some join"
| "join_loop join (arg # argv) sep =
     do {
       join1 \<leftarrow> sdscat join arg;
       join2 \<leftarrow> (if argv \<noteq> [] then sdscat join1 sep else Some join1);
       join_loop join2 argv sep
     }"

definition sdsjoin :: "bytes list \<Rightarrow> bytes \<Rightarrow> sds option" where
  "sdsjoin argv sep = do { join \<leftarrow> sdsempty (); join_loop join argv sep }"

fun joinsds_loop :: "sds \<Rightarrow> sds list \<Rightarrow> bytes \<Rightarrow> sds option" where
  "joinsds_loop join [] sep = Some join"
| "joinsds_loop join (arg # argv) sep =
     do {
       join1 \<leftarrow> sdscatsds join arg;
       join2 \<leftarrow> (if argv \<noteq> [] then sdscatlen join1 sep else Some join1);
       joinsds_loop join2 argv sep
     }"

definition sdsjoinsds :: "sds list \<Rightarrow> bytes \<Rightarrow> sds option" where
  "sdsjoinsds argv sep = do { join \<leftarrow> sdsempty (); joinsds_loop join argv sep }"

text \<open>\<^verbatim>\<open>sdssplitlen\<close>: the loop over the start \<open>j\<close> of a possible separator, with the array of tokens and its
  capacity. The inner \<^term>\<open>None\<close> is the null result.\<close>

definition push_token :: "sds list \<Rightarrow> nat \<Rightarrow> sds \<Rightarrow> sds list option" where
  "push_token tokens slots tok = (if length tokens < slots then Some (tokens @ [tok]) else None)"

definition sds_slice :: "bytes \<Rightarrow> nat \<Rightarrow> nat \<Rightarrow> sds option" where
  "sds_slice s start n = (if start + n \<le> length s then sdsnewlen (Init (drop start s)) n else None)"

function splitlen_loop :: "bytes \<Rightarrow> nat \<Rightarrow> bytes \<Rightarrow> nat \<Rightarrow> nat \<Rightarrow> nat \<Rightarrow> sds list \<Rightarrow> (nat \<times> nat \<times> sds list) option" where
  "splitlen_loop s len sep j start slots tokens =
     (if sep \<noteq> [] \<and> j + (length sep - 1) < len then do {
        let slots = (if slots < length tokens + 2 then slots * 2 else slots);
        if j + length sep > length s then None
        else if take (length sep) (drop j s) = sep then do {
          tok \<leftarrow> sds_slice s start (j - start);
          tokens' \<leftarrow> push_token tokens slots tok;
          splitlen_loop s len sep (j + length sep) (j + length sep) slots tokens'
        }
        else splitlen_loop s len sep (Suc j) start slots tokens
      }
      else Some (start, slots, tokens))"
  by pat_completeness auto
termination
  by (relation "measure (\<lambda>(s, len, sep, j, start, slots, tokens). len - j)") (auto simp: diff_less_mono2 neq_Nil_conv)

declare splitlen_loop.simps [simp del]

definition sdssplitlen :: "bytes \<Rightarrow> int \<Rightarrow> bytes \<Rightarrow> sds list option option" where
  "sdssplitlen s len sep =
     (if length sep < 1 \<or> len < 0 then Some None
      else if len = 0 then Some (Some [])
      else do {
        (start, slots, tokens) \<leftarrow> splitlen_loop s (nat len) sep 0 0 5 [];
        tok \<leftarrow> sds_slice s start (nat len - start);
        tokens' \<leftarrow> push_token tokens slots tok;
        Some (Some tokens')
      })"

section \<open>Quoting and parsing\<close>

definition quoted :: "bytes \<Rightarrow> bytes" where
  "quoted p = 0x22 # concat (map repr_char p) @ [0x22]"

lemma repr_loop_cat: "repr_loop s p = cat_all sdscatlen s (map repr_char p)"
  by (induction p arbitrary: s) simp_all

lemma sdscatrepr_cat: "sdscatrepr s p = cat_all sdscatlen s ([0x22] # map repr_char p @ [[0x22]])"
proof -
  have "cat_all sdscatlen s1 [[0x22]] = sdscatlen s1 [0x22]" for s1 by (cases "sdscatlen s1 [0x22]") auto
  then show ?thesis by (simp add: sdscatrepr_def repr_loop_cat sdsbuf.cat_all_append)
qed

lemma sdscatrepr_rep:
  "sds_rep s str \<Longrightarrow> length str + length (quoted p) < 2 ^ 62 \<Longrightarrow> \<exists>s'. sdscatrepr s p = Some s' \<and> sds_rep s' (str @ quoted p)"
  using sdsbuf.cat_all_holds [of s str "[0x22] # map repr_char p @ [[0x22]]"] unfolding sdscatrepr_cat quoted_def by simp

lemma hexchar_digit: "d < 16 \<Longrightarrow> is_hex_digit (hexchar d) \<and> hex_digit_to_int (hexchar d) = d"
proof -
  have "\<forall>d \<in> set [0..<16]. is_hex_digit (hexchar d) \<and> hex_digit_to_int (hexchar d) = d"
    by (simp add: upt_rec hexchar_def is_hex_digit_def hex_digit_to_int_def)
  then show "d < 16 \<Longrightarrow> ?thesis" by simp
qed

lemma hex_escape_plain: "c \<noteq> 0x5C \<Longrightarrow> hex_escape (c # p) = Some None" "d \<noteq> 0x78 \<Longrightarrow> hex_escape (c # d # p) = Some None"
  by (simp_all add: hex_escape_def)

lemma repr_char_parse:
  "split_token (repr_char c @ p) True False cur = do { cur' \<leftarrow> sdscatlen cur [c]; split_token p True False cur' }"
proof -
  have hex: "hex_escape (0x5C # 0x78 # hexchar (unat c div 16) # hexchar (unat c mod 16) # p) = Some (Some c)"
  proof -
    have "unat c < 256" using unsigned_less [of c] by simp
    then have "is_hex_digit (hexchar (unat c div 16))" "hex_digit_to_int (hexchar (unat c div 16)) = unat c div 16"
      "is_hex_digit (hexchar (unat c mod 16))" "hex_digit_to_int (hexchar (unat c mod 16)) = unat c mod 16"
      using hexchar_digit [of "unat c div 16"] hexchar_digit [of "unat c mod 16"] by auto
    moreover have "unat c div 16 * 16 + unat c mod 16 = unat c" by (rule div_mult_mod_eq)
    ultimately show ?thesis by (simp add: hex_escape_def numeral_2_eq_2 numeral_3_eq_3 del: of_nat_add of_nat_mult)
  qed
  have print: "c \<noteq> 0" if "c_isprint c" using that by (auto simp: c_isprint_def)
  have "split_token (0x5C # d # p) True False cur = do { cur' \<leftarrow> sdscatlen cur [unescape d]; split_token p True False cur' }"
    if "d \<noteq> 0x78" "d \<noteq> 0" for d
    using that by (subst split_token.simps) (simp add: hex_escape_plain)
  then show ?thesis
    using print unfolding repr_char_def
    by (auto simp: unescape_def) (auto simp: split_token.simps hex hex_escape_plain numeral_3_eq_3)
qed

lemma quoted_parse:
  assumes "sds_rep cur str" "length str + length bs < 2 ^ 62" "r = 0 \<or> c_isspace r"
  shows "\<exists>cur'. split_token (concat (map repr_char bs) @ 0x22 # r # rest) True False cur = Some (Some (r # rest, cur')) \<and> sds_rep cur' (str @ bs)"
  using assms(1,2)
proof (induction bs arbitrary: cur str)
  case Nil
  then show ?case using assms(3) by (intro exI [of _ cur]) (auto simp: split_token.simps hex_escape_plain bad_close_def)
next
  case (Cons b bs)
  obtain c1 where c1: "sdscatlen cur [b] = Some c1" "sds_rep c1 (str @ [b])"
    by (rule sdsbuf.catE [OF Cons.prems(1), of "[b]"]) (use Cons.prems in auto)
  then show ?case using Cons.IH [OF c1(2)] Cons.prems by (simp add: repr_char_parse)
qed

lemma sdsempty_rep: "\<exists>s. sdsempty () = Some s \<and> sds_rep s []"
  using newlen_rep [of 0 "[]"] by (simp add: sdsempty_def)

lemma skip_blanks_run: "list_all (\<lambda>c. c \<noteq> 0 \<and> c_isspace c) ws \<Longrightarrow> skip_blanks (ws @ p) = skip_blanks p"
  by (induction ws) auto

text \<open>A command line of quoted arguments, each with the blanks that follow it.\<close>

definition cmdline :: "(bytes \<times> bytes) list \<Rightarrow> bytes" where
  "cmdline items = concat (map (\<lambda>(a, ws). quoted a @ ws) items) @ [0]"

lemma splitargs_quoted:
  assumes "\<forall>(a, ws) \<in> set items. ws \<noteq> [] \<and> list_all (\<lambda>c. c \<noteq> 0 \<and> c_isspace c) ws \<and> length a < 2 ^ 62"
    and "list_all (\<lambda>c. c \<noteq> 0 \<and> c_isspace c) ws0"
  shows "\<exists>toks. splitargs_loop (ws0 @ cmdline items) vec = Some (Some (vec @ toks)) \<and> list_all2 sds_rep toks (map fst items)"
  using assms
proof (induction items arbitrary: ws0 vec)
  case Nil
  then show ?case by (subst splitargs_loop.simps) (simp add: skip_blanks_run cmdline_def)
next
  case (Cons it items)
  obtain a w ws where it: "it = (a, w # ws)" using Cons.prems(1) by (cases it; cases "snd it") auto
  then have w: "c_isspace w" "length a < 2 ^ 62" "list_all (\<lambda>c. c \<noteq> 0 \<and> c_isspace c) (w # ws)" using Cons.prems(1) by auto
  obtain cur where cur: "sdsempty () = Some cur" "sds_rep cur []" using sdsempty_rep by blast
  let ?rest = "ws @ cmdline items"
  have line: "cmdline (it # items) = 0x22 # concat (map repr_char a) @ 0x22 # w # ?rest"
    by (simp add: cmdline_def it quoted_def)
  obtain tok where tok: "split_token (concat (map repr_char a) @ 0x22 # w # ?rest) True False cur = Some (Some (w # ?rest, tok))"
      "sds_rep tok a"
    using quoted_parse [OF cur(2), of a w ?rest] w by auto
  have "split_token (cmdline (it # items)) False False cur = Some (Some (w # ?rest, tok))"
    unfolding line by (subst split_token.simps) (simp add: tok(1))
  then have "splitargs_loop (ws0 @ cmdline (it # items)) vec = splitargs_loop ((w # ws) @ cmdline items) (vec @ [tok])"
    using cur(1) Cons.prems(2) by (subst splitargs_loop.simps) (simp add: skip_blanks_run line c_isspace_def)
  then show ?case using Cons.IH [of "w # ws" "vec @ [tok]"] Cons.prems(1) w(3) tok(2) it by auto
qed



section \<open>Memory safety of the parser\<close>

lemma hex_escape_safe: "0 \<in> set p \<Longrightarrow> hex_escape p \<noteq> None"
proof -
  assume "0 \<in> set p"
  then show ?thesis
    by (cases p; cases "tl p"; cases "tl (tl p)"; cases "tl (tl (tl p))")
      (auto simp: hex_escape_def is_hex_digit_def split: bind_splits)
qed

lemma hex_escape_zero: "hex_escape (c # p) = Some (Some b) \<Longrightarrow> 0 \<in> set (c # p) \<Longrightarrow> 0 \<in> set (drop 3 p)"
  by (cases p; cases "tl p"; cases "tl (tl p)") (auto simp: hex_escape_def is_hex_digit_def nth_opt_def split: if_splits)

lemma split_token_safe:
  "0 \<in> set p \<Longrightarrow> sds_rep cur str \<Longrightarrow> length str + length p < 2 ^ 62 \<Longrightarrow>
   \<exists>r. split_token p inq insq cur = Some r \<and> (\<forall>p' cur'. r = Some (p', cur') \<longrightarrow> 0 \<in> set p' \<and> (\<exists>str'. sds_rep cur' str'))"
proof (induction "length p" arbitrary: p inq insq cur str rule: less_induct)
  case less
  obtain c p1 where p: "p = c # p1" using less.prems(1) by (cases p) auto
  have go: "\<exists>r. do { cur' \<leftarrow> sdscatlen cur [b]; split_token q i j cur' } = Some r \<and> (\<forall>p' cur'. r = Some (p', cur') \<longrightarrow> 0 \<in> set p' \<and> (\<exists>str'. sds_rep cur' str'))"
    if q: "0 \<in> set q" "length q \<le> length p1" for q b i j
  proof -
    obtain cur1 where c1: "sdscatlen cur [b] = Some cur1" "sds_rep cur1 (str @ [b])"
      by (rule sdsbuf.catE [OF less.prems(2), of "[b]"]) (use less.prems p in auto)
    then show ?thesis using less.hyps [of q cur1 "str @ [b]" i j] q less.prems(3) p by simp
  qed
  have stay: "\<exists>r. split_token p1 i j cur = Some r \<and> (\<forall>p' cur'. r = Some (p', cur') \<longrightarrow> 0 \<in> set p' \<and> (\<exists>str'. sds_rep cur' str'))" if "0 \<in> set p1" for i j
    using less.hyps [of p1 cur str i j] less.prems that p by simp
  obtain h where h: "hex_escape (c # p1) = Some h" using hex_escape_safe [of p] less.prems(1) p by auto
  have h3: "0 \<in> set (drop 3 p1)" if "h = Some b" for b using hex_escape_zero [of c p1 b] h that less.prems(1) p by auto
  have z: "0 \<in> set p1" if "c \<noteq> 0" using less.prems(1) p that by auto
  have z1: "p1 \<noteq> []" "hd p1 \<noteq> 0 \<Longrightarrow> 0 \<in> set (drop 1 p1)" if "c \<noteq> 0" using z [OF that] by (cases p1; auto)+
  consider (dq) inq | (sq) "\<not> inq" insq | (un) "\<not> inq" "\<not> insq" by blast
  then show ?case unfolding p
  proof cases
    case dq
    then show "\<exists>r. split_token (c # p1) inq insq cur = Some r \<and> (\<forall>p' cur'. r = Some (p', cur') \<longrightarrow> 0 \<in> set p' \<and> (\<exists>str'. sds_rep cur' str'))"
      using h h3 z z1 less.prems(2) go [of "drop 3 p1"] go [of "drop 1 p1"] go [of p1]
      by (subst split_token.simps) (cases p1; cases h; auto simp: bad_close_def)
  next
    case sq
    then show "\<exists>r. split_token (c # p1) inq insq cur = Some r \<and> (\<forall>p' cur'. r = Some (p', cur') \<longrightarrow> 0 \<in> set p' \<and> (\<exists>str'. sds_rep cur' str'))"
      using z z1 less.prems(2) go [of "drop 1 p1"] go [of p1] by (subst split_token.simps) (cases p1; auto simp: bad_close_def)
  next
    case un
    then show "\<exists>r. split_token (c # p1) inq insq cur = Some r \<and> (\<forall>p' cur'. r = Some (p', cur') \<longrightarrow> 0 \<in> set p' \<and> (\<exists>str'. sds_rep cur' str'))"
      using z stay less.prems(2) go [of p1] by (subst split_token.simps) auto
  qed
qed

lemma skip_blanks_safe: "0 \<in> set p \<Longrightarrow> \<exists>q. skip_blanks p = Some q \<and> 0 \<in> set q"
  by (induction p) auto

lemma splitargs_loop_safe:
  "0 \<in> set p \<Longrightarrow> length p < 2 ^ 62 \<Longrightarrow> list_all (\<lambda>t. \<exists>str. sds_rep t str) vec \<Longrightarrow>
   \<exists>r. splitargs_loop p vec = Some r \<and> (\<forall>toks. r = Some toks \<longrightarrow> list_all (\<lambda>t. \<exists>str. sds_rep t str) toks)"
proof (induction "length p" arbitrary: p vec rule: less_induct)
  case less
  obtain q where q: "skip_blanks p = Some q" "0 \<in> set q" using skip_blanks_safe less.prems by blast
  note len = skip_blanks_length [OF q(1)]
  obtain cur where cur: "sdsempty () = Some cur" "sds_rep cur []" using sdsempty_rep by blast
  obtain r where r: "split_token q False False cur = Some r" "\<forall>p' cur'. r = Some (p', cur') \<longrightarrow> 0 \<in> set p' \<and> (\<exists>str'. sds_rep cur' str')"
    using split_token_safe [OF q(2) cur(2), of False False] len less.prems by auto
  show ?case
  proof (cases "hd q = 0 \<or> r = None")
    case True
    then show ?thesis using q cur r less.prems(3) by (subst splitargs_loop.simps) auto
  next
    case False
    then obtain p' c' where pc: "r = Some (p', c')" by auto
    then have rc: "0 \<in> set p'" "\<exists>str'. sds_rep c' str'" using r(2) by blast+
    have l: "length p' < length p" using pc split_token_shorter [of q False False cur p' c'] r False len by auto
    have "\<exists>r. splitargs_loop p' (vec @ [c']) = Some r \<and> (\<forall>toks. r = Some toks \<longrightarrow> list_all (\<lambda>t. \<exists>str. sds_rep t str) toks)"
      by (rule less.hyps [OF l]) (use less.prems rc l in auto)
    then show ?thesis using q cur r False pc by (subst splitargs_loop.simps) simp
  qed
qed

text \<open>
  Property C34. \<^verbatim>\<open>sdssplitargs\<close> returns on every null-terminated line, balanced or not, and never reads past the
  terminator, in spite of the look-ahead of up to three characters in escapes.
\<close>

theorem sdssplitargs_safe:
  assumes "0 \<in> set line" "length line < 2 ^ 62"
  shows "\<exists>result. sdssplitargs line = Some result"
  using splitargs_loop_safe [OF assms, of "[]"] by (auto simp: sdssplitargs_def)

theorem sdssplitargs_safe_witness:
  "\<exists>result. sdssplitargs [0x22, 0x5C, 0x78, 0] = Some result"
  using sdssplitargs_safe [of "[0x22, 0x5C, 0x78, 0]"] by simp

section \<open>Splitting and joining\<close>

text \<open>The fields of a byte sequence at the leftmost, non-overlapping separators.\<close>

fun intercalate :: "'a list \<Rightarrow> 'a list list \<Rightarrow> 'a list" where
  "intercalate sep [] = []"
| "intercalate sep [x] = x"
| "intercalate sep (x # xs) = x @ sep @ intercalate sep xs"

lemma intercalate_snoc: "xs \<noteq> [] \<Longrightarrow> intercalate sep (xs @ [x]) = intercalate sep xs @ sep @ x"
  by (induction xs rule: induct_list012) auto

fun pieces :: "'a list \<Rightarrow> 'a list list \<Rightarrow> 'a list list" where
  "pieces sep [] = []"
| "pieces sep [x] = [x]"
| "pieces sep (x # xs) = x # sep # pieces sep xs"

lemma concat_pieces: "concat (pieces sep xs) = intercalate sep xs"
  by (induction xs rule: induct_list012) auto

lemma joinsds_loop_cat: "list_all2 sds_rep argv args \<Longrightarrow> joinsds_loop j argv sep = cat_all sdscatlen j (pieces sep args)"
proof (induction argv args arbitrary: j rule: list_all2_induct)
  case Nil
  then show ?case by simp
next
  case (Cons x argv a args)
  then show ?case by (cases args) (auto simp: sdscatsds_def content_rep split: bind_split)
qed

lemma sdscat_cstring: "0 \<notin> set a \<Longrightarrow> sdscat j (a @ [0]) = sdscatlen j a"
proof -
  assume "0 \<notin> set a"
  then have "takeWhile (\<lambda>b. b \<noteq> 0) (a @ [0]) = a" by (subst takeWhile_append2) auto
  then show ?thesis by (simp add: sdscat_def c_strlen_def)
qed

lemma join_loop_cat:
  "\<forall>a \<in> set args. 0 \<notin> set a \<Longrightarrow> 0 \<notin> set sep \<Longrightarrow> join_loop j (map (\<lambda>a. a @ [0]) args) (sep @ [0]) = cat_all sdscatlen j (pieces sep args)"
proof (induction args arbitrary: j)
  case Nil
  then show ?case by simp
next
  case (Cons a args)
  then show ?case by (cases args) (auto simp: sdscat_cstring split: bind_split)
qed

text \<open>Both joins build the fields with the separator between them.\<close>

lemma join_rep:
  assumes "list_all2 sds_rep argv args" "length (intercalate sep args) < 2 ^ 62"
  shows "\<exists>j. sdsjoinsds argv sep = Some j \<and> sds_rep j (intercalate sep args)"
    and "\<forall>a \<in> set args. 0 \<notin> set a \<Longrightarrow> 0 \<notin> set sep \<Longrightarrow>
      \<exists>j. sdsjoin (map (\<lambda>a. a @ [0]) args) (sep @ [0]) = Some j \<and> sds_rep j (intercalate sep args)"
proof -
  obtain e where e: "sdsempty () = Some e" "sds_rep e []" using sdsempty_rep by blast
  have c: "\<exists>j. cat_all sdscatlen e (pieces sep args) = Some j \<and> sds_rep j (intercalate sep args)"
    using sdsbuf.cat_all_holds [OF e(2), of "pieces sep args"] assms(2) by (simp add: concat_pieces)
  show "\<exists>j. sdsjoinsds argv sep = Some j \<and> sds_rep j (intercalate sep args)"
    using c e(1) by (simp add: sdsjoinsds_def joinsds_loop_cat [OF assms(1)])
  show "\<exists>j. sdsjoin (map (\<lambda>a. a @ [0]) args) (sep @ [0]) = Some j \<and> sds_rep j (intercalate sep args)"
    if "\<forall>a \<in> set args. 0 \<notin> set a" "0 \<notin> set sep"
    using c e(1) join_loop_cat [OF that] by (simp add: sdsjoin_def)
qed

lemma no_sublist:
  assumes "\<And>i. start \<le> i \<Longrightarrow> i + length sep \<le> start + n \<Longrightarrow> take (length sep) (drop i s) \<noteq> sep" "start + n \<le> length s"
  shows "\<not> sublist sep (take n (drop start s))"
proof
  assume "sublist sep (take n (drop start s))"
  then obtain ps ss where eq: "take n (drop start s) = ps @ sep @ ss" by (auto simp: sublist_def)
  have len: "length ps + length sep + length ss = n" using arg_cong [OF eq, of length] assms(2) by simp
  have "take (length sep) (drop (start + length ps) s) = take (length sep) (drop (length ps) (take n (drop start s)))"
    using len by (simp add: drop_take add.commute min_def)
  also have "\<dots> = sep" using eq by simp
  finally show False using assms(1) [of "start + length ps"] len by simp
qed

definition split_inv :: "bytes \<Rightarrow> bytes \<Rightarrow> nat \<Rightarrow> nat \<Rightarrow> nat \<Rightarrow> sds list \<Rightarrow> bytes list \<Rightarrow> bool" where
  "split_inv s sep j start slots tokens toks \<longleftrightarrow>
     list_all2 sds_rep tokens toks \<and> length tokens < slots \<and> start \<le> j \<and> j \<le> length s \<and>
     (toks = [] \<and> start = 0 \<or> toks \<noteq> [] \<and> take start s = intercalate sep toks @ sep) \<and>
     (\<forall>tok \<in> set toks. \<not> sublist sep tok) \<and>
     (\<forall>i. start \<le> i \<longrightarrow> i < j \<longrightarrow> take (length sep) (drop i s) \<noteq> sep)"

lemma slice_rep: "start + n \<le> length s \<Longrightarrow> length s < 2 ^ 62 \<Longrightarrow> \<exists>tok. sds_slice s start n = Some tok \<and> sds_rep tok (take n (drop start s))"
  using newlen_rep [of n "drop start s"] by (auto simp: sds_slice_def)

lemma intercalate_token:
  assumes "toks = [] \<and> start = 0 \<or> toks \<noteq> [] \<and> take start s = intercalate sep toks @ sep" "start \<le> j"
  shows "intercalate sep (toks @ [take (j - start) (drop start s)]) = take j s"
proof -
  have "take j s = take start s @ take (j - start) (drop start s)" using assms(2) by (metis le_add_diff_inverse take_add)
  then show ?thesis using assms(1) by (auto simp: intercalate_snoc)
qed

lemma splitlen_loop_inv:
  assumes "split_inv s sep j start slots tokens toks" "sep \<noteq> []" "length s < 2 ^ 62"
  shows "\<exists>start' slots' tokens' toks' j'. splitlen_loop s (length s) sep j start slots tokens = Some (start', slots', tokens') \<and>
    split_inv s sep j' start' slots' tokens' toks' \<and> length s \<le> j' + (length sep - 1)"
  using assms(1)
proof (induction "length s - j" arbitrary: j start slots tokens toks rule: less_induct)
  case less
  note inv = less.prems [unfolded split_inv_def]
  show ?case
  proof (cases "j + (length sep - 1) < length s")
    case False
    then show ?thesis using less.prems by (subst splitlen_loop.simps) (auto intro!: exI [of _ toks] exI [of _ j])
  next
    case True
    then have js: "j + length sep \<le> length s" "j < length s" using assms(2) by (cases sep; simp)+
    define sl where "sl = (if slots < length tokens + 2 then slots * 2 else slots)"
    have sl: "length tokens + 1 < sl" using inv by (auto simp: sl_def)
    show ?thesis
    proof (cases "take (length sep) (drop j s) = sep")
      case match: True
      let ?t = "take (j - start) (drop start s)"
      obtain tok where tok: "sds_slice s start (j - start) = Some tok" "sds_rep tok ?t"
        using slice_rep [of start "j - start" s] inv assms(3) by auto
      have inv1: "split_inv s sep (j + length sep) (j + length sep) sl (tokens @ [tok]) (toks @ [?t])"
      proof -
        have "take (j + length sep) s = take j s @ sep" using match by (simp add: take_add)
        moreover have "\<not> sublist sep ?t"
        proof (rule no_sublist)
          fix i assume i: "start \<le> i" "i + length sep \<le> start + (j - start)"
          moreover have "0 < length sep" using assms(2) by simp
          ultimately have "i < j" using inv by linarith
          then show "take (length sep) (drop i s) \<noteq> sep" using inv i(1) by blast
        qed (use inv in auto)
        ultimately show ?thesis
          using inv tok(2) sl js intercalate_token [of toks start s sep j] unfolding split_inv_def by (auto intro: list_all2_appendI)
      qed
      have eq: "splitlen_loop s (length s) sep j start slots tokens =
          splitlen_loop s (length s) sep (j + length sep) (j + length sep) sl (tokens @ [tok])"
        using True assms(2) js match tok(1) sl
        by (subst splitlen_loop.simps) (unfold Let_def sl_def [symmetric], simp add: push_token_def)
      have "length s - (j + length sep) < length s - j" using js assms(2) by (cases sep) auto
      then show ?thesis unfolding eq by (rule less.hyps [OF _ inv1])
    next
      case nomatch: False
      have inv1: "split_inv s sep (Suc j) start sl tokens toks"
        using inv nomatch js sl unfolding split_inv_def by (auto simp: less_Suc_eq)
      have eq: "splitlen_loop s (length s) sep j start slots tokens = splitlen_loop s (length s) sep (Suc j) start sl tokens"
        using True assms(2) js nomatch by (subst splitlen_loop.simps) (unfold Let_def sl_def [symmetric], simp)
      show ?thesis unfolding eq by (rule less.hyps [OF _ inv1]) (use js in auto)
    qed
  qed
qed



end
