(* ===== verification/Sds_Num.thy ===== *)
theory Sds_Num
  imports Util_Num Sds
begin

text \<open>
  Printing of integers into strings (sds.c): \<^verbatim>\<open>sdsll2str\<close>, \<^verbatim>\<open>sdsull2str\<close> and \<^verbatim>\<open>sdsfromlonglong\<close>. The digits are
  written least significant first and the text is reversed in place.
\<close>

function digits_loop :: "mem \<Rightarrow> nat \<Rightarrow> nat \<Rightarrow> (mem \<times> nat) option" where
  "digits_loop s p v =
     do {
       s' \<leftarrow> wr p [48 + of_nat (v mod 10)] s;
       if v div 10 \<noteq> 0 then digits_loop s' (p + 1) (v div 10) else Some (s', p + 1)
     }"
  by pat_completeness auto
termination by (relation "measure (\<lambda>(s, p, v). v)") auto

declare digits_loop.simps [simp del]

text \<open>The loop that exchanges the bytes at \<open>i\<close> and \<open>j\<close>; \<open>j\<close> may be one before the start.\<close>

function reverse_loop :: "mem \<Rightarrow> nat \<Rightarrow> int \<Rightarrow> mem option" where
  "reverse_loop s i j =
     (if int i < j then do {
        a \<leftarrow> rd i 1 s;
        b \<leftarrow> rd (nat j) 1 s;
        s1 \<leftarrow> wr i b s;
        s2 \<leftarrow> wr (nat j) a s1;
        reverse_loop s2 (i + 1) (j - 1)
      }
      else Some s)"
  by pat_completeness auto
termination by (relation "measure (\<lambda>(s, i, j). nat (j - int i))") auto

declare reverse_loop.simps [simp del]

text \<open>The negation of the least value overflows, which is undefined.\<close>

definition sdsll2str :: "mem \<Rightarrow> int \<Rightarrow> (mem \<times> nat) option" where
  "sdsll2str s value =
     do {
       v \<leftarrow> (if value < 0 then (if - value > INT64_MAX then None else Some (nat (- value))) else Some (nat value));
       (s1, p) \<leftarrow> digits_loop s 0 v;
       (s2, p) \<leftarrow> (if value < 0 then do { s' \<leftarrow> wr p [45] s1; Some (s', p + 1) } else Some (s1, p));
       let l = p;
       s3 \<leftarrow> wr p [0] s2;
       s4 \<leftarrow> reverse_loop s3 0 (int p - 1);
       Some (s4, l)
     }"

definition sdsull2str :: "mem \<Rightarrow> nat \<Rightarrow> (mem \<times> nat) option" where
  "sdsull2str s v =
     do {
       (s1, p) \<leftarrow> digits_loop s 0 v;
       let l = p;
       s2 \<leftarrow> wr p [0] s1;
       s3 \<leftarrow> reverse_loop s2 0 (int p - 1);
       Some (s3, l)
     }"

definition sdsfromlonglong :: "int \<Rightarrow> sds option" where
  "sdsfromlonglong value =
     do {
       (buf, len) \<leftarrow> sdsll2str (replicate 21 None) value;
       bs \<leftarrow> rd 0 len buf;
       sdsnewlen (Init bs) len
     }"

lemma digits_loop_eq:
  "length pre = p \<Longrightarrow> p + length (dec_nat v) \<le> length (pre @ m) \<Longrightarrow>
   digits_loop (pre @ m) p v = Some (pre @ map Some (rev (dec_nat v)) @ drop (length (dec_nat v)) m, p + length (dec_nat v))"
proof (induction v arbitrary: pre p m rule: less_induct)
  case (less v)
  obtain b m' where m: "m = b # m'" using less.prems dec_nat_ne [of v] by (cases m) auto
  have w: "wr p [48 + of_nat (v mod 10)] (pre @ m) = Some ((pre @ [Some (48 + of_nat (v mod 10))]) @ m')"
    using less.prems(1) by (simp add: wr_def m)
  show ?case
  proof (cases "v < 10")
    case True
    then show ?thesis using w less.prems by (subst digits_loop.simps) (simp add: dec_nat_1 m)
  next
    case False
    have d: "dec_nat v = dec_nat (v div 10) @ [48 + of_nat (v mod 10)]" using False by (intro dec_nat_10) simp
    have "digits_loop ((pre @ [Some (48 + of_nat (v mod 10))]) @ m') (p + 1) (v div 10) =
        Some ((pre @ [Some (48 + of_nat (v mod 10))]) @ map Some (rev (dec_nat (v div 10))) @ drop (length (dec_nat (v div 10))) m',
          p + 1 + length (dec_nat (v div 10)))"
      by (rule less.IH) (use less.prems d m False in auto)
    then show ?thesis using w False by (subst digits_loop.simps) (simp add: d m div_eq_0_iff)
  qed
qed

lemma reverse_loop_eq:
  "length pre = i \<Longrightarrow> j = int i + int (length mid) - 1 \<Longrightarrow>
   reverse_loop (pre @ map Some mid @ post) i j = Some (pre @ map Some (rev mid) @ post)"
proof (induction "length mid" arbitrary: pre mid post i j rule: less_induct)
  case less
  show ?case
  proof (cases "length mid \<le> 1")
    case True
    then have "rev mid = mid" by (cases mid) simp_all
    moreover have "\<not> int i < j" using True less.prems(2) by simp
    ultimately show ?thesis by (subst reverse_loop.simps) simp
  next
    case False
    then obtain a xs where xs: "mid = a # xs" "xs \<noteq> []" by (cases mid) auto
    then obtain mid' b where mid: "mid = a # mid' @ [b]" by (cases xs rule: rev_cases) auto
    have j: "nat j = Suc (length pre + length mid')" "int i < j" using less.prems mid by auto
    have "reverse_loop (pre @ map Some mid @ post) i j = reverse_loop ((pre @ [Some b]) @ map Some mid' @ (Some a # post)) (i + 1) (j - 1)"
      using j less.prems(1) by (subst reverse_loop.simps) (simp add: mid rd_def wr_def)
    also have "\<dots> = Some ((pre @ [Some b]) @ map Some (rev mid') @ Some a # post)"
      by (rule less.hyps) (use less.prems mid in auto)
    finally show ?thesis by (simp add: mid)
  qed
qed

text \<open>
  Property C36. \<^verbatim>\<open>sdsfromlonglong\<close> gives the decimal text of every 64-bit value but the least, inside a buffer of 21 bytes;
  for the least value the code negates it, which overflows.
\<close>

theorem sdsfromlonglong_decimal:
  assumes "is_int64 v"
  shows "if v = INT64_MIN then sdsfromlonglong v = None
    else \<exists>s. sdsfromlonglong v = Some s \<and> sds_rep s (dec_int v)"
proof -
  have len: "length (dec_nat n) \<le> 19" if "n < 10 ^ 19" for n using len_dec_le [OF that] by simp
  have dig: "digits_loop (replicate 21 None) 0 n = Some (map Some (rev (dec_nat n)) @ replicate (21 - length (dec_nat n)) None, length (dec_nat n))"
    if "n < 10 ^ 19" for n using digits_loop_eq [of "[]" 0 n "replicate 21 None"] len [OF that] by simp
  have new: "\<exists>s. sdsnewlen (Init bs) (length bs) = Some s \<and> sds_rep s bs" if "length bs \<le> 20" for bs
    using newlen_rep [of "length bs" bs] that by simp
  show ?thesis
  proof (cases "v = INT64_MIN \<or> 0 \<le> v")
    case True
    show ?thesis
    proof (cases "v = INT64_MIN")
      case True
      then show ?thesis by (simp add: sdsfromlonglong_def sdsll2str_def)
    next
      case False
      let ?d = "dec_nat (nat v)"
      have n: "nat v < 10 ^ 19" "0 \<le> v" using assms True False by (auto simp: is_int64_def)
      have "wr (length ?d) [0] (map Some (rev ?d) @ replicate (21 - length ?d) None) =
          Some ([] @ map Some (rev ?d) @ Some 0 # replicate (20 - length ?d) None)"
        using len [OF n(1)] by (simp add: wr_def Suc_diff_le)
      then have "sdsll2str (replicate 21 None) v = Some (map Some ?d @ Some 0 # replicate (20 - length ?d) None, length ?d)"
        using n dig [OF n(1)] reverse_loop_eq [of "[]" 0 _ "rev ?d"] by (simp add: sdsll2str_def)
      then show ?thesis using new [of ?d] len [OF n(1)] n(2) False by (auto simp: sdsfromlonglong_def dec_int_def rd_def)
    qed
  next
    case False
    let ?d = "dec_nat (nat (- v))"
    have n: "nat (- v) < 10 ^ 19" "v < 0" "- v \<le> INT64_MAX" using assms False by (auto simp: is_int64_def)
    have "wr (length ?d) [45] (map Some (rev ?d) @ replicate (21 - length ?d) None) =
        Some (map Some (rev (45 # ?d)) @ replicate (20 - length ?d) None)"
      using len [OF n(1)] by (simp add: wr_def)
    moreover have "wr (length ?d + 1) [0] (map Some (rev (45 # ?d)) @ replicate (20 - length ?d) None) =
        Some ([] @ map Some (rev (45 # ?d)) @ Some 0 # replicate (19 - length ?d) None)"
      using len [OF n(1)] by (simp add: wr_def Suc_diff_le)
    ultimately have "sdsll2str (replicate 21 None) v = Some (map Some (45 # ?d) @ Some 0 # replicate (19 - length ?d) None, length (45 # ?d))"
      using n dig [OF n(1)] reverse_loop_eq [of "[]" 0 _ "rev (45 # ?d)"] by (simp add: sdsll2str_def)
    then show ?thesis using new [of "45 # ?d"] len [OF n(1)] n(2) False by (auto simp: sdsfromlonglong_def dec_int_def rd_def)
  qed
qed

theorem sdsfromlonglong_decimal_witness: "\<exists>s. sdsfromlonglong (- 305) = Some s \<and> sds_rep s [45, 51, 48, 53]"
  using sdsfromlonglong_decimal [of "- 305"] by (simp add: is_int64_def dec_int_def dec_nat.simps)

end
