(* ===== verification/Reply.thy ===== *)
theory Reply
  imports Redis_Prelude
begin

text \<open>
  What command handlers write to a client (the \<^verbatim>\<open>addReply\<close> family of networking.c), as a sequence of protocol
  elements; the output buffers themselves are not modelled.
\<close>

datatype reply =
    MultiBulkLen int
  | Shared string
  | Bulk bytes
  | NullBulk
  | NullMultiBulk
  | LongLong int
  | Error string

text \<open>\<^verbatim>\<open>strcasecmp\<close> with a literal: equality of null-terminated strings up to the case of ASCII letters.\<close>

definition lower8 :: "u8 \<Rightarrow> u8" where
  "lower8 c = (if 0x41 \<le> c \<and> c \<le> 0x5A then c + 32 else c)"

definition strcaseeq :: "bytes \<Rightarrow> string \<Rightarrow> bool" where
  "strcaseeq s lit \<longleftrightarrow> map lower8 (takeWhile (\<lambda>c. c \<noteq> 0) s) = map lower8 (ascii lit)"

end
