(* ===== verification/Pubsub.thy ===== *)
theory Pubsub
  imports Util_Match Reply "HOL-Library.AList"
begin

text \<open>
  Publish/subscribe (pubsub.c). A hash table is an association list in the order of iteration, a linked
  list is a list, and client structures are indexed by numbers; strings are values, so reference
  counts have no counterpart. A failed assertion, or the deletion of a node that was not found, is
  \<^term>\<open>None\<close>.
\<close>

section \<open>State\<close>

record client =
  c_channels :: "bytes list"
  c_patterns :: "bytes list"
  c_pubsub :: bool
  c_out :: "reply list"

record pubsub =
  clients :: "nat \<Rightarrow> client"
  srv_channels :: "(bytes \<times> nat list) list"
  srv_patterns :: "(nat \<times> bytes) list"

definition upd_client :: "nat \<Rightarrow> (client \<Rightarrow> client) \<Rightarrow> pubsub \<Rightarrow> pubsub" where
  "upd_client c f s = s\<lparr>clients := (clients s)(c := f (clients s c))\<rparr>"

definition addReplies :: "nat \<Rightarrow> reply list \<Rightarrow> pubsub \<Rightarrow> pubsub" where
  "addReplies c rs s = upd_client c (c_out_update (\<lambda>out. out @ rs)) s"

section \<open>Operations\<close>

definition clientSubscriptionsCount :: "pubsub \<Rightarrow> nat \<Rightarrow> int" where
  "clientSubscriptionsCount s c = int (length (c_channels (clients s c))) + int (length (c_patterns (clients s c)))"

definition pubsubSubscribeChannel :: "pubsub \<Rightarrow> nat \<Rightarrow> bytes \<Rightarrow> pubsub \<times> int" where
  "pubsubSubscribeChannel s c channel =
     (let (s1, retval) =
        (if channel \<notin> set (c_channels (clients s c)) then
           let s' = upd_client c (c_channels_update (\<lambda>chs. chs @ [channel])) s;
               subscribers = (case map_of (srv_channels s') channel of None \<Rightarrow> [] | Some l \<Rightarrow> l) in
           (s'\<lparr>srv_channels := AList.update channel (subscribers @ [c]) (srv_channels s')\<rparr>, 1)
         else (s, 0)) in
      (addReplies c [MultiBulkLen 3, Shared ''subscribe'', Bulk channel, LongLong (clientSubscriptionsCount s1 c)] s1, retval))"

definition pubsubUnsubscribeChannel :: "pubsub \<Rightarrow> nat \<Rightarrow> bytes \<Rightarrow> bool \<Rightarrow> (pubsub \<times> int) option" where
  "pubsubUnsubscribeChannel s c channel notify =
     do {
       (s1, retval) \<leftarrow>
         (if channel \<in> set (c_channels (clients s c)) then do {
            let s' = upd_client c (c_channels_update (remove1 channel)) s;
            subscribers \<leftarrow> map_of (srv_channels s') channel;
            if c \<in> set subscribers then do {
              let subscribers' = remove1 c subscribers;
              Some (s'\<lparr>srv_channels := (if subscribers' = [] then AList.delete channel (srv_channels s')
                                   else AList.update channel subscribers' (srv_channels s'))\<rparr>, 1)
            } else None
          } else Some (s, 0));
       Some (if notify
             then addReplies c [MultiBulkLen 3, Shared ''unsubscribe'', Bulk channel, LongLong (clientSubscriptionsCount s1 c)] s1
             else s1, retval)
     }"

definition pubsubSubscribePattern :: "pubsub \<Rightarrow> nat \<Rightarrow> bytes \<Rightarrow> pubsub \<times> int" where
  "pubsubSubscribePattern s c pattern =
     (let (s1, retval) =
        (if pattern \<notin> set (c_patterns (clients s c)) then
           let s' = upd_client c (c_patterns_update (\<lambda>ps. ps @ [pattern])) s in
           (s'\<lparr>srv_patterns := srv_patterns s' @ [(c, pattern)]\<rparr>, 1)
         else (s, 0)) in
      (addReplies c [MultiBulkLen 3, Shared ''psubscribe'', Bulk pattern, LongLong (clientSubscriptionsCount s1 c)] s1, retval))"

definition pubsubUnsubscribePattern :: "pubsub \<Rightarrow> nat \<Rightarrow> bytes \<Rightarrow> bool \<Rightarrow> (pubsub \<times> int) option" where
  "pubsubUnsubscribePattern s c pattern notify =
     do {
       (s1, retval) \<leftarrow>
         (if pattern \<in> set (c_patterns (clients s c)) then do {
            let s' = upd_client c (c_patterns_update (remove1 pattern)) s;
            if (c, pattern) \<in> set (srv_patterns s')
            then Some (s'\<lparr>srv_patterns := remove1 (c, pattern) (srv_patterns s')\<rparr>, 1) else None
          } else Some (s, 0));
       Some (if notify
             then addReplies c [MultiBulkLen 3, Shared ''punsubscribe'', Bulk pattern, LongLong (clientSubscriptionsCount s1 c)] s1
             else s1, retval)
     }"

text \<open>The loops over all subscriptions of a client: the iterators visit the entries there were at the start.\<close>

fun unsub_each :: "(pubsub \<Rightarrow> bytes \<Rightarrow> (pubsub \<times> int) option) \<Rightarrow> pubsub \<Rightarrow> int \<Rightarrow> bytes list \<Rightarrow> (pubsub \<times> int) option" where
  "unsub_each f s count [] = Some (s, count)"
| "unsub_each f s count (x # xs) = do { (s', n) \<leftarrow> f s x; unsub_each f s' (count + n) xs }"

definition pubsubUnsubscribeAllChannels :: "pubsub \<Rightarrow> nat \<Rightarrow> bool \<Rightarrow> (pubsub \<times> int) option" where
  "pubsubUnsubscribeAllChannels s c notify =
     do {
       (s1, count) \<leftarrow> unsub_each (\<lambda>s ch. pubsubUnsubscribeChannel s c ch notify) s 0 (c_channels (clients s c));
       Some (if notify \<and> count = 0
             then addReplies c [MultiBulkLen 3, Shared ''unsubscribe'', NullBulk, LongLong (clientSubscriptionsCount s1 c)] s1
             else s1, count)
     }"

definition pubsubUnsubscribeAllPatterns :: "pubsub \<Rightarrow> nat \<Rightarrow> bool \<Rightarrow> (pubsub \<times> int) option" where
  "pubsubUnsubscribeAllPatterns s c notify =
     do {
       (s1, count) \<leftarrow> unsub_each (\<lambda>s p. pubsubUnsubscribePattern s c p notify) s 0 (c_patterns (clients s c));
       Some (if notify \<and> count = 0
             then addReplies c [MultiBulkLen 3, Shared ''punsubscribe'', NullBulk, LongLong (clientSubscriptionsCount s1 c)] s1
             else s1, count)
     }"

fun publish_channel :: "pubsub \<Rightarrow> bytes \<Rightarrow> bytes \<Rightarrow> int \<Rightarrow> nat list \<Rightarrow> pubsub \<times> int" where
  "publish_channel s channel msg receivers [] = (s, receivers)"
| "publish_channel s channel msg receivers (c # cs) =
     publish_channel (addReplies c [MultiBulkLen 3, Shared ''message'', Bulk channel, Bulk msg] s) channel msg (receivers + 1) cs"

fun publish_patterns :: "pubsub \<Rightarrow> bytes \<Rightarrow> bytes \<Rightarrow> int \<Rightarrow> (nat \<times> bytes) list \<Rightarrow> (pubsub \<times> int) option" where
  "publish_patterns s channel msg receivers [] = Some (s, receivers)"
| "publish_patterns s channel msg receivers ((c, pattern) # ps) =
     do {
       m \<leftarrow> stringmatchlen False (pattern @ [0]) 0 (int (length pattern)) channel;
       if m then publish_patterns (addReplies c [MultiBulkLen 4, Shared ''pmessage'', Bulk pattern, Bulk channel, Bulk msg] s)
                   channel msg (receivers + 1) ps
       else publish_patterns s channel msg receivers ps
     }"

definition pubsubPublishMessage :: "pubsub \<Rightarrow> bytes \<Rightarrow> bytes \<Rightarrow> (pubsub \<times> int) option" where
  "pubsubPublishMessage s channel msg =
     (let (s1, receivers) = (case map_of (srv_channels s) channel of
                                None \<Rightarrow> (s, 0) | Some l \<Rightarrow> publish_channel s channel msg 0 l) in
      if srv_patterns s1 \<noteq> [] then publish_patterns s1 channel msg receivers (srv_patterns s1)
      else Some (s1, receivers))"

section \<open>Commands\<close>

text \<open>The arguments are those after the command name.\<close>

fun sub_each :: "(pubsub \<Rightarrow> bytes \<Rightarrow> pubsub \<times> int) \<Rightarrow> pubsub \<Rightarrow> bytes list \<Rightarrow> pubsub" where
  "sub_each f s [] = s"
| "sub_each f s (x # xs) = sub_each f (fst (f s x)) xs"

definition subscribeCommand :: "pubsub \<Rightarrow> nat \<Rightarrow> bytes list \<Rightarrow> pubsub" where
  "subscribeCommand s c args =
     upd_client c (c_pubsub_update (\<lambda>_. True)) (sub_each (\<lambda>s. pubsubSubscribeChannel s c) s args)"

definition clear_flag :: "nat \<Rightarrow> pubsub \<Rightarrow> pubsub" where
  "clear_flag c s = (if clientSubscriptionsCount s c = 0 then upd_client c (c_pubsub_update (\<lambda>_. False)) s else s)"

definition unsubscribeCommand :: "pubsub \<Rightarrow> nat \<Rightarrow> bytes list \<Rightarrow> pubsub option" where
  "unsubscribeCommand s c args =
     do {
       (s1, n) \<leftarrow> (if args = [] then pubsubUnsubscribeAllChannels s c True
                   else unsub_each (\<lambda>s ch. pubsubUnsubscribeChannel s c ch True) s 0 args);
       Some (clear_flag c s1)
     }"

definition psubscribeCommand :: "pubsub \<Rightarrow> nat \<Rightarrow> bytes list \<Rightarrow> pubsub" where
  "psubscribeCommand s c args =
     upd_client c (c_pubsub_update (\<lambda>_. True)) (sub_each (\<lambda>s. pubsubSubscribePattern s c) s args)"

definition punsubscribeCommand :: "pubsub \<Rightarrow> nat \<Rightarrow> bytes list \<Rightarrow> pubsub option" where
  "punsubscribeCommand s c args =
     do {
       (s1, n) \<leftarrow> (if args = [] then pubsubUnsubscribeAllPatterns s c True
                   else unsub_each (\<lambda>s p. pubsubUnsubscribePattern s c p True) s 0 args);
       Some (clear_flag c s1)
     }"

text \<open>The propagation of the message to replicas or to the cluster bus has no effect on this state.\<close>

definition publishCommand :: "pubsub \<Rightarrow> nat \<Rightarrow> bytes \<Rightarrow> bytes \<Rightarrow> pubsub option" where
  "publishCommand s c channel msg =
     do { (s1, receivers) \<leftarrow> pubsubPublishMessage s channel msg; Some (addReplies c [LongLong receivers] s1) }"

fun matching_channels :: "bytes option \<Rightarrow> bytes list \<Rightarrow> bytes list option" where
  "matching_channels pat [] = Some []"
| "matching_channels pat (ch # chs) =
     do {
       m \<leftarrow> (case pat of None \<Rightarrow> Some True | Some p \<Rightarrow> stringmatchlen False (p @ [0]) 0 (int (length p)) ch);
       rest \<leftarrow> matching_channels pat chs;
       Some (if m then ch # rest else rest)
     }"

definition pubsubCommand :: "pubsub \<Rightarrow> nat \<Rightarrow> bytes list \<Rightarrow> pubsub option" where
  "pubsubCommand s c args =
     (case args of [] \<Rightarrow> None | sub # rest \<Rightarrow>
      if rest = [] \<and> strcaseeq sub ''help'' then Some (addReplies c [Shared ''help''] s)
      else if strcaseeq sub ''channels'' \<and> length rest \<le> 1 then do {
        chs \<leftarrow> matching_channels (if rest = [] then None else Some (hd rest)) (map fst (srv_channels s));
        Some (addReplies c (MultiBulkLen (int (length chs)) # map Bulk chs) s)
      }
      else if strcaseeq sub ''numsub'' then
        Some (addReplies c (MultiBulkLen (int (length rest) * 2) #
          concat (map (\<lambda>ch. [Bulk ch, LongLong (case map_of (srv_channels s) ch of None \<Rightarrow> 0 | Some l \<Rightarrow> int (length l))]) rest)) s)
      else if strcaseeq sub ''numpat'' \<and> rest = [] then Some (addReplies c [LongLong (int (length (srv_patterns s)))] s)
      else Some (addReplies c [Error ''Unknown subcommand or wrong number of arguments''] s))"

text \<open>What \<^verbatim>\<open>freeClient\<close> does for the subscriptions of a client, which then goes away.\<close>

definition freeClient_pubsub :: "pubsub \<Rightarrow> nat \<Rightarrow> pubsub option" where
  "freeClient_pubsub s c =
     do {
       (s1, n) \<leftarrow> pubsubUnsubscribeAllChannels s c False;
       (s2, n) \<leftarrow> pubsubUnsubscribeAllPatterns s1 c False;
       Some (upd_client c (\<lambda>_. \<lparr>c_channels = [], c_patterns = [], c_pubsub = False, c_out = []\<rparr>) s2)
     }"

section \<open>Consistency\<close>

text \<open>Both directions of the subscription tables agree, without duplicates and without empty entries.\<close>

definition chan_ok :: "(nat \<Rightarrow> bytes list) \<Rightarrow> (bytes \<times> nat list) list \<Rightarrow> bool" where
  "chan_ok CH SC \<longleftrightarrow>
     distinct (map fst SC) \<and>
     (\<forall>ch l. map_of SC ch = Some l \<longrightarrow> l \<noteq> [] \<and> distinct l) \<and>
     (\<forall>c ch. ch \<in> set (CH c) \<longleftrightarrow> (\<exists>l. map_of SC ch = Some l \<and> c \<in> set l)) \<and>
     (\<forall>c. distinct (CH c))"

definition pat_ok :: "(nat \<Rightarrow> bytes list) \<Rightarrow> (nat \<times> bytes) list \<Rightarrow> bool" where
  "pat_ok PT SP \<longleftrightarrow> distinct SP \<and> (\<forall>c. distinct (PT c)) \<and> (\<forall>c p. (c, p) \<in> set SP \<longleftrightarrow> p \<in> set (PT c))"

abbreviation CH :: "pubsub \<Rightarrow> nat \<Rightarrow> bytes list" where "CH s \<equiv> \<lambda>c. c_channels (clients s c)"
abbreviation PT :: "pubsub \<Rightarrow> nat \<Rightarrow> bytes list" where "PT s \<equiv> \<lambda>c. c_patterns (clients s c)"

definition subs_ok :: "pubsub \<Rightarrow> bool" where
  "subs_ok s \<longleftrightarrow> chan_ok (CH s) (srv_channels s) \<and> pat_ok (PT s) (srv_patterns s)"

definition flags_ok :: "pubsub \<Rightarrow> bool" where
  "flags_ok s \<longleftrightarrow> (\<forall>c. c_pubsub (clients s c) \<longleftrightarrow> CH s c \<noteq> [] \<or> PT s c \<noteq> [])"

named_theorems pubsub_simps \<open>projections of updated states\<close>

lemma upd_client_simps [pubsub_simps]:
  "clients (upd_client c f s) = (clients s)(c := f (clients s c))"
  "srv_channels (upd_client c f s) = srv_channels s" "srv_patterns (upd_client c f s) = srv_patterns s"
  by (simp_all add: upd_client_def)

lemma addReplies_simps [pubsub_simps]:
  "CH (addReplies c rs s) = CH s" "PT (addReplies c rs s) = PT s"
  "c_channels (clients (addReplies c rs s) d) = c_channels (clients s d)" "c_patterns (clients (addReplies c rs s) d) = c_patterns (clients s d)"
  "c_pubsub (clients (addReplies c rs s) d) = c_pubsub (clients s d)"
  "c_out (clients (addReplies c rs s) d) = c_out (clients s d) @ (if d = c then rs else [])"
  "srv_channels (addReplies c rs s) = srv_channels s" "srv_patterns (addReplies c rs s) = srv_patterns s"
  "d \<noteq> c \<Longrightarrow> clients (addReplies c rs s) d = clients s d"
  by (auto simp: addReplies_def upd_client_def)

lemma chan_sub:
  assumes ok: "chan_ok C S" and new: "ch \<notin> set (C c)"
  shows "chan_ok (C(c := C c @ [ch])) (AList.update ch ((case map_of S ch of None \<Rightarrow> [] | Some l \<Rightarrow> l) @ [c]) S)"
proof -
  have "c \<notin> set (case map_of S ch of None \<Rightarrow> [] | Some l \<Rightarrow> l)" "distinct (case map_of S ch of None \<Rightarrow> [] | Some l \<Rightarrow> l)"
    using ok new unfolding chan_ok_def by (auto split: option.split)
  then show ?thesis
    using ok new unfolding chan_ok_def by (auto simp: update_conv' distinct_update split: option.splits if_splits)
qed

lemma chan_unsub:
  assumes ok: "chan_ok C S" and old: "ch \<in> set (C c)"
  shows "\<exists>l. map_of S ch = Some l \<and> c \<in> set l \<and>
    chan_ok (C(c := remove1 ch (C c))) (if remove1 c l = [] then AList.delete ch S else AList.update ch (remove1 c l) S)"
proof -
  obtain l where l: "map_of S ch = Some l" "c \<in> set l" "distinct l" using ok old unfolding chan_ok_def by metis
  have d: "distinct (C d)" for d using ok unfolding chan_ok_def by blast
  have r: "set (remove1 c l) = set l - {c}" "set (remove1 ch (C c)) = set (C c) - {ch}"
    using l(3) d [of c] by (simp_all add: set_remove1_eq)
  show ?thesis
  proof (cases "remove1 c l = []")
    case True
    then have "set l = {c}" using r l(2) by auto
    then have "chan_ok (C(c := remove1 ch (C c))) (AList.delete ch S)"
      using ok l d r unfolding chan_ok_def by (auto simp: delete_conv' distinct_delete distinct_remove1 simp del: map_of_eq_Some_iff)
    then show ?thesis using l True by auto
  next
    case False
    then have "chan_ok (C(c := remove1 ch (C c))) (AList.update ch (remove1 c l) S)"
      using ok l d r unfolding chan_ok_def by (auto simp: update_conv' distinct_update distinct_remove1 simp del: map_of_eq_Some_iff)
    then show ?thesis using l False by auto
  qed
qed

lemma pat_sub: "pat_ok P S \<Longrightarrow> p \<notin> set (P c) \<Longrightarrow> pat_ok (P(c := P c @ [p])) (S @ [(c, p)])"
  unfolding pat_ok_def by auto

lemma pat_unsub: "pat_ok P S \<Longrightarrow> p \<in> set (P c) \<Longrightarrow> (c, p) \<in> set S \<and> pat_ok (P(c := remove1 p (P c))) (remove1 (c, p) S)"
  unfolding pat_ok_def by (auto simp: set_remove1_eq distinct_remove1)

section \<open>The operations keep the tables consistent\<close>

text \<open>A run that changes only the subscriptions of client \<open>c\<close>: no assertion fails, and the other clients and the flags are untouched.\<close>

definition keeps :: "nat \<Rightarrow> pubsub \<Rightarrow> pubsub \<Rightarrow> bool" where
  "keeps c s s' \<longleftrightarrow> subs_ok s' \<and> (\<forall>d. c_pubsub (clients s' d) = c_pubsub (clients s d)) \<and>
     (\<forall>d. d \<noteq> c \<longrightarrow> clients s' d = clients s d)"

lemma keeps_trans: "keeps c s s1 \<Longrightarrow> keeps c s1 s2 \<Longrightarrow> keeps c s s2"
  by (simp add: keeps_def)

lemma keeps_refl: "subs_ok s \<Longrightarrow> keeps c s s"
  by (simp add: keeps_def)

lemma addReplies_keeps: "keeps c s s' \<Longrightarrow> keeps c s (addReplies c rs s')"
  by (auto simp: keeps_def subs_ok_def pubsub_simps)

lemma subscribe_channel_keeps:
  assumes "subs_ok s"
  shows "keeps c s (fst (pubsubSubscribeChannel s c ch))"
    and "CH (fst (pubsubSubscribeChannel s c ch)) c = (if ch \<in> set (CH s c) then CH s c else CH s c @ [ch])"
    and "PT (fst (pubsubSubscribeChannel s c ch)) c = PT s c"
proof -
  let ?s = "(upd_client c (c_channels_update (\<lambda>chs. chs @ [ch])) s)\<lparr>srv_channels :=
    AList.update ch ((case map_of (srv_channels s) ch of None \<Rightarrow> [] | Some l \<Rightarrow> l) @ [c]) (srv_channels s)\<rparr>"
  have "subs_ok ?s" if "ch \<notin> set (CH s c)"
  proof -
    have "CH ?s = (CH s)(c := CH s c @ [ch])" "PT ?s = PT s" by (auto simp: pubsub_simps)
    then show ?thesis using assms chan_sub [of "CH s" "srv_channels s" ch c] that by (simp add: subs_ok_def pubsub_simps)
  qed
  then have "keeps c s ?s" if "ch \<notin> set (CH s c)" using that by (auto simp: keeps_def pubsub_simps)
  then show "keeps c s (fst (pubsubSubscribeChannel s c ch))"
    using assms by (auto simp: pubsubSubscribeChannel_def Let_def pubsub_simps intro!: addReplies_keeps keeps_refl)
  show "CH (fst (pubsubSubscribeChannel s c ch)) c = (if ch \<in> set (CH s c) then CH s c else CH s c @ [ch])"
    and "PT (fst (pubsubSubscribeChannel s c ch)) c = PT s c"
    by (simp_all add: pubsubSubscribeChannel_def Let_def pubsub_simps)
qed

lemma subscribe_pattern_keeps:
  assumes "subs_ok s"
  shows "keeps c s (fst (pubsubSubscribePattern s c p))"
    and "CH (fst (pubsubSubscribePattern s c p)) c = CH s c"
    and "PT (fst (pubsubSubscribePattern s c p)) c = (if p \<in> set (PT s c) then PT s c else PT s c @ [p])"
proof -
  let ?s = "(upd_client c (c_patterns_update (\<lambda>ps. ps @ [p])) s)\<lparr>srv_patterns := srv_patterns s @ [(c, p)]\<rparr>"
  have "subs_ok ?s" if "p \<notin> set (PT s c)"
  proof -
    have "PT ?s = (PT s)(c := PT s c @ [p])" "CH ?s = CH s" by (auto simp: pubsub_simps)
    then show ?thesis using assms pat_sub [of "PT s" "srv_patterns s" p c] that by (simp add: subs_ok_def pubsub_simps)
  qed
  then have "keeps c s ?s" if "p \<notin> set (PT s c)" using that by (auto simp: keeps_def pubsub_simps)
  then show "keeps c s (fst (pubsubSubscribePattern s c p))"
    using assms by (auto simp: pubsubSubscribePattern_def Let_def pubsub_simps intro!: addReplies_keeps keeps_refl)
  show "CH (fst (pubsubSubscribePattern s c p)) c = CH s c"
    and "PT (fst (pubsubSubscribePattern s c p)) c = (if p \<in> set (PT s c) then PT s c else PT s c @ [p])"
    by (simp_all add: pubsubSubscribePattern_def Let_def pubsub_simps)
qed

lemma unsubscribe_channel_keeps:
  assumes ok: "subs_ok s"
  shows "\<exists>s' n. pubsubUnsubscribeChannel s c ch notify = Some (s', n) \<and> keeps c s s' \<and>
    CH s' c = remove1 ch (CH s c) \<and> PT s' c = PT s c"
proof (cases "ch \<in> set (CH s c)")
  case False
  then show ?thesis using ok
    by (auto simp: pubsubUnsubscribeChannel_def pubsub_simps remove1_idem intro!: addReplies_keeps keeps_refl)
next
  case True
  let ?s = "upd_client c (c_channels_update (remove1 ch)) s"
  obtain l where l: "map_of (srv_channels s) ch = Some l" "c \<in> set l"
    "chan_ok ((CH s)(c := remove1 ch (CH s c))) (if remove1 c l = [] then AList.delete ch (srv_channels s) else AList.update ch (remove1 c l) (srv_channels s))"
    using chan_unsub [of "CH s" "srv_channels s" ch c] True ok unfolding subs_ok_def by blast
  let ?s' = "?s\<lparr>srv_channels := if remove1 c l = [] then AList.delete ch (srv_channels s) else AList.update ch (remove1 c l) (srv_channels s)\<rparr>"
  have "CH ?s' = (CH s)(c := remove1 ch (CH s c))" "PT ?s' = PT s" by (auto simp: pubsub_simps)
  then have "subs_ok ?s'" using ok l(3) by (simp add: subs_ok_def pubsub_simps)
  then have "keeps c s ?s'" by (auto simp: keeps_def pubsub_simps)
  then show ?thesis
    using True l by (auto simp: pubsubUnsubscribeChannel_def pubsub_simps Let_def intro!: addReplies_keeps)
qed

lemma unsubscribe_pattern_keeps:
  assumes ok: "subs_ok s"
  shows "\<exists>s' n. pubsubUnsubscribePattern s c p notify = Some (s', n) \<and> keeps c s s' \<and>
    CH s' c = CH s c \<and> PT s' c = remove1 p (PT s c)"
proof (cases "p \<in> set (PT s c)")
  case False
  then show ?thesis using ok
    by (auto simp: pubsubUnsubscribePattern_def pubsub_simps remove1_idem intro!: addReplies_keeps keeps_refl)
next
  case True
  let ?s' = "(upd_client c (c_patterns_update (remove1 p)) s)\<lparr>srv_patterns := remove1 (c, p) (srv_patterns s)\<rparr>"
  have l: "(c, p) \<in> set (srv_patterns s)" "pat_ok ((PT s)(c := remove1 p (PT s c))) (remove1 (c, p) (srv_patterns s))"
    using pat_unsub [of "PT s" "srv_patterns s" p c] True ok unfolding subs_ok_def by blast+
  have "PT ?s' = (PT s)(c := remove1 p (PT s c))" "CH ?s' = CH s" by (auto simp: pubsub_simps)
  then have "subs_ok ?s'" using ok l(2) by (simp add: subs_ok_def pubsub_simps)
  then have "keeps c s ?s'" by (auto simp: keeps_def pubsub_simps)
  then show ?thesis
    using True l by (auto simp: pubsubUnsubscribePattern_def pubsub_simps Let_def intro!: addReplies_keeps)
qed

lemma unsub_each_keeps:
  assumes step: "\<And>s x. subs_ok s \<Longrightarrow> \<exists>s' n. f s x = Some (s', n) \<and> keeps c s s' \<and> g s' = remove1 x (g s) \<and> h s' = h s"
  shows "subs_ok s \<Longrightarrow> \<exists>s' n. unsub_each f s count xs = Some (s', n) \<and> keeps c s s' \<and> g s' = fold remove1 xs (g s) \<and> h s' = h s"
proof (induction xs arbitrary: s count)
  case Nil
  then show ?case by (simp add: keeps_refl)
next
  case (Cons x xs)
  obtain s1 n where s1: "f s x = Some (s1, n)" "keeps c s s1" "g s1 = remove1 x (g s)" "h s1 = h s" using step [OF Cons.prems] by blast
  then have "subs_ok s1" by (simp add: keeps_def)
  from Cons.IH [OF this, of "count + n"] s1 show ?case by (auto intro: keeps_trans)
qed

lemma unsub_channels_keeps:
  "subs_ok s \<Longrightarrow> \<exists>s' n. unsub_each (\<lambda>s ch. pubsubUnsubscribeChannel s c ch notify) s count chs = Some (s', n) \<and> keeps c s s' \<and>
     CH s' c = fold remove1 chs (CH s c) \<and> PT s' c = PT s c"
  by (rule unsub_each_keeps) (rule unsubscribe_channel_keeps)

lemma unsub_patterns_keeps:
  "subs_ok s \<Longrightarrow> \<exists>s' n. unsub_each (\<lambda>s p. pubsubUnsubscribePattern s c p notify) s count ps = Some (s', n) \<and> keeps c s s' \<and>
     PT s' c = fold remove1 ps (PT s c) \<and> CH s' c = CH s c"
  by (rule unsub_each_keeps) (use unsubscribe_pattern_keeps in blast)

lemma fold_remove1_self: "fold remove1 xs xs = []"
  by (induction xs) auto

lemma unsub_all_keeps:
  assumes "subs_ok s"
  shows "\<exists>s' n. pubsubUnsubscribeAllChannels s c notify = Some (s', n) \<and> keeps c s s' \<and> CH s' c = [] \<and> PT s' c = PT s c"
    and "\<exists>s' n. pubsubUnsubscribeAllPatterns s c notify = Some (s', n) \<and> keeps c s s' \<and> PT s' c = [] \<and> CH s' c = CH s c"
proof -
  obtain s1 n1 where 1: "unsub_each (\<lambda>s ch. pubsubUnsubscribeChannel s c ch notify) s 0 (CH s c) = Some (s1, n1)"
    "keeps c s s1" "CH s1 c = []" "PT s1 c = PT s c"
    using unsub_channels_keeps [OF assms, of c notify 0 "CH s c"] by (auto simp: fold_remove1_self)
  then show "\<exists>s' n. pubsubUnsubscribeAllChannels s c notify = Some (s', n) \<and> keeps c s s' \<and> CH s' c = [] \<and> PT s' c = PT s c"
    by (auto simp: pubsubUnsubscribeAllChannels_def pubsub_simps intro: addReplies_keeps)
  obtain s2 n2 where 2: "unsub_each (\<lambda>s p. pubsubUnsubscribePattern s c p notify) s 0 (PT s c) = Some (s2, n2)"
    "keeps c s s2" "PT s2 c = []" "CH s2 c = CH s c"
    using unsub_patterns_keeps [OF assms, of c notify 0 "PT s c"] by (auto simp: fold_remove1_self)
  then show "\<exists>s' n. pubsubUnsubscribeAllPatterns s c notify = Some (s', n) \<and> keeps c s s' \<and> PT s' c = [] \<and> CH s' c = CH s c"
    by (auto simp: pubsubUnsubscribeAllPatterns_def pubsub_simps intro: addReplies_keeps)
qed

lemma sub_each_keeps:
  assumes step: "\<And>s x. subs_ok s \<Longrightarrow> keeps c s (fst (f s x)) \<and> CH (fst (f s x)) c @ PT (fst (f s x)) c \<noteq> []"
  shows "subs_ok s \<Longrightarrow> keeps c s (sub_each f s xs) \<and> (xs \<noteq> [] \<longrightarrow> CH (sub_each f s xs) c @ PT (sub_each f s xs) c \<noteq> [])"
proof (induction xs arbitrary: s)
  case Nil
  then show ?case by (simp add: keeps_refl)
next
  case (Cons x xs)
  then have s1: "keeps c s (fst (f s x))" "subs_ok (fst (f s x))" using step [OF Cons.prems, of x] by (auto simp: keeps_def)
  then show ?case using Cons.IH [OF s1(2)] step [OF Cons.prems, of x] by (cases "xs = []") (auto intro: keeps_trans)
qed

lemma pubsubSubscribeChannel_step:
  "subs_ok s \<Longrightarrow> keeps c s (fst (pubsubSubscribeChannel s c x)) \<and>
    CH (fst (pubsubSubscribeChannel s c x)) c @ PT (fst (pubsubSubscribeChannel s c x)) c \<noteq> []"
  by (auto simp: subscribe_channel_keeps split: if_splits)

lemma pubsubSubscribePattern_step:
  "subs_ok s \<Longrightarrow> keeps c s (fst (pubsubSubscribePattern s c x)) \<and>
    CH (fst (pubsubSubscribePattern s c x)) c @ PT (fst (pubsubSubscribePattern s c x)) c \<noteq> []"
  by (auto simp: subscribe_pattern_keeps split: if_splits)

section \<open>Runs\<close>

datatype pubsub_cmd =
    CSubscribe nat "bytes list" | CUnsubscribe nat "bytes list" | CPsubscribe nat "bytes list" | CPunsubscribe nat "bytes list"
  | CPublish nat bytes bytes | CPubsub nat "bytes list" | CDisconnect nat

fun pubsub_exec :: "pubsub \<Rightarrow> pubsub_cmd \<Rightarrow> pubsub option" where
  "pubsub_exec s (CSubscribe c args) = Some (subscribeCommand s c args)"
| "pubsub_exec s (CUnsubscribe c args) = unsubscribeCommand s c args"
| "pubsub_exec s (CPsubscribe c args) = Some (psubscribeCommand s c args)"
| "pubsub_exec s (CPunsubscribe c args) = punsubscribeCommand s c args"
| "pubsub_exec s (CPublish c channel msg) = publishCommand s c channel msg"
| "pubsub_exec s (CPubsub c args) = pubsubCommand s c args"
| "pubsub_exec s (CDisconnect c) = freeClient_pubsub s c"

text \<open>The number of arguments the command table requires.\<close>

fun arity_ok :: "pubsub_cmd \<Rightarrow> bool" where
  "arity_ok (CSubscribe c args) \<longleftrightarrow> args \<noteq> []"
| "arity_ok (CPsubscribe c args) \<longleftrightarrow> args \<noteq> []"
| "arity_ok (CPubsub c args) \<longleftrightarrow> args \<noteq> []"
| "arity_ok _ \<longleftrightarrow> True"

definition pubsub_init :: pubsub where
  "pubsub_init = \<lparr>clients = (\<lambda>_. \<lparr>c_channels = [], c_patterns = [], c_pubsub = False, c_out = []\<rparr>), srv_channels = [], srv_patterns = []\<rparr>"

inductive pubsub_reach :: "pubsub \<Rightarrow> bool" where
  start: "pubsub_reach pubsub_init"
| step: "pubsub_reach s \<Longrightarrow> arity_ok cmd \<Longrightarrow> pubsub_exec s cmd = Some s' \<Longrightarrow> pubsub_reach s'"

lemma same_subs_ok: "CH s' = CH s \<Longrightarrow> PT s' = PT s \<Longrightarrow> srv_channels s' = srv_channels s \<Longrightarrow> srv_patterns s' = srv_patterns s \<Longrightarrow> subs_ok s' = subs_ok s"
  by (simp add: subs_ok_def)

lemma upd_flag_subs: "subs_ok (upd_client c (c_pubsub_update g) s) = subs_ok s"
  by (rule same_subs_ok) (auto simp: pubsub_simps)

lemma keeps_flags_set:
  assumes "flags_ok s" "keeps c s s'" "CH s' c @ PT s' c \<noteq> []"
  shows "flags_ok (upd_client c (c_pubsub_update (\<lambda>_. True)) s')"
  using assms by (auto simp: flags_ok_def keeps_def pubsub_simps)

lemma count_zero: "clientSubscriptionsCount s c = 0 \<longleftrightarrow> CH s c = [] \<and> PT s c = []"
  by (simp add: clientSubscriptionsCount_def flip: of_nat_add)

lemma keeps_flags_clear:
  assumes "flags_ok s" "keeps c s s'" "set (CH s' c @ PT s' c) \<subseteq> set (CH s c @ PT s c)"
  shows "flags_ok (clear_flag c s')"
proof -
  have fl: "c_pubsub (clients s' d) \<longleftrightarrow> CH s d \<noteq> [] \<or> PT s d \<noteq> []" for d using assms(1,2) by (simp add: flags_ok_def keeps_def)
  have other: "d \<noteq> c \<Longrightarrow> clients s' d = clients s d" for d using assms(2) by (simp add: keeps_def)
  have "c_pubsub (clients (clear_flag c s') d) \<longleftrightarrow> CH (clear_flag c s') d \<noteq> [] \<or> PT (clear_flag c s') d \<noteq> []" for d
  proof (cases "d = c")
    case True
    have "CH s c \<noteq> [] \<or> PT s c \<noteq> []" if "CH s' c \<noteq> [] \<or> PT s' c \<noteq> []" using assms(3) that by auto
    then show ?thesis using fl [of c] True by (auto simp: clear_flag_def count_zero pubsub_simps)
  next
    case False
    then show ?thesis using fl [of d] other [of d] by (simp add: clear_flag_def pubsub_simps)
  qed
  then show ?thesis by (simp add: flags_ok_def)
qed

lemma set_fold_remove1: "set (fold remove1 xs ys) \<subseteq> set ys"
proof (induction xs arbitrary: ys)
  case (Cons x xs)
  then show ?case using set_remove1_subset [of x ys] by fastforce
qed simp

lemma publish_channel_same:
  "subs_ok (fst (publish_channel s ch m n cs)) = subs_ok s \<and> flags_ok (fst (publish_channel s ch m n cs)) = flags_ok s"
  by (induction cs arbitrary: s n) (auto simp: subs_ok_def flags_ok_def pubsub_simps)

lemma stringmatch_total: "\<exists>m. stringmatchlen nc (p @ [0]) 0 (int (length p)) s = Some m"
  using stringmatchlen_correct [of p 0 "int (length p)" p nc "[]" s] by (simp add: at_def)

lemma publish_patterns_same:
  "\<exists>s' k. publish_patterns s ch m n ps = Some (s', k) \<and> subs_ok s' = subs_ok s \<and> flags_ok s' = flags_ok s"
proof (induction ps arbitrary: s n)
  case Nil
  then show ?case by simp
next
  case (Cons cp ps)
  obtain c p where cp: "cp = (c, p)" by (cases cp)
  obtain b where b: "stringmatchlen False (p @ [0]) 0 (int (length p)) ch = Some b" using stringmatch_total by blast
  have "subs_ok (addReplies c rs s) = subs_ok s" "flags_ok (addReplies c rs s) = flags_ok s" for rs
    by (auto simp: subs_ok_def flags_ok_def pubsub_simps)
  then show ?case using Cons.IH [of "addReplies c [MultiBulkLen 4, Shared ''pmessage'', Bulk p, Bulk ch, Bulk m] s" "n + 1"] Cons.IH [of s n] b
    by (cases b) (auto simp: cp)
qed

lemma matching_total: "\<exists>chs'. matching_channels pat chs = Some chs'"
proof (induction chs)
  case (Cons ch chs)
  obtain b where "(case pat of None \<Rightarrow> Some True | Some p \<Rightarrow> stringmatchlen False (p @ [0]) 0 (int (length p)) ch) = Some b"
    using stringmatch_total [of False "the pat" ch] by (cases pat) auto
  then show ?case using Cons by auto
qed simp

lemma exec_ok:
  assumes ok: "subs_ok s" "flags_ok s" and ar: "arity_ok cmd"
  shows "\<exists>s'. pubsub_exec s cmd = Some s' \<and> subs_ok s' \<and> flags_ok s'"
proof (cases cmd)
  case (CSubscribe c args)
  let ?f = "\<lambda>s. pubsubSubscribeChannel s c"
  have "keeps c s (sub_each ?f s args)" "CH (sub_each ?f s args) c @ PT (sub_each ?f s args) c \<noteq> []"
    using sub_each_keeps [of c ?f, OF pubsubSubscribeChannel_step ok(1), of args] ar CSubscribe by auto
  then show ?thesis using keeps_flags_set [OF ok(2)] CSubscribe
    by (auto simp: subscribeCommand_def upd_flag_subs keeps_def)
next
  case (CPsubscribe c args)
  let ?f = "\<lambda>s. pubsubSubscribePattern s c"
  have "keeps c s (sub_each ?f s args)" "CH (sub_each ?f s args) c @ PT (sub_each ?f s args) c \<noteq> []"
    using sub_each_keeps [of c ?f, OF pubsubSubscribePattern_step ok(1), of args] ar CPsubscribe by auto
  then show ?thesis using keeps_flags_set [OF ok(2)] CPsubscribe
    by (auto simp: psubscribeCommand_def upd_flag_subs keeps_def)
next
  case (CUnsubscribe c args)
  obtain s1 n where s1: "(if args = [] then pubsubUnsubscribeAllChannels s c True
      else unsub_each (\<lambda>s ch. pubsubUnsubscribeChannel s c ch True) s 0 args) = Some (s1, n)"
    "keeps c s s1" "set (CH s1 c @ PT s1 c) \<subseteq> set (CH s c @ PT s c)"
    using unsub_all_keeps(1) [OF ok(1), of c True] unsub_channels_keeps [OF ok(1), of c True 0 args] le_supI1 [OF set_fold_remove1 [of args "CH s c"], of "set (PT s c)"]
    by (cases "args = []") auto
  then show ?thesis using keeps_flags_clear [OF ok(2) s1(2,3)] CUnsubscribe
    by (simp add: unsubscribeCommand_def) (simp add: clear_flag_def upd_flag_subs keeps_def)
next
  case (CPunsubscribe c args)
  obtain s1 n where s1: "(if args = [] then pubsubUnsubscribeAllPatterns s c True
      else unsub_each (\<lambda>s p. pubsubUnsubscribePattern s c p True) s 0 args) = Some (s1, n)"
    "keeps c s s1" "set (CH s1 c @ PT s1 c) \<subseteq> set (CH s c @ PT s c)"
    using unsub_all_keeps(2) [OF ok(1), of c True] unsub_patterns_keeps [OF ok(1), of c True 0 args] le_supI2 [OF set_fold_remove1 [of args "PT s c"], of "set (CH s c)"]
    by (cases "args = []") auto
  then show ?thesis using keeps_flags_clear [OF ok(2) s1(2,3)] CPunsubscribe
    by (simp add: punsubscribeCommand_def) (simp add: clear_flag_def upd_flag_subs keeps_def)
next
  case (CPublish c channel msg)
  obtain s1 n where s1: "(case map_of (srv_channels s) channel of None \<Rightarrow> (s, 0) | Some l \<Rightarrow> publish_channel s channel msg 0 l) = (s1, n)"
    by (cases "case map_of (srv_channels s) channel of None \<Rightarrow> (s, 0) | Some l \<Rightarrow> publish_channel s channel msg 0 l") auto
  then have ok1: "subs_ok s1" "flags_ok s1"
    using ok publish_channel_same [of s channel msg 0] by (auto split: option.splits) (metis fst_conv)+
  obtain s2 k where "publish_patterns s1 channel msg n (srv_patterns s1) = Some (s2, k)" "subs_ok s2" "flags_ok s2"
    using publish_patterns_same [of s1 channel msg n "srv_patterns s1"] ok1 by auto
  then show ?thesis using s1 ok1 CPublish
    by (auto simp: publishCommand_def pubsubPublishMessage_def subs_ok_def flags_ok_def pubsub_simps)
next
  case (CPubsub c args)
  have "subs_ok (addReplies c rs s)" "flags_ok (addReplies c rs s)" for rs
    using ok by (auto simp: subs_ok_def flags_ok_def pubsub_simps)
  moreover obtain sub rest where "args = sub # rest" using ar CPubsub by (cases args) auto
  ultimately show ?thesis
    using CPubsub matching_total [of "if rest = [] then None else Some (hd rest)" "map fst (srv_channels s)"]
    by (auto simp: pubsubCommand_def simp del: matching_channels.simps)
next
  case (CDisconnect c)
  obtain s1 n1 where 1: "pubsubUnsubscribeAllChannels s c False = Some (s1, n1)" "keeps c s s1" "CH s1 c = []"
    using unsub_all_keeps(1) [OF ok(1)] by blast
  then have ok1: "subs_ok s1" by (simp add: keeps_def)
  obtain s2 n2 where 2: "pubsubUnsubscribeAllPatterns s1 c False = Some (s2, n2)" "keeps c s1 s2" "PT s2 c = []" "CH s2 c = []"
    using unsub_all_keeps(2) [OF ok1, of c False] 1(3) by auto
  let ?s = "upd_client c (\<lambda>_. \<lparr>c_channels = [], c_patterns = [], c_pubsub = False, c_out = []\<rparr>) s2"
  have "subs_ok ?s = subs_ok s2" by (rule same_subs_ok) (use 2 in \<open>auto simp: pubsub_simps\<close>)
  moreover have "keeps c s s2" using 1(2) 2(2) by (rule keeps_trans)
  then have "flags_ok ?s" using ok(2) by (auto simp: flags_ok_def keeps_def pubsub_simps)
  ultimately show ?thesis using 1 2 CDisconnect by (simp add: freeClient_pubsub_def keeps_def)
qed

lemma reach_ok: "pubsub_reach s \<Longrightarrow> subs_ok s \<and> flags_ok s"
proof (induction rule: pubsub_reach.induct)
  case start
  then show ?case by (simp add: pubsub_init_def subs_ok_def flags_ok_def chan_ok_def pat_ok_def)
next
  case (step s cmd s')
  then show ?case using exec_ok [of s cmd] by auto
qed

text \<open>
  Property C14. In every state reached by SUBSCRIBE, UNSUBSCRIBE, PSUBSCRIBE, PUNSUBSCRIBE, PUBLISH and PUBSUB commands
  and disconnections, the client side and the server side of the subscriptions are inverse to each other,
  without duplicates and without channels that have no subscriber; a client has the pubsub flag
  exactly when it has a subscription; and the next command never fails an assertion.
\<close>

theorem pubsub_invariant:
  assumes "pubsub_reach s" "arity_ok cmd"
  shows "(\<forall>c ch. ch \<in> set (c_channels (clients s c)) \<longleftrightarrow> (\<exists>l. map_of (srv_channels s) ch = Some l \<and> c \<in> set l)) \<and>
    (\<forall>c p. p \<in> set (c_patterns (clients s c)) \<longleftrightarrow> (c, p) \<in> set (srv_patterns s)) \<and>
    (\<forall>ch l. map_of (srv_channels s) ch = Some l \<longrightarrow> l \<noteq> [] \<and> distinct l) \<and> distinct (srv_patterns s) \<and>
    (\<forall>c. c_pubsub (clients s c) \<longleftrightarrow> c_channels (clients s c) \<noteq> [] \<or> c_patterns (clients s c) \<noteq> []) \<and>
    (\<exists>s'. pubsub_exec s cmd = Some s')"
proof -
  have ok: "subs_ok s" "flags_ok s" using reach_ok [OF assms(1)] by auto
  then show ?thesis using exec_ok [OF ok assms(2)] unfolding subs_ok_def chan_ok_def pat_ok_def flags_ok_def by blast
qed

theorem pubsub_invariant_witness:
  "\<exists>s'. pubsub_exec (subscribeCommand pubsub_init 7 [[65], [66]]) (CUnsubscribe 7 []) = Some s'"
proof -
  have "pubsub_reach (subscribeCommand pubsub_init 7 [[65], [66]])"
    by (rule pubsub_reach.step [OF pubsub_reach.start, of "CSubscribe 7 [[65], [66]]"]) simp_all
  from pubsub_invariant [OF this, of "CUnsubscribe 7 []"] show ?thesis by simp
qed

section \<open>Delivery\<close>

text \<open>What a client receives for a message: one message for its subscription to the channel, then one for each
  of its matching patterns, in the order of subscription.\<close>

definition matches :: "bytes \<Rightarrow> bytes \<Rightarrow> bool" where
  "matches p ch \<longleftrightarrow> (if ch = [] then p = [] else glob False (parse_glob p) ch)"

definition delivered :: "pubsub \<Rightarrow> bytes \<Rightarrow> bytes \<Rightarrow> nat \<Rightarrow> reply list" where
  "delivered s ch msg c =
     (if ch \<in> set (c_channels (clients s c)) then [MultiBulkLen 3, Shared ''message'', Bulk ch, Bulk msg] else []) @
     concat (map (\<lambda>(d, p). [MultiBulkLen 4, Shared ''pmessage'', Bulk p, Bulk ch, Bulk msg])
       (filter (\<lambda>(d, p). d = c \<and> matches p ch) (srv_patterns s)))"

lemma publish_channel_out:
  "distinct cs \<Longrightarrow> publish_channel s ch m n cs = (s', k) \<Longrightarrow> k = n + int (length cs) \<and> srv_patterns s' = srv_patterns s \<and>
   c_out (clients s' c) = c_out (clients s c) @ (if c \<in> set cs then [MultiBulkLen 3, Shared ''message'', Bulk ch, Bulk m] else [])"
proof (induction cs arbitrary: s n)
  case Nil
  then show ?case by simp
next
  case (Cons d cs)
  let ?s = "addReplies d [MultiBulkLen 3, Shared ''message'', Bulk ch, Bulk m] s"
  have "publish_channel ?s ch m (n + 1) cs = (s', k)" using Cons.prems by simp
  then show ?case using Cons.IH [of ?s "n + 1"] Cons.prems(1) by (auto simp: pubsub_simps)
qed

lemma publish_patterns_out:
  "\<exists>s'. publish_patterns s ch m n ps = Some (s', n + int (length (filter (\<lambda>(d, p). matches p ch) ps))) \<and>
   (\<forall>c. c_out (clients s' c) = c_out (clients s c) @ concat (map (\<lambda>(d, p). [MultiBulkLen 4, Shared ''pmessage'', Bulk p, Bulk ch, Bulk m])
       (filter (\<lambda>(d, p). d = c \<and> matches p ch) ps)))"
proof (induction ps arbitrary: s n)
  case Nil
  then show ?case by simp
next
  case (Cons dp ps)
  obtain d p where dp: "dp = (d, p)" by (cases dp)
  have m: "stringmatchlen False (p @ [0]) 0 (int (length p)) ch = Some (matches p ch)"
    using stringmatchlen_correct [of p 0 "int (length p)" p False "[]" ch] by (simp add: at_def matches_def)
  let ?s = "addReplies d [MultiBulkLen 4, Shared ''pmessage'', Bulk p, Bulk ch, Bulk m] s"
  show ?case
  proof (cases "matches p ch")
    case True
    then show ?thesis using Cons.IH [of ?s "n + 1"] m by (auto simp: dp pubsub_simps)
  next
    case False
    then show ?thesis using Cons.IH [of s n] m by (simp add: dp)
  qed
qed

text \<open>
  Property C37. A published message reaches exactly the clients that are subscribed to its channel, once each, and the
  clients with matching patterns, once per pattern and after the former; every client gets nothing
  else, and the returned number is the number of deliveries.
\<close>

theorem publish_delivers:
  assumes "pubsub_reach s"
  shows "\<exists>s' n. pubsubPublishMessage s ch msg = Some (s', n) \<and>
    (\<forall>c. c_out (clients s' c) = c_out (clients s c) @ delivered s ch msg c) \<and>
    n = int (card {c. ch \<in> set (c_channels (clients s c))}) + int (length (filter (\<lambda>(c, p). matches p ch) (srv_patterns s)))"
proof -
  define l where "l = (case map_of (srv_channels s) ch of None \<Rightarrow> [] | Some l \<Rightarrow> l)"
  obtain s1 k where s1: "publish_channel s ch msg 0 l = (s1, k)" by (cases "publish_channel s ch msg 0 l")
  have "subs_ok s" using reach_ok [OF assms] by simp
  then have l: "distinct l" "set l = {c. ch \<in> set (c_channels (clients s c))}"
    unfolding subs_ok_def chan_ok_def l_def by (auto split: option.splits)
  note out = publish_channel_out [OF l(1) s1]
  have "(case map_of (srv_channels s) ch of None \<Rightarrow> (s, 0) | Some l \<Rightarrow> publish_channel s ch msg 0 l) = (s1, k)"
    using s1 by (auto simp: l_def split: option.splits)
  moreover have "k = int (card {c. ch \<in> set (c_channels (clients s c))})" using out l distinct_card [OF l(1)] by simp
  moreover obtain s2 where "publish_patterns s1 ch msg k (srv_patterns s) =
      Some (s2, k + int (length (filter (\<lambda>(d, p). matches p ch) (srv_patterns s))))"
    "\<forall>c. c_out (clients s2 c) = c_out (clients s1 c) @ concat (map (\<lambda>(d, p). [MultiBulkLen 4, Shared ''pmessage'', Bulk p, Bulk ch, Bulk msg])
       (filter (\<lambda>(d, p). d = c \<and> matches p ch) (srv_patterns s)))"
    using publish_patterns_out [of s1 ch msg k "srv_patterns s"] by blast
  ultimately show ?thesis
    using out l(2) by (intro exI [of _ s2]) (auto simp: pubsubPublishMessage_def delivered_def)
qed

theorem publish_delivers_witness:
  "\<exists>s' n. pubsubPublishMessage (subscribeCommand pubsub_init 7 [[65]]) [65] [1] = Some (s', n) \<and> n = 1"
proof -
  have r: "pubsub_reach (subscribeCommand pubsub_init 7 [[65]])"
    by (rule pubsub_reach.step [OF pubsub_reach.start, of "CSubscribe 7 [[65]]"]) simp_all
  have "{c. [65 :: u8] \<in> set (c_channels (clients (subscribeCommand pubsub_init 7 [[65]]) c))} = {7}"
    "srv_patterns (subscribeCommand pubsub_init 7 [[65]]) = []"
    by (auto simp: subscribeCommand_def pubsubSubscribeChannel_def pubsub_init_def pubsub_simps Let_def)
  then show ?thesis using publish_delivers [OF r, of "[65]" "[1]"] by auto
qed

end
