(* ===== verification/Resp.thy ===== *)
theory Resp
  imports Util_Num Sds_Text Reply
begin

text \<open>
  The parser of client requests (networking.c): \<^verbatim>\<open>readQueryFromClient\<close> appends what a socket read returned to the
  query buffer, and \<^verbatim>\<open>processInputBuffer\<close> consumes inline and multibulk requests from it, keeping its
  state in the client structure between calls. The query buffer is the content of its dynamic
  string (theory Sds shows what the string operations do to the content). Executing a command is
  recording its arguments; what commands do to the connection itself is outside this component.
  A failed assertion or a write outside the argument vector is \<^term>\<open>None\<close>.
\<close>

section \<open>State\<close>

definition PROTO_INLINE_MAX_SIZE :: nat where "PROTO_INLINE_MAX_SIZE = 1024 * 64"
definition PROTO_MBULK_BIG_ARG :: nat where "PROTO_MBULK_BIG_ARG = 1024 * 32"
definition PROTO_REQ_INLINE :: nat where "PROTO_REQ_INLINE = 1"
definition PROTO_REQ_MULTIBULK :: nat where "PROTO_REQ_MULTIBULK = 2"

record query_conf =
  proto_max_bulk_len :: int
  client_max_querybuf_len :: nat
  unixtime :: int
  paused :: bool
  lua_timedout :: bool

text \<open>\<open>forwarded\<close> has the bytes passed on to the replicas of this server. \<open>argv_size\<close> is the number of entries \<^verbatim>\<open>argv\<close> has memory for; \<^verbatim>\<open>argc\<close> is the length of \<open>argv\<close>.\<close>

record conn =
  querybuf :: bytes
  qb_pos :: nat
  reqtype :: nat
  multibulklen :: int
  bulklen :: int
  argv :: "bytes list"
  argv_size :: nat
  is_slave :: bool
  is_master :: bool
  is_blocked :: bool
  close_after_reply :: bool
  in_multi :: bool
  repl_ack_time :: int
  lastinteraction :: int
  reploff :: int
  read_reploff :: int
  pending_querybuf :: bytes
  forwarded :: bytes
  conn_out :: "reply list"
  executed :: "bytes list list"

definition addReplyError :: "string \<Rightarrow> conn \<Rightarrow> conn" where
  "addReplyError msg c = c\<lparr>conn_out := conn_out c @ [Error msg]\<rparr>"

text \<open>Apart from logging.\<close>

definition setProtocolError :: "conn \<Rightarrow> conn" where
  "setProtocolError c = c\<lparr>close_after_reply := True\<rparr>"

definition protocol_error :: "string \<Rightarrow> conn \<Rightarrow> conn" where
  "protocol_error msg c = setProtocolError (addReplyError msg c)"

text \<open>The text that \<^verbatim>\<open>addReplyErrorFormat\<close> gives for a wrong first byte: line ends become spaces, and a null byte ends the text.\<close>

definition got_message :: "u8 \<Rightarrow> string" where
  "got_message b = ''Protocol error: expected '$', got '' @ [CHR 0x27] @
     (if b = 0 then [] else [if b = 0x0D \<or> b = 0x0A then CHR '' '' else char_of (unat b), CHR 0x27])"

text \<open>\<^verbatim>\<open>strchr(querybuf + pos, ch)\<close> as an index: the search ends at the first null byte.\<close>

definition strchr_at :: "bytes \<Rightarrow> nat \<Rightarrow> u8 \<Rightarrow> nat option" where
  "strchr_at buf pos ch =
     (let i = pos + length (takeWhile (\<lambda>b. b \<noteq> 0 \<and> b \<noteq> ch) (drop pos buf)) in
      if i < length buf \<and> buf ! i = ch then Some i else None)"

section \<open>Inline requests\<close>

text \<open>The arguments of a line; the inner \<^term>\<open>None\<close> is an unbalanced quote.\<close>

definition inline_args :: "bytes \<Rightarrow> bytes list option option" where
  "inline_args line =
     do {
       r \<leftarrow> sdssplitargs (line @ [0]);
       case r of None \<Rightarrow> Some None
       | Some toks \<Rightarrow> map_option Some (those (map sds_content toks))
     }"

definition processInlineBuffer :: "query_conf \<Rightarrow> conn \<Rightarrow> (conn \<times> bool) option" where
  "processInlineBuffer srv c =
     (case strchr_at (querybuf c) (qb_pos c) 0x0A of
        None \<Rightarrow> Some (if length (querybuf c) - qb_pos c > PROTO_INLINE_MAX_SIZE
                      then protocol_error ''Protocol error: too big inline request'' c else c, False)
      | Some nl \<Rightarrow>
        let (newline, linefeed_chars) =
              (if nl \<noteq> qb_pos c \<and> querybuf c ! (nl - 1) = 0x0D then (nl - 1, 2) else (nl, 1));
            querylen = newline - qb_pos c in
        do {
          r \<leftarrow> inline_args (take querylen (drop (qb_pos c) (querybuf c)));
          case r of
            None \<Rightarrow> Some (protocol_error ''Protocol error: unbalanced quotes in request'' c, False)
          | Some args \<Rightarrow>
            let c1 = (if querylen = 0 \<and> is_slave c then c\<lparr>repl_ack_time := unixtime srv\<rparr> else c);
                c2 = c1\<lparr>qb_pos := qb_pos c1 + querylen + linefeed_chars\<rparr>;
                c3 = (if args \<noteq> [] then c2\<lparr>argv_size := length args\<rparr> else c2) in
            Some (c3\<lparr>argv := args\<rparr>, True)
        })"

section \<open>Multibulk requests\<close>

text \<open>The part that reads the number of arguments. \<open>Inl\<close> is a return, with its result, \<open>Inr\<close> goes on.\<close>

definition mbulk_header :: "conn \<Rightarrow> ((conn \<times> bool) + conn) option" where
  "mbulk_header c =
     (if argv c \<noteq> [] then None
      else case strchr_at (querybuf c) (qb_pos c) 0x0D of
        None \<Rightarrow> Some (Inl (if length (querybuf c) - qb_pos c > PROTO_INLINE_MAX_SIZE
                      then protocol_error ''Protocol error: too big mbulk count string'' c else c, False))
      | Some newline \<Rightarrow>
        if int newline - int (qb_pos c) > int (length (querybuf c)) - int (qb_pos c) - 2 then Some (Inl (c, False))
        else if querybuf c ! qb_pos c \<noteq> 0x2A then None
        else
          let ll = string2ll (take (newline - (qb_pos c + 1)) (drop (qb_pos c + 1) (querybuf c))) in
          if ll = None \<or> the ll > 1024 * 1024
          then Some (Inl (protocol_error ''Protocol error: invalid multibulk length'' c, False))
          else
            let c1 = c\<lparr>qb_pos := newline + 2\<rparr> in
            if the ll \<le> 0 then Some (Inl (c1, True))
            else Some (Inr (c1\<lparr>multibulklen := the ll, argv_size := nat (the ll)\<rparr>)))"

text \<open>The part of the loop that reads the length of an argument: \<open>Inl (Some c)\<close> is an error return, \<open>Inl None\<close>
  leaves the loop for lack of data.\<close>

definition bulk_header :: "query_conf \<Rightarrow> conn \<Rightarrow> conn option + conn" where
  "bulk_header srv c =
     (case strchr_at (querybuf c) (qb_pos c) 0x0D of
        None \<Rightarrow> if length (querybuf c) - qb_pos c > PROTO_INLINE_MAX_SIZE
                then Inl (Some (protocol_error ''Protocol error: too big bulk count string'' c)) else Inl None
      | Some newline \<Rightarrow>
        if int newline - int (qb_pos c) > int (length (querybuf c)) - int (qb_pos c) - 2 then Inl None
        else if querybuf c ! qb_pos c \<noteq> 0x24
        then Inl (Some (protocol_error (got_message (querybuf c ! qb_pos c)) c))
        else
          let ll = string2ll (take (newline - (qb_pos c + 1)) (drop (qb_pos c + 1) (querybuf c))) in
          if ll = None \<or> the ll < 0 \<or> the ll > proto_max_bulk_len srv
          then Inl (Some (protocol_error ''Protocol error: invalid bulk length'' c))
          else
            let c1 = c\<lparr>qb_pos := newline + 2\<rparr>;
                c2 = (if the ll \<ge> int PROTO_MBULK_BIG_ARG \<and> int (length (querybuf c1) - qb_pos c1) \<le> the ll + 2
                      then c1\<lparr>querybuf := str_range (querybuf c1) (int (qb_pos c1)) (- 1), qb_pos := 0\<rparr> else c1) in
            Inr (c2\<lparr>bulklen := the ll\<rparr>))"

text \<open>The part that takes the argument out of the buffer, by giving up the buffer when it holds nothing else.\<close>

definition bulk_take :: "conn \<Rightarrow> conn option" where
  "bulk_take c =
     (if length (argv c) < argv_size c then
        let c1 = (if qb_pos c = 0 \<and> bulklen c \<ge> int PROTO_MBULK_BIG_ARG \<and> int (length (querybuf c)) = bulklen c + 2
                  then c\<lparr>argv := argv c @ [take (length (querybuf c) - 2) (querybuf c)], querybuf := []\<rparr>
                  else c\<lparr>argv := argv c @ [take (nat (bulklen c)) (drop (qb_pos c) (querybuf c))],
                         qb_pos := qb_pos c + nat (bulklen c) + 2\<rparr>) in
        Some (c1\<lparr>bulklen := - 1, multibulklen := multibulklen c - 1\<rparr>)
      else None)"

lemma bulk_header_mbl: "bulk_header srv c = Inr c1 \<Longrightarrow> multibulklen c1 = multibulklen c"
  by (auto simp: bulk_header_def Let_def split: option.splits if_splits)

lemma bulk_take_mbl: "bulk_take c = Some c1 \<Longrightarrow> multibulklen c1 = multibulklen c - 1"
  by (auto simp: bulk_take_def Let_def split: if_splits)

function bulk_loop :: "query_conf \<Rightarrow> conn \<Rightarrow> (conn \<times> bool) option" where
  "bulk_loop srv c =
     (if multibulklen c > 0 then
        case (if bulklen c = - 1 then bulk_header srv c else Inr c) of
          Inl (Some c') \<Rightarrow> Some (c', False)
        | Inl None \<Rightarrow> Some (c, False)
        | Inr c1 \<Rightarrow>
          if int (length (querybuf c1) - qb_pos c1) < bulklen c1 + 2 then Some (c1, False)
          else (case bulk_take c1 of None \<Rightarrow> None | Some c2 \<Rightarrow> bulk_loop srv c2)
      else Some (c, multibulklen c = 0))"
  by pat_completeness auto
termination
  by (relation "measure (\<lambda>(srv, c). nat (multibulklen c))") (auto dest!: bulk_header_mbl bulk_take_mbl split: if_splits)

declare bulk_loop.simps [simp del]

definition processMultibulkBuffer :: "query_conf \<Rightarrow> conn \<Rightarrow> (conn \<times> bool) option" where
  "processMultibulkBuffer srv c =
     do {
       r \<leftarrow> (if multibulklen c = 0 then mbulk_header c else Some (Inr c));
       case r of
         Inl res \<Rightarrow> Some res
       | Inr c1 \<Rightarrow> if multibulklen c1 > 0 then bulk_loop srv c1 else None
     }"

section \<open>The input loop\<close>

definition resetClient :: "conn \<Rightarrow> conn" where
  "resetClient c = c\<lparr>argv := [], reqtype := 0, multibulklen := 0, bulklen := - 1\<rparr>"

definition run_command :: "conn \<Rightarrow> conn" where
  "run_command c =
     (let c1 = c\<lparr>executed := executed c @ [argv c]\<rparr> in
      if is_master c1 \<and> \<not> in_multi c1
      then c1\<lparr>reploff := read_reploff c1 - int (length (querybuf c1)) + int (qb_pos c1)\<rparr> else c1)"

text \<open>The request type is set from the first byte of a request; the request is then parsed by its type.\<close>

definition request_type :: "conn \<Rightarrow> conn" where
  "request_type c =
     (if reqtype c = 0
      then c\<lparr>reqtype := if querybuf c ! qb_pos c = 0x2A then PROTO_REQ_MULTIBULK else PROTO_REQ_INLINE\<rparr> else c)"

definition parse_request :: "query_conf \<Rightarrow> conn \<Rightarrow> (conn \<times> bool) option" where
  "parse_request srv c =
     (if reqtype c = PROTO_REQ_INLINE then processInlineBuffer srv c
      else if reqtype c = PROTO_REQ_MULTIBULK then processMultibulkBuffer srv c
      else None)"

text \<open>The conditions under which the loop of \<^verbatim>\<open>processInputBuffer\<close> leaves the buffer alone.\<close>

definition input_stopped :: "query_conf \<Rightarrow> conn \<Rightarrow> bool" where
  "input_stopped srv c \<longleftrightarrow>
     \<not> is_slave c \<and> paused srv \<or> is_blocked c \<or> lua_timedout srv \<and> is_master c \<or> close_after_reply c"

text \<open>One iteration of the loop: \<open>Inl\<close> leaves it.\<close>

definition input_step :: "query_conf \<Rightarrow> conn \<Rightarrow> (conn + conn) option" where
  "input_step srv c =
     (if input_stopped srv c then Some (Inl c)
      else
        do {
          (c1, ok) \<leftarrow> parse_request srv (request_type c);
          Some (if \<not> ok then Inl c1
                else if argv c1 = [] then Inr (resetClient c1)
                else Inr (resetClient (run_command c1)))
        })"

abbreviation left :: "conn \<Rightarrow> nat" where
  "left c \<equiv> length (querybuf c) - qb_pos c"

lemma strchr_range: "strchr_at buf pos ch = Some i \<Longrightarrow> pos \<le> i \<and> i < length buf"
  by (auto simp: strchr_at_def Let_def split: if_splits)

lemma str_range_from: "pos < length str \<Longrightarrow> str_range str (int pos) (- 1) = drop pos str"
  by (auto simp: str_range_def Let_def)

lemma str_range_end: "length str \<le> pos \<Longrightarrow> str_range str (int pos) (- 1) = []"
  by (auto simp: str_range_def Let_def)

lemma length_str_range_from: "length (str_range str (int pos) (- 1)) = length str - pos"
  by (cases "pos < length str") (simp_all add: str_range_from str_range_end)

lemma str_range_from2: "str_range str (2 + int i) (- 1) = drop (i + 2) str"
  using str_range_from [of "i + 2" str] str_range_end [of str "i + 2"] by (cases "i + 2 < length str") (simp_all add: ac_simps)

lemma bulk_header_left: "bulk_header srv c = Inr c1 \<Longrightarrow> left c1 \<le> left c \<and> 0 \<le> bulklen c1"
  by (auto simp: bulk_header_def Let_def str_range_from2 dest!: strchr_range split: option.splits if_splits)

lemma bulk_take_left:
  "bulk_take c = Some c1 \<Longrightarrow> \<not> int (left c) < bulklen c + 2 \<Longrightarrow> 0 \<le> bulklen c \<or> 0 < left c \<Longrightarrow> left c1 < left c"
  by (auto simp: bulk_take_def Let_def split: if_splits)

text \<open>The cases of one iteration of the loop over the arguments.\<close>

lemma bulk_loop_cases:
  assumes "bulk_loop srv c = r" "0 < multibulklen c"
  obtains (error) c' where "bulklen c = - 1" "bulk_header srv c = Inl (Some c')" "r = Some (c', False)"
    | (wait) "bulklen c = - 1" "bulk_header srv c = Inl None" "r = Some (c, False)"
    | (bulk) c1 where "(if bulklen c = - 1 then bulk_header srv c else Inr c) = Inr c1" "int (left c1) < bulklen c1 + 2" "r = Some (c1, False)"
    | (take) c1 where "(if bulklen c = - 1 then bulk_header srv c else Inr c) = Inr c1" "\<not> int (left c1) < bulklen c1 + 2"
        "r = (case bulk_take c1 of None \<Rightarrow> None | Some c2 \<Rightarrow> bulk_loop srv c2)"
  using assms by (subst (asm) bulk_loop.simps) (auto split: sum.splits option.splits if_splits)

lemma bulk_loop_left:
  "bulk_loop srv c = Some (c', ok) \<Longrightarrow> left c' \<le> left c \<and> (ok \<longrightarrow> 0 < multibulklen c \<longrightarrow> 0 < left c \<longrightarrow> left c' < left c)"
proof (induction "nat (multibulklen c)" arbitrary: c rule: less_induct)
  case less
  show ?case
  proof (cases "0 < multibulklen c")
    case False
    then show ?thesis using less.prems by (subst (asm) bulk_loop.simps) auto
  next
    case pos: True
    have hd: "left c1 \<le> left c \<and> multibulklen c1 = multibulklen c \<and> (0 \<le> bulklen c1 \<or> c1 = c)"
      if "(if bulklen c = - 1 then bulk_header srv c else Inr c) = Inr c1" for c1
      using that bulk_header_left [of srv c c1] bulk_header_mbl [of srv c c1] by (auto split: if_splits)
    from less.prems pos show ?thesis
    proof (cases rule: bulk_loop_cases)
      case (error c'')
      then show ?thesis
        by (auto simp: bulk_header_def Let_def protocol_error_def setProtocolError_def addReplyError_def split: option.splits if_splits)
    next
      case wait
      then show ?thesis by simp
    next
      case (bulk c1)
      then show ?thesis using hd by auto
    next
      case (take c1)
      then obtain c2 where c2: "bulk_take c1 = Some c2" "bulk_loop srv c2 = Some (c', ok)" by (auto split: option.splits)
      have "nat (multibulklen c2) < nat (multibulklen c)" using bulk_take_mbl [OF c2(1)] hd [OF take(1)] pos by simp
      from less.hyps [OF this c2(2)] have "left c' \<le> left c2" by blast
      moreover have "left c2 < left c" if "0 < left c"
        using bulk_take_left [OF c2(1) take(2)] hd [OF take(1)] that by auto
      moreover have "left c2 \<le> left c1" using c2(1) by (auto simp: bulk_take_def Let_def split: if_splits)
      ultimately show ?thesis using hd [OF take(1)] by auto
    qed
  qed
qed

lemma inline_left:
  "processInlineBuffer srv c = Some (c', True) \<Longrightarrow> qb_pos c < length (querybuf c) \<Longrightarrow> left c' < left c"
  by (auto simp: processInlineBuffer_def Let_def split: option.splits if_splits bind_splits dest!: strchr_range)

lemma mbulk_header_left:
  "mbulk_header c = Some (Inl (c', True)) \<Longrightarrow> qb_pos c < length (querybuf c) \<Longrightarrow> left c' < left c"
  "mbulk_header c = Some (Inr c1) \<Longrightarrow> left c1 \<le> left c"
  by (auto simp: mbulk_header_def Let_def split: option.splits if_splits dest!: strchr_range)

lemma multibulk_left:
  assumes "processMultibulkBuffer srv c = Some (c', True)" "qb_pos c < length (querybuf c)"
  shows "left c' < left c"
proof -
  obtain r where r: "(if multibulklen c = 0 then mbulk_header c else Some (Inr c)) = Some r"
    "(case r of Inl res \<Rightarrow> Some res | Inr c1 \<Rightarrow> if multibulklen c1 > 0 then bulk_loop srv c1 else None) = Some (c', True)"
    using assms(1) by (auto simp: processMultibulkBuffer_def split: bind_splits)
  show ?thesis
  proof (cases r)
    case (Inl res)
    then show ?thesis using r mbulk_header_left(1) [of c c'] assms(2) by (auto split: if_splits)
  next
    case (Inr c1)
    then have "left c1 \<le> left c" using r(1) mbulk_header_left(2) [of c c1] by (auto split: if_splits)
    moreover have "left c' \<le> left c1" "0 < left c1 \<longrightarrow> left c' < left c1"
      using r(2) Inr bulk_loop_left [of srv c1 c' True] by (auto split: if_splits)
    moreover have "0 < left c" using assms(2) by simp
    ultimately show ?thesis by linarith
  qed
qed

lemma left_simps [simp]:
  "left (resetClient c) = left c" "left (run_command c) = left c" "querybuf (resetClient c) = querybuf c" "querybuf (run_command c) = querybuf c"
  "qb_pos (resetClient c) = qb_pos c" "qb_pos (run_command c) = qb_pos c"
  by (simp_all add: resetClient_def run_command_def Let_def)

lemma request_type_simps [simp]: "querybuf (request_type c) = querybuf c" "qb_pos (request_type c) = qb_pos c"
  by (simp_all add: request_type_def)

lemma parse_request_left:
  "parse_request srv c = Some (c', True) \<Longrightarrow> qb_pos c < length (querybuf c) \<Longrightarrow> left c' < left c"
  using inline_left [of srv c c'] multibulk_left [of srv c c'] by (simp add: parse_request_def split: if_splits)

lemma input_step_left:
  assumes "input_step srv c = Some (Inr c')" "qb_pos c < length (querybuf c)"
  shows "left c' < left c"
proof -
  obtain c1 where c1: "parse_request srv (request_type c) = Some (c1, True)" "left c' = left c1"
    using assms(1) by (auto simp: input_step_def split: if_splits bind_splits prod.splits)
  then show ?thesis using parse_request_left [OF c1(1)] assms(2) by simp
qed

function input_loop :: "query_conf \<Rightarrow> conn \<Rightarrow> conn option" where
  "input_loop srv c =
     (if qb_pos c < length (querybuf c) then
        case input_step srv c of
          None \<Rightarrow> None
        | Some (Inl c') \<Rightarrow> Some c'
        | Some (Inr c') \<Rightarrow> input_loop srv c'
      else Some c)"
  by pat_completeness auto
termination by (relation "measure (\<lambda>(srv, c). left c)") (auto dest: input_step_left)

declare input_loop.simps [simp del]

definition processInputBuffer :: "query_conf \<Rightarrow> conn \<Rightarrow> conn option" where
  "processInputBuffer srv c =
     do {
       c1 \<leftarrow> input_loop srv c;
       Some (if qb_pos c1 \<noteq> 0 then c1\<lparr>querybuf := str_range (querybuf c1) (int (qb_pos c1)) (- 1), qb_pos := 0\<rparr> else c1)
     }"

text \<open>On the connection with a master, the part of the stream that was executed is passed on to the replicas of this server.\<close>

definition processInputBufferAndReplicate :: "query_conf \<Rightarrow> conn \<Rightarrow> conn option" where
  "processInputBufferAndReplicate srv c =
     (if \<not> is_master c then processInputBuffer srv c
      else do {
        c1 \<leftarrow> processInputBuffer srv c;
        let applied = reploff c1 - reploff c;
        if applied = 0 then Some c1
        else if 0 \<le> applied \<and> applied \<le> int (length (pending_querybuf c1))
        then Some (c1\<lparr>forwarded := forwarded c1 @ take (nat applied) (pending_querybuf c1),
                       pending_querybuf := str_range (pending_querybuf c1) applied (- 1)\<rparr>)
        else None
      })"

section \<open>Reading\<close>

datatype read_result = ReadAgain | ReadError | ReadEof | ReadData bytes

text \<open>The inner \<^term>\<open>None\<close> is a closed connection.\<close>

definition readQueryFromClient :: "query_conf \<Rightarrow> conn \<Rightarrow> read_result \<Rightarrow> conn option option" where
  "readQueryFromClient srv c r =
     (case r of
        ReadAgain \<Rightarrow> Some (Some c)
      | ReadError \<Rightarrow> Some None
      | ReadEof \<Rightarrow> Some None
      | ReadData bs \<Rightarrow>
        let c0 = (if is_master c then c\<lparr>pending_querybuf := pending_querybuf c @ bs\<rparr> else c);
            c1 = c0\<lparr>querybuf := querybuf c0 @ bs, lastinteraction := unixtime srv\<rparr>;
            c2 = (if is_master c1 then c1\<lparr>read_reploff := read_reploff c1 + int (length bs)\<rparr> else c1) in
        if length (querybuf c2) > client_max_querybuf_len srv then Some None
        else map_option Some (processInputBufferAndReplicate srv c2))"

section \<open>Safety for arbitrary input\<close>

definition buf_ok :: "query_conf \<Rightarrow> conn \<Rightarrow> bool" where
  "buf_ok srv c \<longleftrightarrow> qb_pos c \<le> length (querybuf c) \<and> length (querybuf c) \<le> client_max_querybuf_len srv"

definition conn_ok :: "query_conf \<Rightarrow> conn \<Rightarrow> bool" where
  "conn_ok srv c \<longleftrightarrow> buf_ok srv c \<and> reqtype c \<le> 2 \<and> 0 \<le> multibulklen c \<and>
     (multibulklen c = 0 \<longrightarrow> argv c = [] \<and> bulklen c = - 1) \<and>
     (0 < multibulklen c \<longrightarrow> reqtype c = 2 \<and> int (length (argv c)) + multibulklen c = int (argv_size c)) \<and>
     (bulklen c = - 1 \<or> 0 \<le> bulklen c \<and> bulklen c \<le> proto_max_bulk_len srv) \<and>
     (reqtype c = 2 \<and> multibulklen c = 0 \<longrightarrow> qb_pos c < length (querybuf c) \<and> querybuf c ! qb_pos c = 0x2A)"

lemma protocol_error_simps [simp]:
  "querybuf (protocol_error m c) = querybuf c" "qb_pos (protocol_error m c) = qb_pos c" "reqtype (protocol_error m c) = reqtype c"
  "multibulklen (protocol_error m c) = multibulklen c" "bulklen (protocol_error m c) = bulklen c" "argv (protocol_error m c) = argv c"
  "argv_size (protocol_error m c) = argv_size c" "executed (protocol_error m c) = executed c"
  "close_after_reply (protocol_error m c)"
  by (simp_all add: protocol_error_def setProtocolError_def addReplyError_def)

lemma inline_args_total:
  assumes "length line < 2 ^ 62 - 1"
  shows "\<exists>r. inline_args line = Some r"
proof -
  obtain r where r: "sdssplitargs (line @ [0]) = Some r" "\<forall>toks. r = Some toks \<longrightarrow> list_all (\<lambda>t. \<exists>str. sds_rep t str) toks"
    using splitargs_loop_safe [of "line @ [0]" "[]"] assms by (auto simp: sdssplitargs_def)
  have "\<exists>xs. those (map sds_content toks) = Some xs" if "list_all (\<lambda>t. \<exists>str. sds_rep t str) toks" for toks
    using that by (induction toks) (auto simp: content_rep)
  then show ?thesis using r by (cases r) (auto simp: inline_args_def)
qed

lemma inline_ok:
  assumes "conn_ok srv c" "reqtype c = 1" "client_max_querybuf_len srv < 2 ^ 61"
  shows "\<exists>c' ok. processInlineBuffer srv c = Some (c', ok) \<and> (if ok then buf_ok srv c' else conn_ok srv c')"
proof (cases "strchr_at (querybuf c) (qb_pos c) 0x0A")
  case None
  then show ?thesis using assms by (auto simp: processInlineBuffer_def conn_ok_def buf_ok_def)
next
  case (Some nl)
  define newline where "newline = (if nl \<noteq> qb_pos c \<and> querybuf c ! (nl - 1) = 0x0D then nl - 1 else nl)"
  define k :: nat where "k = (if nl \<noteq> qb_pos c \<and> querybuf c ! (nl - 1) = 0x0D then 2 else 1)"
  have nl: "(if nl \<noteq> qb_pos c \<and> querybuf c ! (nl - 1) = 0x0D then (nl - 1, 2) else (nl, 1)) = (newline, k)"
    by (simp add: newline_def k_def)
  have pos: "qb_pos c \<le> newline" "newline + k \<le> length (querybuf c)" using strchr_range [OF Some] by (auto simp: newline_def k_def)
  let ?line = "take (newline - qb_pos c) (drop (qb_pos c) (querybuf c))"
  have "length ?line \<le> client_max_querybuf_len srv" using assms(1) by (auto simp: conn_ok_def buf_ok_def)
  then have "length ?line < 2 ^ 62 - 1" using assms(3) by simp
  then obtain r where r: "inline_args ?line = Some r" using inline_args_total by blast
  show ?thesis
  proof (cases r)
    case None
    then show ?thesis using Some nl r assms by (auto simp: processInlineBuffer_def conn_ok_def buf_ok_def)
  next
    case (Some args)
    then show ?thesis using \<open>strchr_at (querybuf c) (qb_pos c) 0x0A = Some nl\<close> nl r pos assms
      by (auto simp: processInlineBuffer_def conn_ok_def buf_ok_def Let_def)
  qed
qed

text \<open>The state inside the loop over the arguments.\<close>

definition args_ok :: "query_conf \<Rightarrow> conn \<Rightarrow> bool" where
  "args_ok srv c \<longleftrightarrow> buf_ok srv c \<and> 0 \<le> multibulklen c \<and> reqtype c = 2 \<and> int (length (argv c)) + multibulklen c = int (argv_size c) \<and>
     (bulklen c = - 1 \<or> 0 \<le> bulklen c \<and> bulklen c \<le> proto_max_bulk_len srv)"

lemma bulk_header_ok:
  assumes "args_ok srv c" "bulk_header srv c = Inr c1"
  shows "args_ok srv c1 \<and> 0 \<le> bulklen c1"
proof -
  have "qb_pos c \<le> newline \<and> newline + 2 \<le> length (querybuf c)"
    if "strchr_at (querybuf c) (qb_pos c) 0x0D = Some newline"
      "\<not> int newline - int (qb_pos c) > int (length (querybuf c)) - int (qb_pos c) - 2" for newline
    using strchr_range [OF that(1)] that(2) by auto
  then show ?thesis using assms
    by (auto simp: bulk_header_def Let_def args_ok_def buf_ok_def str_range_from2 split: option.splits if_splits)
qed

lemma bulk_take_ok:
  assumes "args_ok srv c" "0 < multibulklen c" "0 \<le> bulklen c" "\<not> int (left c) < bulklen c + 2"
  shows "\<exists>c1. bulk_take c = Some c1 \<and> args_ok srv c1"
  using assms by (auto simp: bulk_take_def Let_def args_ok_def buf_ok_def)

lemma bulk_header_err: "bulk_header srv c = Inl (Some c') \<Longrightarrow> \<exists>m. c' = protocol_error m c"
  by (auto simp: bulk_header_def Let_def split: option.splits if_splits)

lemma args_conn_ok: "args_ok srv c \<Longrightarrow> 0 < multibulklen c \<Longrightarrow> conn_ok srv c"
  by (auto simp: args_ok_def conn_ok_def)

lemma args_ok_error: "args_ok srv c \<Longrightarrow> args_ok srv (protocol_error m c)"
  by (simp add: args_ok_def buf_ok_def)

lemma arg_start_ok:
  assumes "args_ok srv c" "(if bulklen c = - 1 then bulk_header srv c else Inr c) = Inr c1"
  shows "args_ok srv c1 \<and> multibulklen c1 = multibulklen c \<and> 0 \<le> bulklen c1"
proof (cases "bulklen c = - 1")
  case True
  then have "bulk_header srv c = Inr c1" using assms(2) by simp
  then show ?thesis using bulk_header_ok [OF assms(1)] bulk_header_mbl by blast
next
  case False
  then show ?thesis using assms by (simp add: args_ok_def)
qed

lemma bulk_loop_ok:
  "args_ok srv c \<Longrightarrow> \<exists>c' ok. bulk_loop srv c = Some (c', ok) \<and> (if ok then buf_ok srv c' else conn_ok srv c')"
proof (induction "nat (multibulklen c)" arbitrary: c rule: less_induct)
  case less
  show ?case
  proof (cases "0 < multibulklen c")
    case False
    then show ?thesis using less.prems by (subst bulk_loop.simps) (auto simp: args_ok_def)
  next
    case pos: True
    have hd: "args_ok srv c1 \<and> multibulklen c1 = multibulklen c \<and> 0 \<le> bulklen c1"
      if "(if bulklen c = - 1 then bulk_header srv c else Inr c) = Inr c1" for c1
      by (rule arg_start_ok [OF less.prems that])
    from refl pos show ?thesis
    proof (cases rule: bulk_loop_cases [where r = "bulk_loop srv c"])
      case (error c')
      then show ?thesis using bulk_header_err [of srv c c'] args_conn_ok [OF args_ok_error [OF less.prems]] pos by auto
    next
      case wait
      then show ?thesis using args_conn_ok [OF less.prems pos] by auto
    next
      case (bulk c1)
      then show ?thesis using hd [OF bulk(1)] args_conn_ok [of srv c1] pos by auto
    next
      case (take c1)
      obtain c2 where c2: "bulk_take c1 = Some c2" "args_ok srv c2" using bulk_take_ok [of srv c1] hd [OF take(1)] take(2) pos by auto
      have "nat (multibulklen c2) < nat (multibulklen c)" using bulk_take_mbl [OF c2(1)] hd [OF take(1)] pos by simp
      from less.hyps [OF this c2(2)] show ?thesis using take(3) c2(1) by simp
    qed
  qed
qed

lemma mbulk_header_ok:
  assumes "conn_ok srv c" "reqtype c = 2" "multibulklen c = 0"
  shows "\<exists>r. mbulk_header c = Some r \<and>
    (case r of Inl (c', ok) \<Rightarrow> if ok then buf_ok srv c' else conn_ok srv c' | Inr c1 \<Rightarrow> args_ok srv c1 \<and> 0 < multibulklen c1)"
proof -
  have star: "argv c = []" "querybuf c ! qb_pos c = 0x2A" "conn_ok srv (protocol_error m c)" "buf_ok srv c" "bulklen c = - 1" for m
    using assms by (auto simp: conn_ok_def buf_ok_def)
  have nl: "newline + 2 \<le> length (querybuf c)"
    if "\<not> int newline - int (qb_pos c) > int (length (querybuf c)) - int (qb_pos c) - 2" for newline using that by auto
  show ?thesis
    using star assms(1,2) by (auto simp: mbulk_header_def Let_def args_ok_def buf_ok_def split: option.splits dest!: nl)
qed

lemma multibulk_ok:
  assumes "conn_ok srv c" "reqtype c = 2"
  shows "\<exists>c' ok. processMultibulkBuffer srv c = Some (c', ok) \<and> (if ok then buf_ok srv c' else conn_ok srv c')"
proof (cases "multibulklen c = 0")
  case True
  with mbulk_header_ok [OF assms True] show ?thesis
    using bulk_loop_ok by (fastforce simp: processMultibulkBuffer_def split: sum.splits)
next
  case False
  then have "args_ok srv c" "0 < multibulklen c" using assms by (auto simp: conn_ok_def args_ok_def)
  then show ?thesis using bulk_loop_ok [of srv c] by (simp add: processMultibulkBuffer_def)
qed

lemma request_type_ok:
  assumes "conn_ok srv c" "qb_pos c < length (querybuf c)"
  shows "conn_ok srv (request_type c)" "reqtype (request_type c) = 1 \<or> reqtype (request_type c) = 2"
  using assms by (auto simp: request_type_def conn_ok_def buf_ok_def PROTO_REQ_INLINE_def PROTO_REQ_MULTIBULK_def)

lemma parse_request_ok:
  assumes "conn_ok srv c" "qb_pos c < length (querybuf c)" "client_max_querybuf_len srv < 2 ^ 61"
  shows "\<exists>c' ok. parse_request srv (request_type c) = Some (c', ok) \<and> (if ok then buf_ok srv c' else conn_ok srv c')"
  using request_type_ok [OF assms(1,2)] inline_ok [of srv "request_type c"] multibulk_ok [of srv "request_type c"] assms(3)
  by (auto simp: parse_request_def PROTO_REQ_INLINE_def PROTO_REQ_MULTIBULK_def)

lemma reset_ok: "buf_ok srv c \<Longrightarrow> conn_ok srv (resetClient c) \<and> conn_ok srv (resetClient (run_command c))"
  by (simp add: conn_ok_def buf_ok_def resetClient_def run_command_def Let_def)

lemma input_step_ok:
  assumes "conn_ok srv c" "qb_pos c < length (querybuf c)" "client_max_querybuf_len srv < 2 ^ 61"
  shows "\<exists>r. input_step srv c = Some r \<and> conn_ok srv (case r of Inl c' \<Rightarrow> c' | Inr c' \<Rightarrow> c')"
  using parse_request_ok [OF assms] assms(1) reset_ok [of srv] by (fastforce simp: input_step_def split: if_splits)

lemma input_loop_ok:
  "conn_ok srv c \<Longrightarrow> client_max_querybuf_len srv < 2 ^ 61 \<Longrightarrow> \<exists>c'. input_loop srv c = Some c' \<and> conn_ok srv c'"
proof (induction srv c rule: input_loop.induct)
  case (1 srv c)
  show ?case
  proof (cases "qb_pos c < length (querybuf c)")
    case True
    obtain r where r: "input_step srv c = Some r" "conn_ok srv (case r of Inl c' \<Rightarrow> c' | Inr c' \<Rightarrow> c')"
      using input_step_ok [OF 1(2) True 1(3)] by blast
    then show ?thesis using 1(1) [OF True r(1)] 1(3) True by (subst input_loop.simps) (cases r; simp)
  qed (use 1(2) in \<open>simp add: input_loop.simps\<close>)
qed

text \<open>What the trimming at the end of \<^verbatim>\<open>processInputBuffer\<close> does to the buffer.\<close>

lemma processInputBuffer_trim:
  assumes "input_loop srv c = Some c1" "buf_ok srv c1"
  shows "processInputBuffer srv c = Some (c1\<lparr>querybuf := drop (qb_pos c1) (querybuf c1), qb_pos := 0\<rparr>)"
proof -
  have "str_range (querybuf c1) (int (qb_pos c1)) (- 1) = drop (qb_pos c1) (querybuf c1)"
    using str_range_from [of "qb_pos c1" "querybuf c1"] str_range_end [of "querybuf c1" "qb_pos c1"]
    by (cases "qb_pos c1 < length (querybuf c1)") auto
  then show ?thesis using assms(1) by (simp add: processInputBuffer_def)
qed

lemma trim_ok: "conn_ok srv c \<Longrightarrow> conn_ok srv (c\<lparr>querybuf := drop (qb_pos c) (querybuf c), qb_pos := 0\<rparr>)"
  by (auto simp: conn_ok_def buf_ok_def)

lemma append_ok:
  "conn_ok srv c \<Longrightarrow> length (querybuf c @ bs) \<le> client_max_querybuf_len srv \<Longrightarrow> conn_ok srv (c\<lparr>querybuf := querybuf c @ bs\<rparr>)"
  by (auto simp: conn_ok_def buf_ok_def nth_append)

lemma conn_ok_updates [simp]:
  "conn_ok srv (c\<lparr>lastinteraction := x\<rparr>) = conn_ok srv c" "conn_ok srv (c\<lparr>read_reploff := y\<rparr>) = conn_ok srv c"
  by (simp_all add: conn_ok_def buf_ok_def)

section \<open>The replication offset\<close>

text \<open>The fields of the replication stream, which the parsers leave alone.\<close>

definition repl_fields :: "conn \<Rightarrow> int \<times> int \<times> bytes \<times> bytes \<times> bool \<times> bool" where
  "repl_fields c = (reploff c, read_reploff c, pending_querybuf c, forwarded c, is_master c, in_multi c)"

lemma repl_fields_simps [simp]: "repl_fields (protocol_error m c) = repl_fields c" "repl_fields (resetClient c) = repl_fields c" "repl_fields (request_type c) = repl_fields c"
  by (simp_all add: repl_fields_def protocol_error_def setProtocolError_def addReplyError_def resetClient_def request_type_def)

lemma bulk_loop_repl: "bulk_loop srv c = Some (c', ok) \<Longrightarrow> repl_fields c' = repl_fields c"
proof (induction "nat (multibulklen c)" arbitrary: c rule: less_induct)
  case less
  have hd: "repl_fields c1 = repl_fields c \<and> multibulklen c1 = multibulklen c"
    if "(if bulklen c = - 1 then bulk_header srv c else Inr c) = Inr c1" for c1
    using that bulk_header_mbl [of srv c c1] by (auto simp: bulk_header_def Let_def repl_fields_def split: if_splits option.splits)
  show ?case
  proof (cases "0 < multibulklen c")
    case False
    then show ?thesis using less.prems by (subst (asm) bulk_loop.simps) auto
  next
    case pos: True
    from less.prems pos show ?thesis
    proof (cases rule: bulk_loop_cases)
      case (take c1)
      then obtain c2 where c2: "bulk_take c1 = Some c2" "bulk_loop srv c2 = Some (c', ok)" by (auto split: option.splits)
      have "nat (multibulklen c2) < nat (multibulklen c)" using bulk_take_mbl [OF c2(1)] hd [OF take(1)] pos by simp
      note less.hyps [OF this c2(2)]
      moreover have "repl_fields c2 = repl_fields c1" using c2(1) by (auto simp: bulk_take_def Let_def repl_fields_def split: if_splits)
      ultimately show ?thesis using hd [OF take(1)] by simp
    qed (use hd bulk_header_err in \<open>force+\<close>)
  qed
qed

lemma parse_request_repl:
  assumes "parse_request srv c = Some (c', ok)"
  shows "repl_fields c' = repl_fields c \<and> left c' \<le> left c"
proof (cases "reqtype c = PROTO_REQ_INLINE")
  case True
  then have "processInlineBuffer srv c = Some (c', ok)" using assms by (simp add: parse_request_def)
  then show ?thesis
    by (auto simp: processInlineBuffer_def Let_def repl_fields_def protocol_error_def setProtocolError_def addReplyError_def
        split: option.splits if_splits bind_splits)
next
  case False
  then have "processMultibulkBuffer srv c = Some (c', ok)" using assms by (simp add: parse_request_def split: if_splits)
  then obtain r where r: "(if multibulklen c = 0 then mbulk_header c else Some (Inr c)) = Some r"
    "(case r of Inl res \<Rightarrow> Some res | Inr c1 \<Rightarrow> if multibulklen c1 > 0 then bulk_loop srv c1 else None) = Some (c', ok)"
    by (auto simp: processMultibulkBuffer_def split: bind_splits)
  have "repl_fields c1 = repl_fields c \<and> left c1 \<le> left c" if "mbulk_header c = Some (Inr c1) \<or> mbulk_header c = Some (Inl (c1, ok))" for c1
    using that by (auto simp: mbulk_header_def Let_def repl_fields_def protocol_error_def setProtocolError_def addReplyError_def
        dest!: strchr_range split: option.splits if_splits)
  then show ?thesis using r bulk_loop_repl [of srv _ c' ok] bulk_loop_left [of srv _ c' ok]
    by (cases r) (fastforce split: if_splits)+
qed

text \<open>The bytes read but not executed are at the end of the pending bytes; the offset is not behind the pending bytes and
  not ahead of the bytes executed.\<close>

definition offset_ok :: "conn \<Rightarrow> bool" where
  "offset_ok c \<longleftrightarrow> (is_master c \<longrightarrow> read_reploff c - int (length (pending_querybuf c)) \<le> reploff c \<and> reploff c \<le> read_reploff c - int (left c))"

lemma input_step_offset:
  assumes "input_step srv c = Some r" "offset_ok c" "conn_ok srv c" "qb_pos c < length (querybuf c)" "client_max_querybuf_len srv < 2 ^ 61"
  shows "offset_ok (case r of Inl c' \<Rightarrow> c' | Inr c' \<Rightarrow> c') \<and>
    snd (repl_fields (case r of Inl c' \<Rightarrow> c' | Inr c' \<Rightarrow> c')) = snd (repl_fields c)"
proof (cases "input_stopped srv c")
  case True
  then show ?thesis using assms by (auto simp: input_step_def)
next
  case False
  then obtain c1 ok where c1: "parse_request srv (request_type c) = Some (c1, ok)"
    "r = (if \<not> ok then Inl c1 else if argv c1 = [] then Inr (resetClient c1) else Inr (resetClient (run_command c1)))"
    using assms(1) by (auto simp: input_step_def split: bind_splits)
  have eq: "repl_fields c1 = repl_fields c" "left c1 \<le> left c" using parse_request_repl [OF c1(1)] by simp_all
  then have ok1: "offset_ok c1" using assms(2) by (auto simp: offset_ok_def repl_fields_def)
  have "offset_ok (run_command c1) \<and> snd (repl_fields (run_command c1)) = snd (repl_fields c1)" if "ok"
  proof -
    have "qb_pos c1 \<le> length (querybuf c1)" using parse_request_ok [OF assms(3-5)] c1(1) that by (auto simp: buf_ok_def)
    then show ?thesis using ok1 by (auto simp: offset_ok_def run_command_def Let_def repl_fields_def)
  qed
  moreover have "offset_ok (resetClient c2) = offset_ok c2" for c2 by (simp add: offset_ok_def resetClient_def)
  ultimately show ?thesis using c1(2) ok1 eq(1) by auto
qed

lemma input_loop_offset:
  "input_loop srv c = Some c' \<Longrightarrow> offset_ok c \<Longrightarrow> conn_ok srv c \<Longrightarrow> client_max_querybuf_len srv < 2 ^ 61 \<Longrightarrow>
   offset_ok c' \<and> snd (repl_fields c') = snd (repl_fields c)"
proof (induction srv c rule: input_loop.induct)
  case (1 srv c)
  show ?case
  proof (cases "qb_pos c < length (querybuf c)")
    case True
    then obtain r where r: "input_step srv c = Some r" "(case r of Inl c' \<Rightarrow> Some c' | Inr c' \<Rightarrow> input_loop srv c') = Some c'"
      using 1(2) by (subst (asm) input_loop.simps) (auto split: option.splits)
    have "conn_ok srv (case r of Inl c' \<Rightarrow> c' | Inr c' \<Rightarrow> c')" using input_step_ok [OF 1(4) True 1(5)] r(1) by simp
    then show ?thesis using input_step_offset [OF r(1) 1(3,4) True 1(5)] r 1(1) [OF True r(1)] 1(5) by (cases r) auto
  next
    case False
    then show ?thesis using 1(2,3) by (subst (asm) input_loop.simps) auto
  qed
qed

text \<open>Between reads, the offset and the pending bytes make up what was read.\<close>

definition stream_ok :: "conn \<Rightarrow> bool" where
  "stream_ok c \<longleftrightarrow> (is_master c \<longrightarrow> reploff c = read_reploff c - int (length (pending_querybuf c)) \<and> left c \<le> length (pending_querybuf c))"

text \<open>The effect of the replicating wrapper on the result of the loop.\<close>

lemma replicate_eq:
  assumes "input_loop srv c = Some c1" "buf_ok srv c1" "stream_ok c" "conn_ok srv c" "client_max_querybuf_len srv < 2 ^ 61"
  shows "\<exists>fwd pend. processInputBufferAndReplicate srv c =
      Some (c1\<lparr>querybuf := drop (qb_pos c1) (querybuf c1), qb_pos := 0, forwarded := forwarded c @ fwd, pending_querybuf := pend\<rparr>) \<and>
    fwd @ pend = pending_querybuf c \<and> (is_master c \<longrightarrow> int (length fwd) = reploff c1 - reploff c \<and> left c1 \<le> length pend) \<and>
    snd (repl_fields c1) = snd (repl_fields c)"
proof -
  note trim = processInputBuffer_trim [OF assms(1,2)]
  have "offset_ok c" using assms(3) by (auto simp: stream_ok_def offset_ok_def)
  from input_loop_offset [OF assms(1) this assms(4,5)] have o: "offset_ok c1" "snd (repl_fields c1) = snd (repl_fields c)" by simp_all
  have eq: "read_reploff c1 = read_reploff c" "pending_querybuf c1 = pending_querybuf c" "forwarded c1 = forwarded c" "is_master c1 = is_master c"
    using o(2) by (simp_all add: repl_fields_def)
  show ?thesis
  proof (cases "is_master c")
    case False
    then show ?thesis using trim o(2) eq by (intro exI [of _ "[]"] exI [of _ "pending_querybuf c"]) (simp add: processInputBufferAndReplicate_def)
  next
    case True
    define n where "n = nat (reploff c1 - reploff c)"
    have n: "reploff c1 - reploff c = int n" "n \<le> length (pending_querybuf c)" "left c1 \<le> length (pending_querybuf c) - n"
      using o(1) assms(3) eq True by (auto simp: stream_ok_def offset_ok_def n_def)
    have "str_range (pending_querybuf c) (int n) (- 1) = drop n (pending_querybuf c)"
      using str_range_from [of n "pending_querybuf c"] str_range_end [of "pending_querybuf c" n] by (cases "n < length (pending_querybuf c)") auto
    then have "processInputBufferAndReplicate srv c = Some (c1\<lparr>querybuf := drop (qb_pos c1) (querybuf c1), qb_pos := 0,
        forwarded := forwarded c @ take n (pending_querybuf c), pending_querybuf := drop n (pending_querybuf c)\<rparr>)"
      using trim True n(1,2) by (cases "n = 0") (simp_all add: processInputBufferAndReplicate_def Let_def eq(2,3) [symmetric])
    then show ?thesis using True n o(2) by (intro exI [of _ "take n (pending_querybuf c)"] exI [of _ "drop n (pending_querybuf c)"]) simp
  qed
qed

lemma forward_ok [simp]:
  "conn_ok srv (c\<lparr>forwarded := x\<rparr>) = conn_ok srv c" "conn_ok srv (c\<lparr>pending_querybuf := y\<rparr>) = conn_ok srv c"
  by (simp_all add: conn_ok_def buf_ok_def)

lemma read_safe:
  assumes "conn_ok srv c" "stream_ok c" "client_max_querybuf_len srv < 2 ^ 61"
  shows "\<exists>r. readQueryFromClient srv c x = Some r \<and>
    (\<forall>c'. r = Some c' \<longrightarrow> conn_ok srv c' \<and> stream_ok c' \<and>
       (is_master c \<longrightarrow> forwarded c' @ pending_querybuf c' = forwarded c @ pending_querybuf c @ (case x of ReadData bs \<Rightarrow> bs | _ \<Rightarrow> [])))"
proof (cases x)
  case (ReadData bs)
  define c0 where "c0 = (if is_master c then c\<lparr>pending_querybuf := pending_querybuf c @ bs\<rparr> else c)"
  define c1 where "c1 = c0\<lparr>querybuf := querybuf c0 @ bs, lastinteraction := unixtime srv\<rparr>"
  define c2 where "c2 = (if is_master c1 then c1\<lparr>read_reploff := read_reploff c1 + int (length bs)\<rparr> else c1)"
  have "conn_ok srv c0" using assms(1) by (simp add: c0_def)
  then have ok2: "conn_ok srv c2" if "length (querybuf c2) \<le> client_max_querybuf_len srv"
    using append_ok [of srv c0 bs] that by (auto simp: c2_def c1_def split: if_splits)
  have st2: "stream_ok c2" using assms(2) by (auto simp: stream_ok_def c2_def c1_def c0_def)
  have f2: "forwarded c2 = forwarded c" "is_master c2 = is_master c" "is_master c \<Longrightarrow> pending_querybuf c2 = pending_querybuf c @ bs"
    by (simp_all add: c2_def c1_def c0_def)
  show ?thesis
  proof (cases "length (querybuf c2) > client_max_querybuf_len srv")
    case True
    then have "readQueryFromClient srv c x = Some None"
      unfolding ReadData readQueryFromClient_def read_result.case c0_def [symmetric] Let_def c1_def [symmetric] c2_def [symmetric] by simp
    then show ?thesis by simp
  next
    case False
    then have ok: "conn_ok srv c2" using ok2 by simp
    then obtain c3 where c3: "input_loop srv c2 = Some c3" "conn_ok srv c3" using input_loop_ok [OF _ assms(3)] by auto
    then have "buf_ok srv c3" by (simp add: conn_ok_def)
    then obtain fwd pend where r: "processInputBufferAndReplicate srv c2 =
        Some (c3\<lparr>querybuf := drop (qb_pos c3) (querybuf c3), qb_pos := 0, forwarded := forwarded c2 @ fwd, pending_querybuf := pend\<rparr>)"
      "fwd @ pend = pending_querybuf c2" "is_master c2 \<longrightarrow> int (length fwd) = reploff c3 - reploff c2 \<and> left c3 \<le> length pend"
      "snd (repl_fields c3) = snd (repl_fields c2)"
      using replicate_eq [OF c3(1) _ st2 ok assms(3)] by blast
    define c4 where "c4 = c3\<lparr>querybuf := drop (qb_pos c3) (querybuf c3), qb_pos := 0, forwarded := forwarded c2 @ fwd, pending_querybuf := pend\<rparr>"
    have "conn_ok srv c4" using trim_ok [OF c3(2)] by (simp add: c4_def)
    moreover have "int (length (pending_querybuf c2)) = int (length fwd) + int (length pend)" using arg_cong [OF r(2), of length] by simp
    then have "stream_ok c4" using r(3,4) st2 by (auto simp: stream_ok_def c4_def repl_fields_def)
    moreover have "is_master c \<Longrightarrow> forwarded c4 @ pending_querybuf c4 = forwarded c @ pending_querybuf c @ bs"
      using r(2) f2 by (simp add: c4_def)
    moreover have "readQueryFromClient srv c x = Some (Some c4)"
      unfolding ReadData readQueryFromClient_def read_result.case c0_def [symmetric] Let_def c1_def [symmetric] c2_def [symmetric]
      using False r(1) by (simp add: c4_def)
    ultimately show ?thesis using ReadData by simp
  qed
qed (use assms(1,2) in \<open>simp_all add: readQueryFromClient_def\<close>)

text \<open>Property C10. Whatever bytes a peer sends, reading them fails no assertion and stores no argument outside
  the argument vector, and it leaves the parser in a well-formed state, or closes the connection: the
  position is inside the buffer, the buffer within its limit, a pending multibulk request has exactly the missing
  arguments left in its vector, and a pending argument has an accepted length. On the connection with a master, the
  offsets stay consistent, and exactly a prefix of the bytes not yet passed on is passed on to the replicas.\<close>

theorem request_parser_safe:
  assumes "conn_ok srv c" "stream_ok c" "client_max_querybuf_len srv < 2 ^ 61"
  shows "\<exists>r. readQueryFromClient srv c x = Some r \<and>
    (\<forall>c'. r = Some c' \<longrightarrow> conn_ok srv c' \<and> stream_ok c' \<and>
       (is_master c \<longrightarrow> forwarded c' @ pending_querybuf c' = forwarded c @ pending_querybuf c @ (case x of ReadData bs \<Rightarrow> bs | _ \<Rightarrow> [])))"
  by (rule read_safe [OF assms])

theorem request_parser_safe_witness:
  "\<exists>r. readQueryFromClient \<lparr>proto_max_bulk_len = 512, client_max_querybuf_len = 1024, unixtime = 0, paused = False, lua_timedout = False\<rparr>
     \<lparr>querybuf = [0x2A, 0x32], qb_pos = 0, reqtype = 2, multibulklen = 0, bulklen = - 1, argv = [], argv_size = 0, is_slave = False,
       is_master = False, is_blocked = False, close_after_reply = False, in_multi = False, repl_ack_time = 0, lastinteraction = 0,
       reploff = 0, read_reploff = 0, pending_querybuf = [], forwarded = [], conn_out = [], executed = []\<rparr> (ReadData [0x0D, 0x0A, 0x24, 0x2D, 0x31, 0x0D, 0x0A]) = Some r"
  using request_parser_safe
    [of "\<lparr>proto_max_bulk_len = 512, client_max_querybuf_len = 1024, unixtime = 0, paused = False, lua_timedout = False\<rparr>"
      "\<lparr>querybuf = [0x2A, 0x32], qb_pos = 0, reqtype = 2, multibulklen = 0, bulklen = - 1, argv = [], argv_size = 0, is_slave = False,
       is_master = False, is_blocked = False, close_after_reply = False, in_multi = False, repl_ack_time = 0, lastinteraction = 0,
       reploff = 0, read_reploff = 0, pending_querybuf = [], forwarded = [], conn_out = [], executed = []\<rparr>" "ReadData [0x0D, 0x0A, 0x24, 0x2D, 0x31, 0x0D, 0x0A]"]
  by (auto simp: conn_ok_def buf_ok_def stream_ok_def)

end
