(* ===== verification/Resp_Stream.thy ===== *)
theory Resp_Stream
  imports Resp
begin

text \<open>
  The request parser against the protocol: a stream of requests in the multibulk format is executed
  exactly, however the socket cuts it into reads. The format is that of \<^verbatim>\<open>catAppendOnlyGenericCommand\<close>
  (theory Aof) and of the commands sent to replicas.
\<close>

section \<open>The multibulk format\<close>

definition enc_arg :: "bytes \<Rightarrow> bytes" where
  "enc_arg a = 0x24 # dec_nat (length a) @ 0x0D # 0x0A # a @ [0x0D, 0x0A]"

definition enc_args :: "bytes list \<Rightarrow> bytes" where
  "enc_args args = concat (map enc_arg args)"

definition enc_cmd :: "bytes list \<Rightarrow> bytes" where
  "enc_cmd args = 0x2A # dec_nat (length args) @ 0x0D # 0x0A # enc_args args"

definition enc_cmds :: "bytes list list \<Rightarrow> bytes" where
  "enc_cmds cmds = concat (map enc_cmd cmds)"

lemma enc_simps [simp]:
  "enc_args [] = []" "enc_args (a # args) = enc_arg a @ enc_args args" "enc_cmds [] = []" "enc_cmds (cmd # cmds) = enc_cmd cmd @ enc_cmds cmds"
  "enc_args (as @ args) = enc_args as @ enc_args args" "enc_cmds (cs @ cmds) = enc_cmds cs @ enc_cmds cmds"
  by (simp_all add: enc_args_def enc_cmds_def)

lemma enc_ne [simp]: "enc_arg a \<noteq> []" "enc_cmd c \<noteq> []" "enc_cmds cmds = [] \<longleftrightarrow> cmds = []" "[] = enc_cmds cmds \<longleftrightarrow> cmds = []"
  by (auto simp: enc_arg_def enc_cmd_def enc_cmds_def)

abbreviation inp :: "conn \<Rightarrow> bytes" where
  "inp c \<equiv> drop (qb_pos c) (querybuf c)"

text \<open>A header is found when it is complete.\<close>

lemma dec_nat_bytes: "x \<in> set (dec_nat n) \<Longrightarrow> x \<noteq> 0 \<and> x \<noteq> 0x0D"
  using dec_nat_digits [of n] by (auto simp: list_all_iff is_digit_def)

lemma drop_eq_shift: "drop i xs = ys @ zs \<Longrightarrow> drop (i + length ys) xs = zs"
  by (metis add.commute append_eq_conv_conj drop_drop)

lemma hdr_full:
  assumes "drop pos buf = b # dec_nat n @ 0x0D # 0x0A # rest" "b \<noteq> 0" "b \<noteq> 0x0D"
  shows "strchr_at buf pos 0x0D = Some (pos + 1 + length (dec_nat n))"
    "take (length (dec_nat n)) (drop (pos + 1) buf) = dec_nat n" "drop (pos + length (dec_nat n) + 3) buf = rest"
    "pos + length (dec_nat n) + 3 \<le> length buf" "buf ! pos = b"
proof -
  have len: "length buf - pos = length (dec_nat n) + 3 + length rest" using arg_cong [OF assms(1), of length] by simp
  have "takeWhile (\<lambda>x. x \<noteq> 0 \<and> x \<noteq> 0x0D) (drop pos buf) = b # dec_nat n"
    using assms dec_nat_bytes by (auto simp: takeWhile_append2)
  moreover have "buf ! (pos + 1 + length (dec_nat n)) = 0x0D"
    using nth_drop [of pos buf "1 + length (dec_nat n)"] len by (simp add: assms(1) nth_append ac_simps)
  ultimately show "strchr_at buf pos 0x0D = Some (pos + 1 + length (dec_nat n))" using len by (simp add: strchr_at_def)
  show "take (length (dec_nat n)) (drop (pos + 1) buf) = dec_nat n"
    using drop_eq_shift [of pos buf "[b]"] assms(1) by simp
  show "drop (pos + length (dec_nat n) + 3) buf = rest"
    using drop_eq_shift [of pos buf "b # dec_nat n @ [0x0D, 0x0A]" rest] assms(1) by (simp add: ac_simps numeral_3_eq_3)
  show "pos + length (dec_nat n) + 3 \<le> length buf" using len by simp
  show "buf ! pos = b" using nth_drop [of pos buf 0] len by (simp add: assms(1))
qed

lemma hdr_part:
  assumes "drop pos buf @ u = b # dec_nat n @ 0x0D # 0x0A # rest" "b \<noteq> 0x0D" "length buf - pos < length (dec_nat n) + 3"
    "strchr_at buf pos 0x0D = Some i"
  shows "i + 1 = length buf"
proof -
  have i: "pos \<le> i" "i < length buf" "buf ! i = 0x0D"
    using strchr_range [OF assms(4)] assms(4) by (auto simp: strchr_at_def Let_def split: if_splits)
  then have "(drop pos buf @ u) ! (i - pos) = 0x0D" using diff_less_mono [OF i(2,1)] by (simp add: nth_append)
  then have "(b # dec_nat n @ 0x0D # 0x0A # rest) ! (i - pos) = 0x0D" by (simp only: assms(1))
  moreover have "dec_nat n ! k \<noteq> 0x0D" if "k < length (dec_nat n)" for k using dec_nat_bytes nth_mem [OF that] by blast
  ultimately have "i - pos = Suc (length (dec_nat n))" using assms(2,3) i
    by (cases "i - pos") (auto simp: nth_append split: if_splits)
  then show ?thesis using i assms(3) by linarith
qed

lemma append_eq_split:
  "xs @ s = ys @ u \<Longrightarrow> length xs \<le> length ys \<Longrightarrow> take (length xs) ys = xs"
  "xs @ s = ys @ u \<Longrightarrow> length xs \<le> length ys \<Longrightarrow> drop (length xs) ys @ u = s"
  by (simp_all add: append_eq_append_conv_if)

text \<open>Either the buffer has the complete header, or more input is to come.\<close>

lemma hdr_split:
  assumes "drop pos buf @ u = b # dec_nat n @ 0x0D # 0x0A # rest" "\<not> length buf - pos < length (dec_nat n) + 3"
  obtains r where "drop pos buf = b # dec_nat n @ 0x0D # 0x0A # r" "r @ u = rest"
proof -
  define h where "h = b # dec_nat n @ [0x0D, 0x0A]"
  have h: "h @ rest = drop pos buf @ u" "length h \<le> length (drop pos buf)" using assms by (simp_all add: h_def)
  note s = append_eq_split [OF h]
  then have "drop pos buf = h @ drop (length h) (drop pos buf)" by (metis append_take_drop_id)
  with s(2) show ?thesis using that by (simp add: h_def)
qed

lemma dec_nat_short: "int n < 2 ^ 63 \<Longrightarrow> length (dec_nat n) \<le> 19"
  by (rule len_dec_le) simp_all

lemma string2ll_dec: "int n < 2 ^ 63 \<Longrightarrow> string2ll (dec_nat n) = Some (int n)"
  by (simp add: string2ll_eq dec_int_def is_int64_def)


section \<open>What a connection has still to read\<close>

definition cmd_ok :: "query_conf \<Rightarrow> bytes list \<Rightarrow> bool" where
  "cmd_ok srv cmd \<longleftrightarrow> cmd \<noteq> [] \<and> length cmd \<le> 1024 * 1024 \<and> list_all (\<lambda>a. int (length a) \<le> proto_max_bulk_len srv) cmd"

text \<open>The bytes that are missing for the arguments \<open>args\<close> of the current request.\<close>

definition args_todo :: "conn \<Rightarrow> bytes list \<Rightarrow> bytes \<Rightarrow> bool" where
  "args_todo c args s \<longleftrightarrow> multibulklen c = int (length args) \<and>
     (if bulklen c = - 1 then s = enc_args args
      else args \<noteq> [] \<and> bulklen c = int (length (hd args)) \<and> s = hd args @ 0x0D # 0x0A # enc_args (tl args))"

definition awaits :: "conn \<Rightarrow> bytes list list \<Rightarrow> bytes \<Rightarrow> bool" where
  "awaits c cmds u \<longleftrightarrow>
     (if multibulklen c = 0 then reqtype c \<noteq> 1 \<and> inp c @ u = enc_cmds cmds
      else \<exists>args rest s. cmds = (argv c @ args) # rest \<and> args_todo c args s \<and> inp c @ u = s @ enc_cmds rest)"

text \<open>The fields the parser only reads.\<close>

definition frame :: "conn \<Rightarrow> bytes list list \<times> bool list" where
  "frame c = (executed c, [is_slave c, is_master c, is_blocked c, close_after_reply c, in_multi c])"

lemma frame_stopped: "frame c' = frame c \<Longrightarrow> input_stopped srv c' = input_stopped srv c"
  by (simp add: frame_def input_stopped_def)

text \<open>The three steps of reading an argument: its header, its bytes, its end.\<close>

lemma bulk_header_wait:
  assumes "inp c @ u = enc_args (a # args) @ s" "left c < length (dec_nat (length a)) + 3" "int (length a) < 2 ^ 63"
  shows "bulk_header srv c = Inl None" "u \<noteq> []"
proof -
  have hd: "inp c @ u = 0x24 # dec_nat (length a) @ 0x0D # 0x0A # (a @ 0x0D # 0x0A # enc_args args @ s)"
    using assms(1) by (simp add: enc_arg_def)
  have "i + 1 = length (querybuf c)" if "strchr_at (querybuf c) (qb_pos c) 0x0D = Some i" for i
    using hdr_part [OF hd _ assms(2) that] by simp
  moreover have "left c \<le> PROTO_INLINE_MAX_SIZE" using assms(2) dec_nat_short [OF assms(3)] by (simp add: PROTO_INLINE_MAX_SIZE_def)
  ultimately show "bulk_header srv c = Inl None" by (force simp: bulk_header_def split: option.splits)
  show "u \<noteq> []"
  proof
    assume "u = []"
    then show False using arg_cong [OF hd, of length] assms(2) by simp
  qed
qed

lemma bulk_header_read:
  assumes "inp c @ u = enc_args (a # args) @ s" "\<not> left c < length (dec_nat (length a)) + 3"
    "int (length a) \<le> proto_max_bulk_len srv" "proto_max_bulk_len srv < 2 ^ 63"
  shows "\<exists>c1. bulk_header srv c = Inr c1 \<and> inp c1 @ u = a @ 0x0D # 0x0A # enc_args args @ s \<and> bulklen c1 = int (length a) \<and>
    argv c1 = argv c \<and> frame c1 = frame c"
proof -
  have "inp c @ u = 0x24 # dec_nat (length a) @ 0x0D # 0x0A # (a @ 0x0D # 0x0A # enc_args args @ s)"
    using assms(1) by (simp add: enc_arg_def)
  then obtain r where r: "inp c = 0x24 # dec_nat (length a) @ 0x0D # 0x0A # r" "r @ u = a @ 0x0D # 0x0A # enc_args args @ s"
    using hdr_split assms(2) by blast
  note hdr = hdr_full [OF r(1)]
  have nl: "drop (pos + 1 + length (dec_nat (length a)) + 2) buf = drop (pos + length (dec_nat (length a)) + 3) buf" for pos and buf :: bytes
    by (simp add: numeral_3_eq_3)
  have "string2ll (dec_nat (length a)) = Some (int (length a))" using string2ll_dec assms(3,4) by simp
  moreover have "str_range buf (3 + (int pos + int i)) (- 1) = drop (pos + i + 3) buf" for pos i and buf :: bytes
    using str_range_from2 [of buf "pos + i + 1"] by (simp add: numeral_3_eq_3)
  ultimately show ?thesis using hdr r(2) assms(3) nl [of "qb_pos c" "querybuf c"]
    by (auto simp: bulk_header_def Let_def frame_def)
qed

lemma bulk_take_read:
  assumes "args_ok srv c" "0 < multibulklen c" "inp c @ u = a @ 0x0D # 0x0A # s" "bulklen c = int (length a)" "\<not> int (left c) < bulklen c + 2"
  shows "\<exists>c1. bulk_take c = Some c1 \<and> args_ok srv c1 \<and> inp c1 @ u = s \<and> argv c1 = argv c @ [a] \<and> bulklen c1 = - 1 \<and>
    multibulklen c1 = multibulklen c - 1 \<and> frame c1 = frame c"
proof -
  obtain c1 where c1: "bulk_take c = Some c1" "args_ok srv c1" using bulk_take_ok [OF assms(1,2) _ assms(5)] assms(4) by auto
  have le: "length (a @ [0x0D, 0x0A]) \<le> length (inp c)" using assms(4,5) by auto
  have eq: "(a @ [0x0D, 0x0A]) @ s = inp c @ u" using assms(3) by simp
  have pre: "take (length a + 2) (inp c) = a @ [0x0D, 0x0A]" "drop (length a + 2) (inp c) @ u = s"
    using append_eq_split [OF eq le] by simp_all
  have "take (length a) (inp c) = take (length a) (take (length a + 2) (inp c))" by simp
  then have "take (length a) (inp c) = a" by (simp only: pre(1)) simp
  moreover have "int (length (querybuf c)) = int (length a) + 2 \<Longrightarrow> length (querybuf c) - 2 = length a" by linarith
  ultimately show ?thesis using c1 pre(2) assms(4)
    by (auto simp: bulk_take_def Let_def frame_def ac_simps split: if_splits)
qed

text \<open>The result of parsing the rest of the request \<open>cmd\<close>: it is complete, or more input is to come.\<close>

definition cmd_result :: "conn \<Rightarrow> bytes list \<Rightarrow> bytes list list \<Rightarrow> bytes \<Rightarrow> (conn \<times> bool) option \<Rightarrow> bool" where
  "cmd_result c cmd rest u r \<longleftrightarrow> (\<exists>c'. frame c' = frame c \<and>
     (r = Some (c', True) \<and> argv c' = cmd \<and> inp c' @ u = enc_cmds rest \<or> r = Some (c', False) \<and> u \<noteq> [] \<and> awaits c' (cmd # rest) u))"

lemma cmd_result_frame: "frame c1 = frame c \<Longrightarrow> cmd_result c1 cmd rest u r = cmd_result c cmd rest u r"
  by (simp add: cmd_result_def)

text \<open>The loop over the arguments.\<close>

lemma bulk_loop_read:
  assumes "args_ok srv c" "args_todo c args s" "inp c @ u = s @ enc_cmds rest" "argv c @ args = cmd" "proto_max_bulk_len srv < 2 ^ 63"
    "list_all (\<lambda>a. int (length a) \<le> proto_max_bulk_len srv) args"
  shows "cmd_result c cmd rest u (bulk_loop srv c)"
  using assms
proof (induction args arbitrary: c s)
  case Nil
  then have "bulk_loop srv c = Some (c, True)" by (subst bulk_loop.simps) (auto simp: args_todo_def)
  moreover have "s = []" using Nil.prems(2) by (simp add: args_todo_def split: if_splits)
  ultimately show ?case using Nil by (simp add: cmd_result_def)
next
  case (Cons a args)
  have mbl: "multibulklen c = 1 + int (length args)" "0 < multibulklen c" using Cons.prems(2) by (simp_all add: args_todo_def)
  have wait: "awaits c (cmd # rest) u" using Cons.prems(2-4) mbl by (force simp: awaits_def)
  have body: "cmd_result c cmd rest u (bulk_loop srv c)"
    if c1: "(if bulklen c = - 1 then bulk_header srv c else Inr c) = Inr c1" and inp: "inp c1 @ u = a @ 0x0D # 0x0A # enc_args args @ enc_cmds rest"
      "bulklen c1 = int (length a)" "argv c1 = argv c" "frame c1 = frame c" for c1
  proof -
    have ok: "args_ok srv c1" "multibulklen c1 = multibulklen c" using arg_start_ok [OF Cons.prems(1) c1] by auto
    show ?thesis
    proof (cases "int (left c1) < bulklen c1 + 2")
      case True
      have "args_todo c1 (a # args) (a @ 0x0D # 0x0A # enc_args args)" using inp(2) ok mbl by (simp add: args_todo_def)
      then have "awaits c1 (cmd # rest) u" using inp(1,3) ok(2) mbl Cons.prems(4) by (force simp: awaits_def)
      moreover have "left c1 + length u \<ge> length a + 2" using arg_cong [OF inp(1), of length] by simp
      then have "u \<noteq> []" using True inp(2) by auto
      moreover have "bulk_loop srv c = Some (c1, False)" using True c1 mbl(2) by (subst bulk_loop.simps) simp
      ultimately show ?thesis using inp(4) by (auto simp: cmd_result_def)
    next
      case False
      obtain c2 where c2: "bulk_take c1 = Some c2" "args_ok srv c2" "inp c2 @ u = enc_args args @ enc_cmds rest" "argv c2 = argv c1 @ [a]"
        "bulklen c2 = - 1" "multibulklen c2 = multibulklen c1 - 1" "frame c2 = frame c1"
        using bulk_take_read [OF ok(1) _ inp(1,2) False] ok(2) mbl by auto
      have "args_todo c2 args (enc_args args)" using c2 ok mbl by (simp add: args_todo_def)
      then have "cmd_result c2 cmd rest u (bulk_loop srv c2)"
        using Cons.IH [OF c2(2) _ c2(3) _ assms(5)] Cons.prems(4,6) c2(4) inp(3) by simp
      moreover have "bulk_loop srv c = bulk_loop srv c2" using False c1 mbl(2) c2(1) by (subst bulk_loop.simps) simp
      ultimately show ?thesis using cmd_result_frame [of c2 c] c2(7) inp(4) by simp
    qed
  qed
  show ?case
  proof (cases "bulklen c = - 1")
    case True
    then have inp: "inp c @ u = enc_args (a # args) @ enc_cmds rest" using Cons.prems(2,3) by (simp add: args_todo_def)
    show ?thesis
    proof (cases "left c < length (dec_nat (length a)) + 3")
      case short: True
      have "int (length a) < 2 ^ 63" using Cons.prems(5,6) by simp
      note bulk_header_wait [OF inp short this]
      note h = this
      then have "bulk_loop srv c = Some (c, False)" using True mbl(2) by (subst bulk_loop.simps) simp
      then show ?thesis using wait h(2) by (auto simp: cmd_result_def)
    next
      case False
      then show ?thesis using bulk_header_read [OF inp False _ assms(5)] Cons.prems(6) True body by auto
    qed
  next
    case False
    then show ?thesis using Cons.prems(2,3) by (intro body [of c]) (simp_all add: args_todo_def)
  qed
qed

section \<open>Requests\<close>

lemma mbulk_header_read:
  assumes "conn_ok srv c" "reqtype c = 2" "multibulklen c = 0" "inp c @ u = enc_cmds (cmd # rest)" "cmd_ok srv cmd"
  shows "if left c < length (dec_nat (length cmd)) + 3 then mbulk_header c = Some (Inl (c, False)) \<and> u \<noteq> []
    else \<exists>c1. mbulk_header c = Some (Inr c1) \<and> args_todo c1 cmd (enc_args cmd) \<and> inp c1 @ u = enc_args cmd @ enc_cmds rest \<and>
      0 < multibulklen c1 \<and> argv c1 = [] \<and> frame c1 = frame c"
proof -
  have c: "argv c = []" "querybuf c ! qb_pos c = 0x2A" "bulklen c = - 1" using assms(1-3) by (auto simp: conn_ok_def)
  have n: "0 < length cmd" "length cmd \<le> 1024 * 1024" using assms(5) by (auto simp: cmd_ok_def)
  have hd: "inp c @ u = 0x2A # dec_nat (length cmd) @ 0x0D # 0x0A # (enc_args cmd @ enc_cmds rest)"
    using assms(4) by (simp add: enc_cmd_def)
  show ?thesis
  proof (cases "left c < length (dec_nat (length cmd)) + 3")
    case True
    have "i + 1 = length (querybuf c)" if "strchr_at (querybuf c) (qb_pos c) 0x0D = Some i" for i
      using hdr_part [OF hd _ True that] by simp
    moreover have "left c \<le> PROTO_INLINE_MAX_SIZE"
      using True n dec_nat_short [of "length cmd"] by (simp add: PROTO_INLINE_MAX_SIZE_def)
    ultimately have "mbulk_header c = Some (Inl (c, False))" using c by (force simp: mbulk_header_def split: option.splits)
    moreover have "u \<noteq> []" using arg_cong [OF hd, of length] True by auto
    ultimately show ?thesis using True by simp
  next
    case False
    obtain r where r: "inp c = 0x2A # dec_nat (length cmd) @ 0x0D # 0x0A # r" "r @ u = enc_args cmd @ enc_cmds rest"
      using hdr_split [OF hd False] by blast
    note hdr = hdr_full [OF r(1)]
    have "string2ll (dec_nat (length cmd)) = Some (int (length cmd))" using string2ll_dec n by simp
    then show ?thesis using False hdr r(2) c n by (auto simp: mbulk_header_def Let_def frame_def args_todo_def numeral_3_eq_3)
  qed
qed

lemma multibulk_read:
  assumes "conn_ok srv c" "reqtype c = 2" "awaits c (cmd # rest) u" "cmd_ok srv cmd" "proto_max_bulk_len srv < 2 ^ 63"
  shows "cmd_result c cmd rest u (processMultibulkBuffer srv c)"
proof (cases "multibulklen c = 0")
  case True
  then have inp: "inp c @ u = enc_cmds (cmd # rest)" using assms(3) by (simp add: awaits_def)
  note hdr = mbulk_header_read [OF assms(1,2) True inp assms(4)]
  show ?thesis
  proof (cases "left c < length (dec_nat (length cmd)) + 3")
    case short: True
    then show ?thesis using hdr True assms(3) by (auto simp: processMultibulkBuffer_def cmd_result_def)
  next
    case False
    then obtain c1 where c1: "mbulk_header c = Some (Inr c1)" "args_todo c1 cmd (enc_args cmd)" "inp c1 @ u = enc_args cmd @ enc_cmds rest"
      "0 < multibulklen c1" "argv c1 = []" "frame c1 = frame c" using hdr by auto
    have "args_ok srv c1" using mbulk_header_ok [OF assms(1,2) True] c1(1) by simp
    then show ?thesis using bulk_loop_read [OF _ c1(2,3) _ assms(5)] c1 True assms(4) cmd_result_frame [OF c1(6)]
      by (simp add: processMultibulkBuffer_def cmd_ok_def)
  qed
next
  case False
  then obtain args s where a: "cmd = argv c @ args" "args_todo c args s" "inp c @ u = s @ enc_cmds rest" using assms(3) by (auto simp: awaits_def)
  have "args_ok srv c" "0 < multibulklen c" using assms(1,2) False by (auto simp: conn_ok_def args_ok_def)
  then show ?thesis using bulk_loop_read [OF _ a(2,3) a(1) [symmetric] assms(5)] False assms(4) a(1)
    by (simp add: processMultibulkBuffer_def cmd_ok_def)
qed

text \<open>The state of a connection between two requests.\<close>

lemma awaits_left: "awaits c cmds u \<Longrightarrow> inp c @ u = [] \<Longrightarrow> cmds = []"
  by (auto simp: awaits_def args_todo_def enc_args_def split: if_splits)

lemma awaits_ne: "awaits c cmds u \<Longrightarrow> qb_pos c < length (querybuf c) \<Longrightarrow> cmds \<noteq> []"
  by (auto simp: awaits_def split: if_splits)

lemma args_todo_updates [simp]:
  "args_todo (c\<lparr>reqtype := t\<rparr>) = args_todo c" "args_todo (c\<lparr>querybuf := b\<rparr>) = args_todo c" "args_todo (c\<lparr>qb_pos := i\<rparr>) = args_todo c"
  "args_todo (c\<lparr>lastinteraction := z\<rparr>) = args_todo c" "args_todo (c\<lparr>read_reploff := z\<rparr>) = args_todo c"
  "args_todo (c\<lparr>pending_querybuf := b\<rparr>) = args_todo c" "args_todo (c\<lparr>forwarded := b\<rparr>) = args_todo c"
  by (simp_all add: args_todo_def fun_eq_iff)

lemma awaits_reqtype: "awaits c cmds u \<Longrightarrow> x \<noteq> 1 \<Longrightarrow> awaits (c\<lparr>reqtype := x\<rparr>) cmds u"
  by (simp add: awaits_def split: if_splits)

lemma request_type_read:
  assumes "conn_ok srv c" "awaits c (cmd # rest) u" "qb_pos c < length (querybuf c)"
  shows "reqtype (request_type c) = 2" "awaits (request_type c) (cmd # rest) u" "frame (request_type c) = frame c"
proof -
  have star: "querybuf c ! qb_pos c = 0x2A" if "multibulklen c = 0"
  proof -
    have "inp c @ u = 0x2A # dec_nat (length cmd) @ 0x0D # 0x0A # enc_args cmd @ enc_cmds rest"
      using assms(2) that by (simp add: awaits_def enc_cmd_def)
    then have "(inp c @ u) ! 0 = 0x2A" by (simp only: nth_Cons_0)
    then show ?thesis using assms(3) by (simp add: nth_append)
  qed
  show "reqtype (request_type c) = 2"
    using assms star by (auto simp: request_type_def conn_ok_def awaits_def PROTO_REQ_MULTIBULK_def le_Suc_eq numeral_2_eq_2 split: if_splits)
  then show "awaits (request_type c) (cmd # rest) u"
    using awaits_reqtype [OF assms(2)] assms(2) by (cases "reqtype c = 0") (simp_all add: request_type_def)
  show "frame (request_type c) = frame c" by (simp add: frame_def request_type_def)
qed

section \<open>The stream\<close>

text \<open>One iteration executes the request, or waits for the rest of it.\<close>

lemma input_step_read:
  assumes "conn_ok srv c" "awaits c (cmd # rest) u" "qb_pos c < length (querybuf c)" "cmd_ok srv cmd"
    "\<not> input_stopped srv c" "proto_max_bulk_len srv < 2 ^ 63"
  shows "(\<exists>c'. input_step srv c = Some (Inl c') \<and> u \<noteq> [] \<and> awaits c' (cmd # rest) u \<and> frame c' = frame c) \<or>
    (\<exists>c'. input_step srv c = Some (Inr c') \<and> awaits c' rest u \<and> frame c' = (executed c @ [cmd], snd (frame c)))"
proof -
  note t = request_type_read [OF assms(1-3)]
  have "cmd_result (request_type c) cmd rest u (parse_request srv (request_type c))"
    using multibulk_read [OF request_type_ok(1) [OF assms(1,3)] t(1,2) assms(4,6)] t(1)
    by (simp add: parse_request_def PROTO_REQ_INLINE_def PROTO_REQ_MULTIBULK_def)
  then obtain c1 where c1: "frame c1 = frame c"
    "parse_request srv (request_type c) = Some (c1, True) \<and> argv c1 = cmd \<and> inp c1 @ u = enc_cmds rest \<or>
     parse_request srv (request_type c) = Some (c1, False) \<and> u \<noteq> [] \<and> awaits c1 (cmd # rest) u"
    using t(3) by (auto simp: cmd_result_def)
  have "frame (resetClient (run_command c1)) = (executed c1 @ [argv c1], snd (frame c1))"
    by (simp add: frame_def resetClient_def run_command_def Let_def)
  moreover have "awaits (resetClient (run_command c1)) rest u" if "inp c1 @ u = enc_cmds rest"
    using that by (simp add: awaits_def resetClient_def run_command_def Let_def)
  moreover have "cmd \<noteq> []" using assms(4) by (simp add: cmd_ok_def)
  moreover have "executed c1 = executed c" using c1(1) by (simp add: frame_def)
  ultimately show ?thesis using c1 assms(5) by (auto simp: input_step_def)
qed

lemma input_loop_read:
  assumes "conn_ok srv c" "awaits c cmds u" "list_all (cmd_ok srv) cmds" "\<not> input_stopped srv c" "proto_max_bulk_len srv < 2 ^ 63"
    "client_max_querybuf_len srv < 2 ^ 61"
  shows "\<exists>c' done_cmds rest. input_loop srv c = Some c' \<and> cmds = done_cmds @ rest \<and> awaits c' rest u \<and> (u = [] \<longrightarrow> rest = []) \<and>
    frame c' = (executed c @ done_cmds, snd (frame c))"
  using assms
proof (induction cmds arbitrary: c)
  case Nil
  then have "\<not> qb_pos c < length (querybuf c)" using awaits_ne by blast
  then have "input_loop srv c = Some c" by (simp add: input_loop.simps)
  then show ?case using Nil by (auto simp: frame_def)
next
  case (Cons cmd cmds)
  show ?case
  proof (cases "qb_pos c < length (querybuf c)")
    case False
    then have "input_loop srv c = Some c" by (simp add: input_loop.simps)
    moreover have "u \<noteq> []" using awaits_left [OF Cons.prems(2)] False by auto
    ultimately show ?thesis using Cons.prems(2) by (auto simp: frame_def)
  next
    case True
    have "cmd_ok srv cmd" using Cons.prems(3) by simp
    from input_step_read [OF Cons.prems(1,2) True this Cons.prems(4,5)] show ?thesis
    proof (elim disjE exE conjE)
      fix c' assume "input_step srv c = Some (Inl c')" "u \<noteq> []" "awaits c' (cmd # cmds) u" "frame c' = frame c"
      then show ?thesis using True by (intro exI [of _ c'] exI [of _ "[]"] exI [of _ "cmd # cmds"]) (simp add: input_loop.simps [of srv c] frame_def)
    next
      fix c' assume c': "input_step srv c = Some (Inr c')" "awaits c' cmds u" "frame c' = (executed c @ [cmd], snd (frame c))"
      have ok: "conn_ok srv c'" using input_step_ok [OF Cons.prems(1) True assms(6)] c'(1) by simp
      have "\<not> input_stopped srv c'" using c'(3) Cons.prems(4) by (simp add: frame_def input_stopped_def)
      with Cons.IH [OF ok c'(2)] Cons.prems(3,5,6) obtain c'' done_cmds rest where IH: "input_loop srv c' = Some c''"
        "cmds = done_cmds @ rest" "awaits c'' rest u" "u = [] \<longrightarrow> rest = []" "frame c'' = (executed c' @ done_cmds, snd (frame c'))"
        by auto
      then show ?thesis using True c'(1,3)
        by (intro exI [of _ c''] exI [of _ "cmd # done_cmds"] exI [of _ rest]) (simp add: input_loop.simps [of srv c] frame_def)
    qed
  qed
qed

text \<open>What is to be read is part of the encoding of what is to be executed.\<close>

lemma awaits_length: "awaits c cmds u \<Longrightarrow> length (inp c @ u) \<le> length (enc_cmds cmds)"
proof -
  assume a: "awaits c cmds u"
  have "length s \<le> length (enc_args args)" if "args_todo c args s" for args s
    using that by (cases args) (auto simp: args_todo_def enc_arg_def split: if_splits)
  moreover have "length (enc_args args) \<le> length (enc_cmd (as @ args))" for as args by (simp add: enc_cmd_def)
  ultimately have "length s \<le> length (enc_cmd (as @ args))" if "args_todo c args s" for args s as using that le_trans by blast
  then show ?thesis using a by (auto simp: awaits_def simp del: length_append split: if_splits) (simp add: add_mono)
qed

lemma trim_read: "awaits (c\<lparr>querybuf := drop (qb_pos c) (querybuf c), qb_pos := 0\<rparr>) cmds u = awaits c cmds u"
  by (simp add: awaits_def)

lemma awaits_append:
  assumes "awaits c cmds (bs @ u)" "qb_pos c \<le> length (querybuf c)"
  shows "awaits (c\<lparr>querybuf := querybuf c @ bs\<rparr>) cmds u"
  using assms by (simp add: awaits_def split: if_splits)

lemma awaits_updates [simp]:
  "awaits (c\<lparr>lastinteraction := z\<rparr>) = awaits c" "awaits (c\<lparr>read_reploff := z\<rparr>) = awaits c"
  "awaits (c\<lparr>pending_querybuf := b\<rparr>) = awaits c" "awaits (c\<lparr>forwarded := b\<rparr>) = awaits c"
  by (simp_all add: awaits_def fun_eq_iff)

text \<open>Reading a chunk of the stream.\<close>

lemma read_chunk:
  assumes "conn_ok srv c" "stream_ok c" "awaits c cmds (bs @ u)" "list_all (cmd_ok srv) cmds" "\<not> input_stopped srv c"
    "proto_max_bulk_len srv < 2 ^ 63" "client_max_querybuf_len srv < 2 ^ 61" "qb_pos c = 0" "length (enc_cmds cmds) \<le> client_max_querybuf_len srv"
  shows "\<exists>c' done_cmds rest. readQueryFromClient srv c (ReadData bs) = Some (Some c') \<and> conn_ok srv c' \<and> stream_ok c' \<and> cmds = done_cmds @ rest \<and>
    awaits c' rest u \<and> (u = [] \<longrightarrow> rest = []) \<and> frame c' = (executed c @ done_cmds, snd (frame c)) \<and> qb_pos c' = 0"
proof -
  define c0 where "c0 = (if is_master c then c\<lparr>pending_querybuf := pending_querybuf c @ bs\<rparr> else c)"
  define c1 where "c1 = c0\<lparr>querybuf := querybuf c0 @ bs, lastinteraction := unixtime srv\<rparr>"
  define c2 where "c2 = (if is_master c1 then c1\<lparr>read_reploff := read_reploff c1 + int (length bs)\<rparr> else c1)"
  have len: "length (querybuf c @ bs) \<le> client_max_querybuf_len srv" using awaits_length [OF assms(3)] assms(8,9) by simp
  have c0: "conn_ok srv c0" "awaits c0 cmds (bs @ u)" "qb_pos c0 = 0" "querybuf c0 = querybuf c" using assms(1,3,8) by (simp_all add: c0_def)
  define d where "d = c0\<lparr>querybuf := querybuf c0 @ bs\<rparr>"
  have "conn_ok srv d" "awaits d cmds u" using append_ok [OF c0(1), of bs] awaits_append [OF c0(2)] c0(3,4) len by (simp_all add: d_def)
  then have c2: "conn_ok srv c2" "awaits c2 cmds u" by (simp_all add: c2_def c1_def d_def)
  have fr: "executed c2 = executed c" "frame c2 = frame c" by (simp_all add: c2_def c1_def c0_def frame_def)
  then have ns: "\<not> input_stopped srv c2" using assms(5) frame_stopped by blast
  obtain c3 done_cmds rest where c3: "input_loop srv c2 = Some c3" "cmds = done_cmds @ rest" "awaits c3 rest u" "u = [] \<longrightarrow> rest = []"
    "frame c3 = (executed c2 @ done_cmds, snd (frame c2))"
    using input_loop_read [OF c2 assms(4) ns assms(6,7)] by blast
  have ok: "conn_ok srv c3" using input_loop_ok [OF c2(1) assms(7)] c3(1) by simp
  then have "buf_ok srv c3" by (simp add: conn_ok_def)
  moreover have "stream_ok c2" using assms(2) by (auto simp: stream_ok_def c2_def c1_def c0_def)
  ultimately obtain fwd pend where r: "processInputBufferAndReplicate srv c2 =
      Some (c3\<lparr>querybuf := drop (qb_pos c3) (querybuf c3), qb_pos := 0, forwarded := forwarded c2 @ fwd, pending_querybuf := pend\<rparr>)"
    using replicate_eq [OF c3(1) _ _ c2(1) assms(7)] by blast
  define c4 where "c4 = c3\<lparr>querybuf := drop (qb_pos c3) (querybuf c3), qb_pos := 0, forwarded := forwarded c2 @ fwd, pending_querybuf := pend\<rparr>"
  have rd: "readQueryFromClient srv c (ReadData bs) = Some (Some c4)"
    unfolding readQueryFromClient_def read_result.case c0_def [symmetric] Let_def c1_def [symmetric] c2_def [symmetric]
    using len r by (simp add: c4_def c2_def c1_def c0(4))
  have "conn_ok srv c4" "stream_ok c4" using read_safe [OF assms(1,2,7), of "ReadData bs"] rd by simp_all
  moreover have "awaits c4 rest u" using trim_read [of c3 rest u] c3(3) by (simp add: c4_def)
  moreover have "frame c4 = frame c3" by (simp add: c4_def frame_def)
  ultimately show ?thesis using rd c3 fr by (intro exI [of _ c4] exI [of _ done_cmds] exI [of _ rest]) (simp add: c4_def)
qed

text \<open>Reading a sequence of chunks, as the event loop does.\<close>

fun feed :: "query_conf \<Rightarrow> conn \<Rightarrow> bytes list \<Rightarrow> conn option option" where
  "feed srv c [] = Some (Some c)"
| "feed srv c (bs # chunks) =
     (case readQueryFromClient srv c (ReadData bs) of
        None \<Rightarrow> None
      | Some None \<Rightarrow> Some None
      | Some (Some c') \<Rightarrow> feed srv c' chunks)"

lemma feed_read:
  assumes "conn_ok srv c" "stream_ok c" "awaits c cmds (concat chunks)" "list_all (cmd_ok srv) cmds" "\<not> input_stopped srv c"
    "proto_max_bulk_len srv < 2 ^ 63" "client_max_querybuf_len srv < 2 ^ 61" "qb_pos c = 0" "length (enc_cmds cmds) \<le> client_max_querybuf_len srv"
    "concat chunks = [] \<Longrightarrow> cmds = []"
  shows "\<exists>c'. feed srv c chunks = Some (Some c') \<and> conn_ok srv c' \<and> awaits c' [] [] \<and> frame c' = (executed c @ cmds, snd (frame c)) \<and>
    qb_pos c' = 0"
  using assms
proof (induction chunks arbitrary: c cmds)
  case Nil
  then show ?case by (simp add: frame_def)
next
  case (Cons bs chunks)
  obtain c1 done_cmds rest where c1: "readQueryFromClient srv c (ReadData bs) = Some (Some c1)" "conn_ok srv c1" "stream_ok c1" "cmds = done_cmds @ rest"
    "awaits c1 rest (concat chunks)" "concat chunks = [] \<longrightarrow> rest = []" "frame c1 = (executed c @ done_cmds, snd (frame c))" "qb_pos c1 = 0"
    using read_chunk [of srv c cmds bs "concat chunks"] Cons.prems by auto
  have "\<not> input_stopped srv c1" using c1(7) Cons.prems(5) by (simp add: frame_def input_stopped_def)
  then obtain c' where "feed srv c1 chunks = Some (Some c')" "conn_ok srv c'" "awaits c' [] []" "frame c' = (executed c1 @ rest, snd (frame c1))"
    "qb_pos c' = 0"
    using Cons.IH [OF c1(2,3,5)] Cons.prems(4,6,7,9) c1(4,6,8) by auto
  then show ?case using c1 by (simp add: frame_def)
qed

text \<open>A connection on which nothing has been read yet.\<close>

definition conn_new :: conn where
  "conn_new = \<lparr>querybuf = [], qb_pos = 0, reqtype = 0, multibulklen = 0, bulklen = - 1, argv = [], argv_size = 0, is_slave = False,
     is_master = False, is_blocked = False, close_after_reply = False, in_multi = False, repl_ack_time = 0, lastinteraction = 0,
     reploff = 0, read_reploff = 0, pending_querybuf = [], forwarded = [], conn_out = [], executed = []\<rparr>"

text \<open>Reading a stream on a connection whose buffer is empty.\<close>

lemma stream_read:
  assumes "conn_ok srv c" "stream_ok c" "querybuf c = []" "qb_pos c = 0" "reqtype c = 0" "\<not> input_stopped srv c"
    "list_all (cmd_ok srv) cmds" "concat chunks = enc_cmds cmds" "length (enc_cmds cmds) \<le> client_max_querybuf_len srv"
    "proto_max_bulk_len srv < 2 ^ 63" "client_max_querybuf_len srv < 2 ^ 61"
  shows "\<exists>c'. feed srv c chunks = Some (Some c') \<and> executed c' = executed c @ cmds \<and> querybuf c' = [] \<and> close_after_reply c' = close_after_reply c"
proof -
  have "multibulklen c = 0" using assms(1,5) by (auto simp: conn_ok_def)
  then have aw: "awaits c cmds (concat chunks)" using assms(3-5,8) by (simp add: awaits_def)
  have "concat chunks = [] \<Longrightarrow> cmds = []" using assms(8) by (simp only: enc_ne)
  then obtain c' where c': "feed srv c chunks = Some (Some c')" "conn_ok srv c'" "awaits c' [] []" "frame c' = (executed c @ cmds, snd (frame c))"
    "qb_pos c' = 0"
    using feed_read [OF assms(1,2) aw assms(7,6,10,11,4,9)] by auto
  have "inp c' = []" using c'(3) by (auto simp: awaits_def split: if_splits)
  then show ?thesis using c' by (auto simp: frame_def)
qed

text \<open>Property C2. A stream of multibulk requests is executed exactly and in order, with nothing left in the buffer, however
  the socket splits it into reads: inside a length, between a carriage return and its line feed, or inside an argument,
  for arguments with arbitrary bytes and up to the configured sizes.\<close>

theorem requests_executed:
  assumes "conn_ok srv c" "stream_ok c" "querybuf c = []" "qb_pos c = 0" "reqtype c = 0" "\<not> input_stopped srv c"
    "list_all (cmd_ok srv) cmds" "concat chunks = enc_cmds cmds" "length (enc_cmds cmds) \<le> client_max_querybuf_len srv"
    "proto_max_bulk_len srv < 2 ^ 63" "client_max_querybuf_len srv < 2 ^ 61"
  shows "\<exists>c'. feed srv c chunks = Some (Some c') \<and> executed c' = executed c @ cmds \<and> querybuf c' = [] \<and> close_after_reply c' = close_after_reply c"
  using stream_read [OF assms] .

theorem requests_executed_witness:
  "\<exists>c'. feed \<lparr>proto_max_bulk_len = 512, client_max_querybuf_len = 1024, unixtime = 0, paused = False, lua_timedout = False\<rparr> conn_new
      [[0x2A, 0x31], [0x0D], [0x0A, 0x24, 0x32, 0x0D, 0x0A, 0x0D], [0x0A, 0x0D, 0x0A]] = Some (Some c') \<and>
    executed c' = [[[0x0D, 0x0A]]]"
  using requests_executed [of "\<lparr>proto_max_bulk_len = 512, client_max_querybuf_len = 1024, unixtime = 0, paused = False, lua_timedout = False\<rparr>"
      conn_new "[[[0x0D, 0x0A]]]" "[[0x2A, 0x31], [0x0D], [0x0A, 0x24, 0x32, 0x0D, 0x0A, 0x0D], [0x0A, 0x0D, 0x0A]]"]
  by (auto simp: stream_ok_def conn_new_def conn_ok_def buf_ok_def input_stopped_def cmd_ok_def enc_cmd_def enc_arg_def dec_nat_1)

end
