(* ===== verification/Robj.thy ===== *)
theory Robj
  imports Util_Num Sds Sds_Num Reply
begin

text \<open>
  String objects (object.c): the three encodings of a string value, raw (a separate dynamic string),
  embedded (a dynamic string in the allocation of the object) and integer, with their creation,
  conversion, comparison and reference counts. A string value is \<open>obj_rep\<close>-related to its bytes; the
  operations are shown to depend on the bytes only. A failed assertion or a panic is \<^term>\<open>None\<close>.
\<close>

section \<open>Objects\<close>

text \<open>The encoding with the pointer field it interprets.\<close>

datatype obj_data = ENC_RAW sds | ENC_EMBSTR sds | ENC_INT int

record robj =
  obj_data :: obj_data
  refcount :: int
  lru :: nat

text \<open>The parts of the server configuration that object creation reads; \<open>lru_now\<close> is the access information
  that a new object gets under the configured eviction policy.\<close>

record obj_conf =
  maxmemory :: nat
  no_shared_integers :: bool
  lru_now :: nat

definition OBJ_SHARED_REFCOUNT :: int where "OBJ_SHARED_REFCOUNT = 2147483647"
definition OBJ_SHARED_INTEGERS :: int where "OBJ_SHARED_INTEGERS = 10000"
definition OBJ_ENCODING_EMBSTR_SIZE_LIMIT :: nat where "OBJ_ENCODING_EMBSTR_SIZE_LIMIT = 44"

definition createObject :: "obj_conf \<Rightarrow> obj_data \<Rightarrow> robj" where
  "createObject cfg d = \<lparr>obj_data = d, refcount = 1, lru = lru_now cfg\<rparr>"

definition makeObjectShared :: "robj \<Rightarrow> robj option" where
  "makeObjectShared ob = (if refcount ob = 1 then Some (ob\<lparr>refcount := OBJ_SHARED_REFCOUNT\<rparr>) else None)"

text \<open>An element of \<^verbatim>\<open>shared.integers\<close>.\<close>

definition shared_integer :: "obj_conf \<Rightarrow> int \<Rightarrow> robj option" where
  "shared_integer cfg v = makeObjectShared (createObject cfg (ENC_INT v))"

definition incrRefCount :: "robj \<Rightarrow> robj" where
  "incrRefCount ob = (if refcount ob \<noteq> OBJ_SHARED_REFCOUNT then ob\<lparr>refcount := refcount ob + 1\<rparr> else ob)"

text \<open>The inner \<^term>\<open>None\<close> is a freed object.\<close>

definition decrRefCount :: "robj \<Rightarrow> robj option option" where
  "decrRefCount ob =
     (if refcount ob = 1 then Some None
      else if refcount ob \<le> 0 then None
      else if refcount ob \<noteq> OBJ_SHARED_REFCOUNT then Some (Some (ob\<lparr>refcount := refcount ob - 1\<rparr>))
      else Some (Some ob))"

definition createRawStringObject :: "obj_conf \<Rightarrow> bytes \<Rightarrow> nat \<Rightarrow> robj option" where
  "createRawStringObject cfg ptr len = do { s \<leftarrow> sdsnewlen (Init ptr) len; Some (createObject cfg (ENC_RAW s)) }"

text \<open>The string part of the allocation is written field by field, with the lengths cut to a byte.\<close>

definition createEmbeddedStringObject :: "obj_conf \<Rightarrow> sds_init \<Rightarrow> nat \<Rightarrow> robj option" where
  "createEmbeddedStringObject cfg ptr len =
     do {
       let sh = (replicate (3 + len + 1) None, 3);
       s1 \<leftarrow> hdr_wr sh 3 [of_nat len];
       s2 \<leftarrow> hdr_wr s1 2 [of_nat len];
       s3 \<leftarrow> hdr_wr s2 1 [1];
       s4 \<leftarrow> (case ptr of
           SDS_NOINIT \<Rightarrow> sds_wr s3 len [0]
         | Init bs \<Rightarrow> if len \<le> length bs then do { s \<leftarrow> sds_wr s3 0 (take len bs); sds_wr s len [0] } else None
         | NULL_INIT \<Rightarrow> sds_wr s3 0 (replicate (len + 1) 0));
       Some (createObject cfg (ENC_EMBSTR s4))
     }"

definition createStringObject :: "obj_conf \<Rightarrow> bytes \<Rightarrow> nat \<Rightarrow> robj option" where
  "createStringObject cfg ptr len =
     (if len \<le> OBJ_ENCODING_EMBSTR_SIZE_LIMIT then createEmbeddedStringObject cfg (Init ptr) len
      else createRawStringObject cfg ptr len)"

definition createStringObjectFromLongLongWithOptions :: "obj_conf \<Rightarrow> int \<Rightarrow> bool \<Rightarrow> robj option" where
  "createStringObjectFromLongLongWithOptions cfg v valueobj =
     (let valueobj' = (if maxmemory cfg = 0 \<or> \<not> no_shared_integers cfg then False else valueobj) in
      if 0 \<le> v \<and> v < OBJ_SHARED_INTEGERS \<and> \<not> valueobj' then map_option incrRefCount (shared_integer cfg v)
      else if is_int64 v then Some (createObject cfg (ENC_INT v))
      else map_option (\<lambda>s. createObject cfg (ENC_RAW s)) (sdsfromlonglong v))"

definition createStringObjectFromLongLong :: "obj_conf \<Rightarrow> int \<Rightarrow> robj option" where
  "createStringObjectFromLongLong cfg v = createStringObjectFromLongLongWithOptions cfg v False"

definition createStringObjectFromLongLongForValue :: "obj_conf \<Rightarrow> int \<Rightarrow> robj option" where
  "createStringObjectFromLongLongForValue cfg v = createStringObjectFromLongLongWithOptions cfg v True"

text \<open>The source reads the string through its length.\<close>

definition dupStringObject :: "obj_conf \<Rightarrow> robj \<Rightarrow> robj option" where
  "dupStringObject cfg ob =
     (case obj_data ob of
        ENC_RAW s \<Rightarrow> do { len \<leftarrow> sdslen s; bs \<leftarrow> rd (snd s) len (fst s); createRawStringObject cfg bs len }
      | ENC_EMBSTR s \<Rightarrow> do { len \<leftarrow> sdslen s; bs \<leftarrow> rd (snd s) len (fst s); createEmbeddedStringObject cfg (Init bs) len }
      | ENC_INT v \<Rightarrow> Some (createObject cfg (ENC_INT v)))"

section \<open>Encoding\<close>

definition isSdsRepresentableAsLongLong :: "sds \<Rightarrow> int option option" where
  "isSdsRepresentableAsLongLong s = map_option string2ll (sds_content s)"

definition isObjectRepresentableAsLongLong :: "robj \<Rightarrow> int option option" where
  "isObjectRepresentableAsLongLong ob =
     (case obj_data ob of ENC_INT v \<Rightarrow> Some (Some v) | ENC_RAW s \<Rightarrow> isSdsRepresentableAsLongLong s | ENC_EMBSTR s \<Rightarrow> isSdsRepresentableAsLongLong s)"

definition trimStringObjectIfNeeded :: "robj \<Rightarrow> robj option" where
  "trimStringObjectIfNeeded ob =
     (case obj_data ob of
        ENC_RAW s \<Rightarrow> do {
          avail \<leftarrow> sdsavail s; len \<leftarrow> sdslen s;
          if avail > len div 10 then do { s' \<leftarrow> sdsRemoveFreeSpace s; Some (ob\<lparr>obj_data := ENC_RAW s'\<rparr>) } else Some ob
        }
      | _ \<Rightarrow> Some ob)"

definition sdsEncodedObject :: "robj \<Rightarrow> bool" where
  "sdsEncodedObject ob = (case obj_data ob of ENC_INT v \<Rightarrow> False | _ \<Rightarrow> True)"

definition obj_sds :: "robj \<Rightarrow> sds option" where
  "obj_sds ob = (case obj_data ob of ENC_RAW s \<Rightarrow> Some s | ENC_EMBSTR s \<Rightarrow> Some s | ENC_INT v \<Rightarrow> None)"

text \<open>\<^verbatim>\<open>tryObjectEncoding\<close> with a value that the content denotes.\<close>

definition encode_long :: "obj_conf \<Rightarrow> robj \<Rightarrow> int \<Rightarrow> robj option" where
  "encode_long cfg ob v =
     (if (maxmemory cfg = 0 \<or> \<not> no_shared_integers cfg) \<and> 0 \<le> v \<and> v < OBJ_SHARED_INTEGERS
      then do { _ \<leftarrow> decrRefCount ob; map_option incrRefCount (shared_integer cfg v) }
      else case obj_data ob of
        ENC_RAW s \<Rightarrow> Some (ob\<lparr>obj_data := ENC_INT v\<rparr>)
      | _ \<Rightarrow> do { _ \<leftarrow> decrRefCount ob; createStringObjectFromLongLongForValue cfg v })"

definition tryObjectEncoding :: "obj_conf \<Rightarrow> robj \<Rightarrow> robj option" where
  "tryObjectEncoding cfg ob =
     (case obj_sds ob of None \<Rightarrow> Some ob
      | Some s \<Rightarrow>
        if refcount ob > 1 then Some ob
        else do {
          len \<leftarrow> sdslen s;
          bs \<leftarrow> rd (snd s) len (fst s);
          case (if len \<le> 20 then string2l bs else None) of
            Some v \<Rightarrow> encode_long cfg ob v
          | None \<Rightarrow>
            if len \<le> OBJ_ENCODING_EMBSTR_SIZE_LIMIT then
              (case obj_data ob of
                 ENC_EMBSTR s' \<Rightarrow> Some ob
               | _ \<Rightarrow> do { emb \<leftarrow> createEmbeddedStringObject cfg (Init bs) len; _ \<leftarrow> decrRefCount ob; Some emb })
            else trimStringObjectIfNeeded ob
        })"

definition getDecodedObject :: "obj_conf \<Rightarrow> robj \<Rightarrow> robj option" where
  "getDecodedObject cfg ob =
     (case obj_data ob of
        ENC_INT v \<Rightarrow> do {
          (buf, _) \<leftarrow> ll2string (replicate 32 None) 32 v;
          let str = map the (takeWhile (\<lambda>b. b \<noteq> None \<and> b \<noteq> Some 0) buf);
          createStringObject cfg str (length str)
        }
      | _ \<Rightarrow> Some (incrRefCount ob))"

section \<open>Comparison and conversion\<close>

text \<open>The bytes of an object: those of its string, or its decimal text in a buffer of 128 bytes.\<close>

definition cmp_string :: "robj \<Rightarrow> bytes option" where
  "cmp_string ob =
     (case obj_data ob of
        ENC_INT v \<Rightarrow> do { (buf, len) \<leftarrow> ll2string (replicate 128 None) 128 v; rd 0 len buf }
      | ENC_RAW s \<Rightarrow> sds_content s
      | ENC_EMBSTR s \<Rightarrow> sds_content s)"

text \<open>The binary comparison; \<open>same\<close> tells whether the two pointers are equal. The difference of the lengths is
  a \<^verbatim>\<open>size_t\<close> that is returned as an \<^verbatim>\<open>int\<close>.\<close>

definition compareStringObjects :: "bool \<Rightarrow> robj \<Rightarrow> robj \<Rightarrow> int option" where
  "compareStringObjects same a b =
     (if same then Some 0
      else do {
        astr \<leftarrow> cmp_string a;
        bstr \<leftarrow> cmp_string b;
        let minlen = (if length astr < length bstr then length astr else length bstr);
        let cmp = c_memcmp (take minlen astr) (take minlen bstr);
        Some (if cmp = 0 then signed_take_bit 31 (int (length astr) - int (length bstr)) else cmp)
      })"

definition equalStringObjects :: "bool \<Rightarrow> robj \<Rightarrow> robj \<Rightarrow> bool option" where
  "equalStringObjects same a b =
     (case (obj_data a, obj_data b) of
        (ENC_INT v, ENC_INT w) \<Rightarrow> Some (v = w)
      | _ \<Rightarrow> map_option (\<lambda>c. c = 0) (compareStringObjects same a b))"

definition stringObjectLen :: "robj \<Rightarrow> nat option" where
  "stringObjectLen ob = (case obj_data ob of ENC_INT v \<Rightarrow> Some (sdigits10 v) | ENC_RAW s \<Rightarrow> sdslen s | ENC_EMBSTR s \<Rightarrow> sdslen s)"

text \<open>The inner \<^term>\<open>None\<close> is the error code.\<close>

definition getLongLongFromObject :: "robj option \<Rightarrow> int option option" where
  "getLongLongFromObject ob =
     (case ob of
        None \<Rightarrow> Some (Some 0)
      | Some x \<Rightarrow> (case obj_data x of
          ENC_INT v \<Rightarrow> Some (Some v)
        | ENC_RAW s \<Rightarrow> map_option string2ll (sds_content s)
        | ENC_EMBSTR s \<Rightarrow> map_option string2ll (sds_content s)))"

definition getLongLongFromObjectOrReply :: "robj option \<Rightarrow> string option \<Rightarrow> (reply list + int) option" where
  "getLongLongFromObjectOrReply ob msg =
     do {
       r \<leftarrow> getLongLongFromObject ob;
       Some (case r of
         None \<Rightarrow> Inl [Error (case msg of Some m \<Rightarrow> m | None \<Rightarrow> ''value is not an integer or out of range'')]
       | Some v \<Rightarrow> Inr v)
     }"

definition getLongFromObjectOrReply :: "robj option \<Rightarrow> string option \<Rightarrow> (reply list + int) option" where
  "getLongFromObjectOrReply ob msg =
     do {
       r \<leftarrow> getLongLongFromObjectOrReply ob msg;
       Some (case r of
         Inl e \<Rightarrow> Inl e
       | Inr v \<Rightarrow> if v < INT64_MIN \<or> v > INT64_MAX
                  then Inl [Error (case msg of Some m \<Rightarrow> m | None \<Rightarrow> ''value is out of range'')] else Inr v)
     }"

section \<open>Objects as strings\<close>

definition obj_rep :: "robj \<Rightarrow> bytes \<Rightarrow> bool" where
  "obj_rep ob str \<longleftrightarrow> 1 \<le> refcount ob \<and> length str < 2 ^ 62 \<and>
     (case obj_data ob of
        ENC_RAW s \<Rightarrow> sds_rep s str
      | ENC_EMBSTR s \<Rightarrow> sds_rep s str \<and> length str < 256
      | ENC_INT v \<Rightarrow> is_int64 v \<and> str = dec_int v)"

lemma dec_int_length: "is_int64 v \<Longrightarrow> length (dec_int v) \<le> 20"
  using len_dec_le [of "nat (- v)" 19] len_dec_le [of "nat v" 19] by (auto simp: dec_int_def is_int64_def nat_less_iff)

lemma dec_int_bytes: "b \<in> set (dec_int v) \<Longrightarrow> b \<noteq> 0"
  using dec_nat_digits [of "nat v"] dec_nat_digits [of "nat (- v)"] by (auto simp: dec_int_def list_all_iff is_digit_def split: if_splits)

lemma obj_rep_int: "is_int64 v \<Longrightarrow> 1 \<le> r \<Longrightarrow> obj_rep \<lparr>obj_data = ENC_INT v, refcount = r, lru = l\<rparr> (dec_int v)"
  using dec_int_length [of v] by (simp add: obj_rep_def)

lemma ll2string_text:
  assumes "is_int64 v" "20 < n"
  shows "ll2string (replicate n None) n v = Some (map Some (dec_int v @ [0]) @ replicate (n - Suc (length (dec_int v))) None, length (dec_int v))"
  using ll2string_eq [of v n "replicate n None"] assms dec_int_length [of v] by simp

lemma embedded_rep:
  assumes "n \<le> length bs" "n < 256"
  shows "\<exists>s. createEmbeddedStringObject cfg (Init bs) n = Some (createObject cfg (ENC_EMBSTR s)) \<and> sds_rep s (take n bs)"
proof -
  have m: "replicate (3 + n + 1) None = None # None # None # replicate n None @ [None]"
    by (simp add: numeral_3_eq_3 replicate_append_same)
  have "le_enc 1 (int n) = [of_nat n]" by (simp add: le_enc_def)
  then have "createEmbeddedStringObject cfg (Init bs) n = Some (createObject cfg (ENC_EMBSTR (sds_of 1 (take n bs) [])))"
    using assms(1) unfolding createEmbeddedStringObject_def m
    by (simp add: hdr_wr_def sds_wr_def wr_def sds_of_def hdr_bytes_def sdshdr_width_def sdsHdrSize_def numeral_3_eq_3 numeral_2_eq_2)
  moreover have "sds_ok 1 (take n bs) []" using assms by (simp add: sds_ok_def hdr_cap_def sdshdr_width_def)
  ultimately show ?thesis using sds_repI by blast
qed

lemma rep_intro:
  "sds_rep s str \<Longrightarrow> length str < 2 ^ 62 \<Longrightarrow> obj_rep (createObject cfg (ENC_RAW s)) str"
  "sds_rep s str \<Longrightarrow> length str < 256 \<Longrightarrow> obj_rep (createObject cfg (ENC_EMBSTR s)) str"
  "is_int64 v \<Longrightarrow> obj_rep (createObject cfg (ENC_INT v)) (dec_int v)"
  using dec_int_length [of v] by (simp_all add: obj_rep_def createObject_def)

lemma emb_obj_rep:
  "n \<le> length bs \<Longrightarrow> n < 256 \<Longrightarrow>
   \<exists>ob. createEmbeddedStringObject cfg (Init bs) n = Some ob \<and> obj_rep ob (take n bs) \<and> sdsEncodedObject ob \<and> refcount ob = 1"
  using embedded_rep [of n bs cfg] rep_intro(2) by (force simp: sdsEncodedObject_def createObject_def)

lemma raw_obj_rep:
  "n \<le> length bs \<Longrightarrow> n < 2 ^ 62 \<Longrightarrow>
   \<exists>ob. createRawStringObject cfg bs n = Some ob \<and> obj_rep ob (take n bs) \<and> sdsEncodedObject ob \<and> refcount ob = 1"
  using newlen_rep [of n bs] rep_intro(1) by (force simp: createRawStringObject_def sdsEncodedObject_def createObject_def)

lemma create_obj_rep:
  "n \<le> length bs \<Longrightarrow> n < 2 ^ 62 \<Longrightarrow>
   \<exists>ob. createStringObject cfg bs n = Some ob \<and> obj_rep ob (take n bs) \<and> sdsEncodedObject ob \<and> refcount ob = 1"
  using emb_obj_rep [of n bs cfg] raw_obj_rep [of n bs cfg]
  by (simp add: createStringObject_def OBJ_ENCODING_EMBSTR_SIZE_LIMIT_def)

lemma shared_rep: "is_int64 v \<Longrightarrow> \<exists>ob. map_option incrRefCount (shared_integer cfg v) = Some ob \<and> obj_rep ob (dec_int v)"
  using obj_rep_int [of v OBJ_SHARED_REFCOUNT]
  by (simp add: shared_integer_def makeObjectShared_def createObject_def incrRefCount_def OBJ_SHARED_REFCOUNT_def)

lemma from_ll_rep: "is_int64 v \<Longrightarrow> \<exists>ob. createStringObjectFromLongLongWithOptions cfg v b = Some ob \<and> obj_rep ob (dec_int v)"
  using shared_rep [of v cfg] rep_intro(3) [of v cfg] by (simp add: createStringObjectFromLongLongWithOptions_def Let_def)

lemma decr_ok: "1 \<le> refcount ob \<Longrightarrow> \<exists>r. decrRefCount ob = Some r"
  by (simp add: decrRefCount_def)

lemma string2l_eq: "string2l s = string2ll s"
  using string2ll_eq [of s "the (string2ll s)"] by (cases "string2ll s") (auto simp: string2l_def is_int64_def)

lemma string2ll_dec_int: "is_int64 v \<Longrightarrow> string2ll (dec_int v) = Some v"
  by (simp add: string2ll_eq)

lemma encode_long_rep:
  assumes "obj_rep ob (dec_int v)" "is_int64 v"
  shows "\<exists>ob'. encode_long cfg ob v = Some ob' \<and> obj_rep ob' (dec_int v)"
proof -
  obtain r where "decrRefCount ob = Some r" using decr_ok assms(1) by (auto simp: obj_rep_def)
  then show ?thesis using shared_rep [OF assms(2), of cfg] from_ll_rep [OF assms(2), of cfg True] assms
    by (auto simp: encode_long_def createStringObjectFromLongLongForValue_def obj_rep_def split: obj_data.splits)
qed

lemma trim_obj_rep: "obj_rep ob str \<Longrightarrow> \<exists>ob'. trimStringObjectIfNeeded ob = Some ob' \<and> obj_rep ob' str"
proof (cases "obj_data ob")
  case (ENC_RAW s)
  assume rep: "obj_rep ob str"
  then have s: "sds_rep s str" "length str < 2 ^ 62" using ENC_RAW by (simp_all add: obj_rep_def)
  then obtain a where "sdsavail s = Some a" by (auto simp: sds_rep_def sdsavail_of)
  then show ?thesis using removefree_rep [OF s] sdslen_rep [OF s(1)] rep ENC_RAW
    by (auto simp: trimStringObjectIfNeeded_def obj_rep_def)
qed (auto simp: trimStringObjectIfNeeded_def)

lemma obj_sds_rep: "obj_rep ob str \<Longrightarrow> obj_sds ob = Some s \<Longrightarrow> sds_rep s str"
  by (auto simp: obj_rep_def obj_sds_def split: obj_data.splits)

lemma tryObjectEncoding_rep:
  assumes "obj_rep ob str"
  shows "\<exists>ob'. tryObjectEncoding cfg ob = Some ob' \<and> obj_rep ob' str"
proof (cases "obj_sds ob")
  case None
  then show ?thesis using assms by (simp add: tryObjectEncoding_def)
next
  case (Some s)
  note s = obj_sds_rep [OF assms Some]
  have rd: "sdslen s = Some (length str)" "rd (snd s) (length str) (fst s) = Some str"
    using sdslen_rep [OF s] prefix_rep [OF s, of "length str"] by simp_all
  obtain r where r: "decrRefCount ob = Some r" using decr_ok assms by (auto simp: obj_rep_def)
  show ?thesis
  proof (cases "if length str \<le> 20 then string2l str else None")
    case (Some v)
    then have "is_int64 v" "str = dec_int v" by (auto simp: string2l_eq string2ll_eq split: if_splits)
    moreover have "tryObjectEncoding cfg ob = (if refcount ob > 1 then Some ob else encode_long cfg ob v)"
      using Some rd \<open>obj_sds ob = Some s\<close> by (simp add: tryObjectEncoding_def)
    ultimately show ?thesis using encode_long_rep [of ob v cfg] assms by simp
  next
    case None
    then show ?thesis using \<open>obj_sds ob = Some s\<close> rd r assms trim_obj_rep [OF assms] emb_obj_rep [of "length str" str cfg]
      by (auto simp: tryObjectEncoding_def OBJ_ENCODING_EMBSTR_SIZE_LIMIT_def split: obj_data.splits)
  qed
qed

lemma getDecodedObject_rep:
  assumes "obj_rep ob str"
  shows "\<exists>d s. getDecodedObject cfg ob = Some d \<and> obj_rep d str \<and> obj_sds d = Some s \<and> sds_rep s str"
proof (cases "obj_data ob")
  case (ENC_INT v)
  then have v: "is_int64 v" "str = dec_int v" using assms by (auto simp: obj_rep_def)
  have "takeWhile (\<lambda>b. b \<noteq> None \<and> b \<noteq> Some 0) (map Some xs @ Some 0 # rest) = map Some xs" if "\<forall>b \<in> set xs. b \<noteq> 0" for xs :: bytes and rest
    using that by (induction xs) auto
  then have "takeWhile (\<lambda>b. b \<noteq> None \<and> b \<noteq> Some 0) (map Some (dec_int v @ [0]) @ rest) = map Some (dec_int v)" for rest
    using dec_int_bytes [of _ v] by simp
  then have "getDecodedObject cfg ob = createStringObject cfg str (length str)"
    using ENC_INT ll2string_text [OF v(1), of 32] v(2) by (simp add: getDecodedObject_def comp_def)
  moreover obtain d where "createStringObject cfg str (length str) = Some d" "obj_rep d str" "sdsEncodedObject d"
    using create_obj_rep [of "length str" str cfg] assms by (auto simp: obj_rep_def)
  ultimately show ?thesis using obj_sds_rep [of d str]
    by (auto simp: obj_sds_def sdsEncodedObject_def split: obj_data.splits)
qed (use assms in \<open>auto simp: obj_rep_def getDecodedObject_def obj_sds_def incrRefCount_def\<close>)

lemma stringObjectLen_rep: "obj_rep ob str \<Longrightarrow> stringObjectLen ob = Some (length str)"
  by (auto simp: obj_rep_def stringObjectLen_def sdslen_rep sdigits10_correct split: obj_data.splits)

lemma getLongLongFromObject_rep: "obj_rep ob str \<Longrightarrow> getLongLongFromObject (Some ob) = Some (string2ll str)"
  by (auto simp: obj_rep_def getLongLongFromObject_def content_rep string2ll_dec_int split: obj_data.splits)

lemma cmp_string_rep:
  assumes "obj_rep ob str"
  shows "cmp_string ob = Some str"
proof (cases "obj_data ob")
  case (ENC_INT v)
  then have v: "is_int64 v" "str = dec_int v" using assms by (auto simp: obj_rep_def)
  show ?thesis using ENC_INT ll2string_text [OF v(1), of 128] v(2) by (simp add: cmp_string_def rd_def)
qed (use assms in \<open>auto simp: obj_rep_def cmp_string_def content_rep\<close>)

lemma compare_rep:
  assumes "obj_rep a x" "obj_rep b y" "same \<Longrightarrow> x = y"
  shows "compareStringObjects same a b = Some (if c_memcmp (take (min (length x) (length y)) x) (take (min (length x) (length y)) y) = 0
    then signed_take_bit 31 (int (length x) - int (length y)) else c_memcmp (take (min (length x) (length y)) x) (take (min (length x) (length y)) y))"
proof -
  have "c_memcmp z z = 0" for z by (induction z) auto
  moreover have "(if length x < length y then length x else length y) = min (length x) (length y)" by simp
  ultimately show ?thesis using assms cmp_string_rep [OF assms(1)] cmp_string_rep [OF assms(2)]
    unfolding compareStringObjects_def by (auto simp: Let_def)
qed

section \<open>Properties\<close>

text \<open>
  Property C16. \<^verbatim>\<open>tryObjectEncoding\<close> never changes the value of a string object, whatever its encoding, reference
  count and the eviction policy: the object it returns has the same bytes, and the length, the decoded
  string and the integer value that commands read from it are those of the bytes.
\<close>

theorem encoding_transparent:
  assumes "obj_rep ob str"
  shows "\<exists>ob'. tryObjectEncoding cfg ob = Some ob' \<and> obj_rep ob' str \<and> stringObjectLen ob' = Some (length str) \<and>
    (\<exists>d s. getDecodedObject cfg ob' = Some d \<and> obj_sds d = Some s \<and> sds_content s = Some str) \<and>
    getLongLongFromObject (Some ob') = Some (string2ll str) \<and> getLongLongFromObject (Some ob) = Some (string2ll str)"
proof -
  obtain ob' where ob': "tryObjectEncoding cfg ob = Some ob'" "obj_rep ob' str" using tryObjectEncoding_rep [OF assms] by blast
  obtain d s where "getDecodedObject cfg ob' = Some d" "obj_sds d = Some s" "sds_rep s str"
    using getDecodedObject_rep [OF ob'(2)] by blast
  then show ?thesis
    using ob' stringObjectLen_rep [OF ob'(2)] getLongLongFromObject_rep [OF ob'(2)] getLongLongFromObject_rep [OF assms] content_rep by blast
qed

theorem encoding_transparent_witness:
  "\<exists>ob ob'. createStringObject \<lparr>maxmemory = 0, no_shared_integers = False, lru_now = 0\<rparr> (ascii ''1234'') 4 = Some ob \<and>
     tryObjectEncoding \<lparr>maxmemory = 0, no_shared_integers = False, lru_now = 0\<rparr> ob = Some ob' \<and> stringObjectLen ob' = Some 4"
proof -
  obtain ob where ob: "createStringObject \<lparr>maxmemory = 0, no_shared_integers = False, lru_now = 0\<rparr> (ascii ''1234'') 4 = Some ob"
    "obj_rep ob (ascii ''1234'')"
    using create_obj_rep [of 4 "ascii ''1234''" "\<lparr>maxmemory = 0, no_shared_integers = False, lru_now = 0\<rparr>"] by (auto simp: ascii_def)
  then show ?thesis
    using encoding_transparent [OF ob(2), of "\<lparr>maxmemory = 0, no_shared_integers = False, lru_now = 0\<rparr>"] by (auto simp: ascii_def)
qed

lemma compare_sign:
  assumes "obj_rep a x" "obj_rep b y" "\<bar>int (length x) - int (length y)\<bar> < 2 ^ 31"
  shows "\<exists>c. compareStringObjects False a b = Some c \<and> (c < 0 \<longleftrightarrow> sds_compare x y < 0) \<and> (c = 0 \<longleftrightarrow> sds_compare x y = 0)"
proof -
  let ?d = "int (length x) - int (length y)"
  have "signed_take_bit 31 ?d = ?d" using assms(3) by (intro signed_take_bit_int_eq_self) auto
  then show ?thesis using compare_rep [OF assms(1,2), of False] by (auto simp: sds_compare_def)
qed

text \<open>
  Property C38. For strings whose lengths differ by less than two gigabytes, \<^verbatim>\<open>compareStringObjects\<close> orders string objects
  lexicographically by their bytes, whatever their encodings, and \<^verbatim>\<open>equalStringObjects\<close> decides equality of the bytes.
\<close>

theorem compare_objects:
  assumes "obj_rep a x" "obj_rep b y" "\<bar>int (length x) - int (length y)\<bar> < 2 ^ 31"
  shows "(\<exists>c. compareStringObjects False a b = Some c \<and> (c < 0 \<longleftrightarrow> (x, y) \<in> lexord {(x, y). x < y}) \<and> (c = 0 \<longleftrightarrow> x = y)) \<and>
    equalStringObjects False a b = Some (x = y)"
proof -
  have int_eq: "v = w \<longleftrightarrow> x = y" if "obj_data a = ENC_INT v" "obj_data b = ENC_INT w" for v w
    using that assms(1,2) string2ll_dec_int by (auto simp: obj_rep_def) (metis option.inject)
  obtain c where "compareStringObjects False a b = Some c" "c < 0 \<longleftrightarrow> (x, y) \<in> lexord {(x, y). x < y}" "c = 0 \<longleftrightarrow> x = y"
    using compare_sign [OF assms] sds_compare_lex by metis
  then show ?thesis using int_eq by (auto simp: equalStringObjects_def split: obj_data.splits)
qed

theorem compare_objects_witness:
  "\<exists>a b. createStringObject \<lparr>maxmemory = 0, no_shared_integers = False, lru_now = 0\<rparr> (ascii ''12'') 2 = Some a \<and>
     tryObjectEncoding \<lparr>maxmemory = 0, no_shared_integers = False, lru_now = 0\<rparr> a = Some b \<and> equalStringObjects False a b = Some True"
proof -
  let ?cfg = "\<lparr>maxmemory = 0, no_shared_integers = False, lru_now = 0\<rparr>"
  obtain a where a: "createStringObject ?cfg (ascii ''12'') 2 = Some a" "obj_rep a (ascii ''12'')"
    using create_obj_rep [of 2 "ascii ''12''" ?cfg] by (auto simp: ascii_def)
  obtain b where "tryObjectEncoding ?cfg a = Some b" "obj_rep b (ascii ''12'')" using tryObjectEncoding_rep [OF a(2)] by blast
  then show ?thesis using compare_objects [OF a(2), of b] a(1) by auto
qed

text \<open>The bound is needed: the difference of the lengths is cut to an \<^verbatim>\<open>int\<close>, so that four gigabytes of zero bytes
  compare equal to the empty string.\<close>

theorem compare_truncates:
  "\<exists>a b. obj_rep a (replicate (2 ^ 32) 0) \<and> obj_rep b [] \<and> compareStringObjects False a b = Some 0"
proof -
  let ?cfg = "\<lparr>maxmemory = 0, no_shared_integers = False, lru_now = 0\<rparr>"
  obtain a where a: "obj_rep a (replicate (2 ^ 32) 0)" using raw_obj_rep [of "2 ^ 32" "replicate (2 ^ 32) 0" ?cfg] by auto
  obtain b where b: "obj_rep b []" using raw_obj_rep [of 0 "[]" ?cfg] by auto
  show ?thesis using compare_rep [OF a b, of False] a b by auto
qed

end
