(* ===== verification/Aof.thy ===== *)
theory Aof
  imports Robj Resp_Stream
begin

text \<open>
  The append only file (aof.c): the encoding of commands as they are appended to the file, with the translation of
  relative expires, and the buffer of blocks that accumulates the commands executed while a child process
  rewrites the file. Results of \<^verbatim>\<open>write\<close> calls are arguments. The encoding is shown to be read back exactly
  by the request parser (theory Resp\_Stream); the block buffer is shown to be a queue of bytes, through
  the contract \<open>byte_queue\<close>.
\<close>

declare split_paired_Ex [simp del] split_paired_All [simp del]

section \<open>Encoding commands\<close>

text \<open>The header of a bulk: the character \<open>c\<close>, a number and the line end, composed in the local buffer \<open>buf\<close>.\<close>

definition proto_header :: "mem \<Rightarrow> u8 \<Rightarrow> int \<Rightarrow> (mem \<times> bytes) option" where
  "proto_header buf c n =
     do {
       buf1 \<leftarrow> wr 0 [c] buf;
       (tail, l) \<leftarrow> ll2string (drop 1 buf1) (length buf - 1) n;
       let len = 1 + l;
       buf2 \<leftarrow> wr len [0x0D] (take 1 buf1 @ tail);
       buf3 \<leftarrow> wr (len + 1) [0x0A] buf2;
       bs \<leftarrow> rd 0 (len + 2) buf3;
       Some (buf3, bs)
     }"

fun cat_args :: "obj_conf \<Rightarrow> mem \<Rightarrow> sds \<Rightarrow> robj list \<Rightarrow> sds option" where
  "cat_args cfg buf dst [] = Some dst"
| "cat_args cfg buf dst (arg # args) =
     do {
       d \<leftarrow> getDecodedObject cfg arg;
       s \<leftarrow> obj_sds d;
       len \<leftarrow> sdslen s;
       (buf', h) \<leftarrow> proto_header buf 0x24 (int len);
       dst1 \<leftarrow> sdscatlen dst h;
       bs \<leftarrow> rd (snd s) len (fst s);
       dst2 \<leftarrow> sdscatlen dst1 bs;
       dst3 \<leftarrow> sdscatlen dst2 [0x0D, 0x0A];
       _ \<leftarrow> decrRefCount d;
       cat_args cfg buf' dst3 args
     }"

definition catAppendOnlyGenericCommand :: "obj_conf \<Rightarrow> sds \<Rightarrow> robj list \<Rightarrow> sds option" where
  "catAppendOnlyGenericCommand cfg dst objs =
     do {
       (buf, h) \<leftarrow> proto_header (replicate 32 None) 0x2A (int (length objs));
       dst1 \<leftarrow> sdscatlen dst h;
       cat_args cfg buf dst1 objs
     }"

text \<open>The commands that \<^verbatim>\<open>feedAppendOnlyFile\<close> tells apart.\<close>

datatype aof_cmd = Expire | Pexpire | Expireat | Setex | Psetex | Set | OtherCmd

text \<open>\<^verbatim>\<open>strtoll\<close> in base ten: leading spaces, a sign, digits up to the first other byte, a saturated result.\<close>

definition c_strtoll :: "bytes \<Rightarrow> int" where
  "c_strtoll str =
     (let s = dropWhile c_isspace str;
          negative = (s \<noteq> [] \<and> hd s = 0x2D);
          ds = takeWhile is_digit (if s \<noteq> [] \<and> (hd s = 0x2D \<or> hd s = 0x2B) then tl s else s);
          v = (if negative then - dec_val 0 ds else dec_val 0 ds) in
      max INT64_MIN (min INT64_MAX v))"

text \<open>Signed arithmetic that must not overflow.\<close>

definition ll_checked :: "int \<Rightarrow> int option" where
  "ll_checked v = (if is_int64 v then Some v else None)"

definition catAppendOnlyExpireAtCommand :: "obj_conf \<Rightarrow> int \<Rightarrow> sds \<Rightarrow> aof_cmd \<Rightarrow> robj \<Rightarrow> robj \<Rightarrow> sds option" where
  "catAppendOnlyExpireAtCommand cfg mstime buf cmd key seconds =
     do {
       d \<leftarrow> getDecodedObject cfg seconds;
       s \<leftarrow> obj_sds d;
       str \<leftarrow> sds_content s;
       let when0 = c_strtoll str;
       when1 \<leftarrow> (if cmd = Expire \<or> cmd = Setex \<or> cmd = Expireat then ll_checked (when0 * 1000) else Some when0);
       when2 \<leftarrow> (if cmd = Expire \<or> cmd = Pexpire \<or> cmd = Setex \<or> cmd = Psetex then ll_checked (when1 + mstime) else Some when1);
       _ \<leftarrow> decrRefCount d;
       a0 \<leftarrow> createStringObject cfg (ascii ''PEXPIREAT'') 9;
       a2 \<leftarrow> createStringObjectFromLongLong cfg when2;
       buf' \<leftarrow> catAppendOnlyGenericCommand cfg buf [a0, key, a2];
       _ \<leftarrow> decrRefCount a0;
       _ \<leftarrow> decrRefCount a2;
       Some buf'
     }"

section \<open>The rewrite buffer\<close>

definition AOF_RW_BUF_BLOCK_SIZE :: nat where "AOF_RW_BUF_BLOCK_SIZE = 1024 * 1024 * 10"

record aofrwblock =
  used :: nat
  free :: nat
  rwbuf :: mem

definition new_block :: aofrwblock where
  "new_block = \<lparr>used = 0, free = AOF_RW_BUF_BLOCK_SIZE, rwbuf = replicate AOF_RW_BUF_BLOCK_SIZE None\<rparr>"

definition aofRewriteBufferReset :: "aofrwblock list \<Rightarrow> aofrwblock list" where
  "aofRewriteBufferReset blocks = []"

definition aofRewriteBufferSize :: "aofrwblock list \<Rightarrow> nat" where
  "aofRewriteBufferSize blocks = foldl (\<lambda>size block. size + used block) 0 blocks"

text \<open>The part of an iteration that fills the last block.\<close>

definition fill_block :: "aofrwblock \<Rightarrow> bytes \<Rightarrow> (aofrwblock \<times> bytes) option" where
  "fill_block block s =
     (let thislen = (if free block < length s then free block else length s) in
      if thislen \<noteq> 0 then do {
        m \<leftarrow> wr (used block) (take thislen s) (rwbuf block);
        Some (block\<lparr>rwbuf := m, used := used block + thislen, free := free block - thislen\<rparr>, drop thislen s)
      } else Some (block, s))"

definition fill_last :: "aofrwblock list \<Rightarrow> bytes \<Rightarrow> (aofrwblock list \<times> bytes) option" where
  "fill_last blocks s =
     (if blocks = [] then Some (blocks, s)
      else do { (b, s') \<leftarrow> fill_block (last blocks) s; Some (butlast blocks @ [b], s') })"

definition room :: "aofrwblock list \<Rightarrow> nat" where
  "room blocks = (if blocks = [] then 0 else free (last blocks))"

lemma fill_last_length: "fill_last blocks s = Some (blocks', s') \<Longrightarrow> length s' = length s - room blocks"
  by (auto simp: fill_last_def fill_block_def room_def Let_def split: if_splits bind_splits)

lemma room_new: "room (blocks @ [new_block]) = AOF_RW_BUF_BLOCK_SIZE" "0 < AOF_RW_BUF_BLOCK_SIZE"
  by (simp_all add: room_def new_block_def AOF_RW_BUF_BLOCK_SIZE_def)

function aofRewriteBufferAppend :: "aofrwblock list \<Rightarrow> bytes \<Rightarrow> aofrwblock list option" where
  "aofRewriteBufferAppend blocks s =
     (if s = [] then Some blocks
      else case fill_last blocks s of
        None \<Rightarrow> None
      | Some (blocks', s') \<Rightarrow> if s' = [] then Some blocks' else aofRewriteBufferAppend (blocks' @ [new_block]) s')"
  by pat_completeness auto
termination
proof (relation "measure (\<lambda>(blocks, s). 2 * length s + (if room blocks = 0 then 1 else 0))")
  fix blocks s x blocks' s'
  assume "s \<noteq> []" "fill_last blocks s = Some x" "(blocks', s') = x" "s' \<noteq> []"
  then have "length s' = length s - room blocks" "0 < length s" using fill_last_length [of blocks s] by auto
  then show "((blocks' @ [new_block], s'), blocks, s) \<in> measure (\<lambda>(blocks, s). 2 * length s + (if room blocks = 0 then 1 else 0))"
    using room_new by simp
qed simp

declare aofRewriteBufferAppend.simps [simp del]

definition send_block :: "aofrwblock \<Rightarrow> nat \<Rightarrow> (aofrwblock \<times> bytes) option" where
  "send_block block nwritten =
     do {
       out \<leftarrow> rd 0 nwritten (rwbuf block);
       m \<leftarrow> memmove 0 nwritten (used block - nwritten) (rwbuf block);
       Some (block\<lparr>rwbuf := m, used := used block - nwritten, free := free block + nwritten\<rparr>, out)
     }"

text \<open>The event handler that sends the buffer to the child. The list has, for each \<^verbatim>\<open>write\<close> call, how many bytes the
  pipe accepts (0 stands for an error too); when it ends, the next call would block. The results are the blocks left, the bytes
  sent and whether the handler was removed.\<close>

fun aofChildWriteDiffData :: "bool \<Rightarrow> aofrwblock list \<Rightarrow> bytes \<Rightarrow> nat list \<Rightarrow> (aofrwblock list \<times> bytes \<times> bool) option" where
  "aofChildWriteDiffData stop [] sent ws = Some ([], sent, True)"
| "aofChildWriteDiffData stop (block # blocks) sent ws =
     (if stop then Some (block # blocks, sent, True)
      else if used block = 0 then aofChildWriteDiffData stop blocks sent ws
      else case ws of
        [] \<Rightarrow> Some (block # blocks, sent, False)
      | accepted # ws' \<Rightarrow>
        let nwritten = min accepted (used block) in
        if nwritten = 0 then Some (block # blocks, sent, False)
        else case send_block block nwritten of
          None \<Rightarrow> None
        | Some (block', out) \<Rightarrow>
          if used block' = 0 then aofChildWriteDiffData stop blocks (sent @ out) ws'
          else aofChildWriteDiffData stop (block' # blocks) (sent @ out) ws')"

text \<open>Writing the whole buffer to a file: the bytes written and the result of the function.\<close>

fun aofRewriteBufferWrite :: "aofrwblock list \<Rightarrow> nat list \<Rightarrow> bytes \<Rightarrow> int \<Rightarrow> (bytes \<times> int) option" where
  "aofRewriteBufferWrite [] ws out count = Some (out, count)"
| "aofRewriteBufferWrite (block # blocks) ws out count =
     (if used block \<noteq> 0 then
        case ws of
          [] \<Rightarrow> Some (out, - 1)
        | accepted # ws' \<Rightarrow>
          let nwritten = min accepted (used block) in
          do {
            bs \<leftarrow> rd 0 nwritten (rwbuf block);
            if nwritten \<noteq> used block then Some (out @ bs, - 1)
            else aofRewriteBufferWrite blocks ws' (out @ bs) (count + int nwritten)
          }
      else aofRewriteBufferWrite blocks ws out count)"

section \<open>Feeding the file\<close>

record aof_state =
  aof_buf :: sds
  aof_selected_db :: int
  aof_on :: bool
  aof_child :: bool
  rw_blocks :: "aofrwblock list"

text \<open>The text that \<^verbatim>\<open>sdscatprintf\<close> gives for the SELECT command.\<close>

definition select_text :: "int \<Rightarrow> bytes" where
  "select_text dictid = ascii ''*2'' @ [0x0D, 0x0A] @ ascii ''$6'' @ [0x0D, 0x0A] @ ascii ''SELECT'' @ [0x0D, 0x0A] @
     0x24 # dec_nat (length (dec_int dictid)) @ [0x0D, 0x0A] @ dec_int dictid @ [0x0D, 0x0A]"

text \<open>The loop that looks for EX and PX; an option that is the last argument reads past the vector.\<close>

fun set_scan :: "robj list \<Rightarrow> robj option \<Rightarrow> robj option \<Rightarrow> (robj option \<times> robj option) option" where
  "set_scan [] exarg pxarg = Some (exarg, pxarg)"
| "set_scan (arg # args) exarg pxarg =
     do {
       s \<leftarrow> obj_sds arg;
       str \<leftarrow> sds_content s;
       exarg' \<leftarrow> (if strcaseeq str ''ex'' then map_option Some (nth_opt args 0) else Some exarg);
       pxarg' \<leftarrow> (if strcaseeq str ''px'' then map_option Some (nth_opt args 0) else Some pxarg);
       set_scan args exarg' pxarg'
     }"

definition feed_set :: "obj_conf \<Rightarrow> int \<Rightarrow> sds \<Rightarrow> robj list \<Rightarrow> sds option" where
  "feed_set cfg mstime buf objs =
     do {
       buf1 \<leftarrow> catAppendOnlyGenericCommand cfg buf (take 3 objs);
       (exarg, pxarg) \<leftarrow> set_scan (drop 3 objs) None None;
       if exarg \<noteq> None \<and> pxarg \<noteq> None then None
       else do {
         key \<leftarrow> nth_opt objs 1;
         buf2 \<leftarrow> (case exarg of Some x \<Rightarrow> catAppendOnlyExpireAtCommand cfg mstime buf1 Expire key x | None \<Rightarrow> Some buf1);
         (case pxarg of Some x \<Rightarrow> catAppendOnlyExpireAtCommand cfg mstime buf2 Pexpire key x | None \<Rightarrow> Some buf2)
       }
     }"

text \<open>The bytes for one command, without the SELECT.\<close>

definition feed_cmd :: "obj_conf \<Rightarrow> int \<Rightarrow> sds \<Rightarrow> aof_cmd \<Rightarrow> robj list \<Rightarrow> sds option" where
  "feed_cmd cfg mstime buf cmd objs =
     (if cmd = Expire \<or> cmd = Pexpire \<or> cmd = Expireat then do {
        key \<leftarrow> nth_opt objs 1;
        seconds \<leftarrow> nth_opt objs 2;
        catAppendOnlyExpireAtCommand cfg mstime buf cmd key seconds
      }
      else if cmd = Setex \<or> cmd = Psetex then do {
        a0 \<leftarrow> createStringObject cfg (ascii ''SET'') 3;
        key \<leftarrow> nth_opt objs 1;
        val \<leftarrow> nth_opt objs 3;
        buf1 \<leftarrow> catAppendOnlyGenericCommand cfg buf [a0, key, val];
        _ \<leftarrow> decrRefCount a0;
        seconds \<leftarrow> nth_opt objs 2;
        catAppendOnlyExpireAtCommand cfg mstime buf1 cmd key seconds
      }
      else if cmd = Set \<and> length objs > 3 then feed_set cfg mstime buf objs
      else catAppendOnlyGenericCommand cfg buf objs)"

definition feedAppendOnlyFile :: "obj_conf \<Rightarrow> int \<Rightarrow> aof_state \<Rightarrow> aof_cmd \<Rightarrow> int \<Rightarrow> robj list \<Rightarrow> aof_state option" where
  "feedAppendOnlyFile cfg mstime st cmd dictid objs =
     do {
       buf0 \<leftarrow> sdsempty ();
       (buf1, st1) \<leftarrow> (if dictid \<noteq> aof_selected_db st
          then do { b \<leftarrow> sdscatlen buf0 (select_text dictid); Some (b, st\<lparr>aof_selected_db := dictid\<rparr>) }
          else Some (buf0, st));
       buf2 \<leftarrow> feed_cmd cfg mstime buf1 cmd objs;
       bs \<leftarrow> sds_content buf2;
       st2 \<leftarrow> (if aof_on st1 then do { b \<leftarrow> sdscatlen (aof_buf st1) bs; Some (st1\<lparr>aof_buf := b\<rparr>) } else Some st1);
       if aof_child st2 then do { blocks \<leftarrow> aofRewriteBufferAppend (rw_blocks st2) bs; Some (st2\<lparr>rw_blocks := blocks\<rparr>) }
       else Some st2
     }"

section \<open>The encoding is the request format\<close>

lemma proto_header_eq:
  assumes "is_int64 n" "24 \<le> length buf"
  shows "\<exists>buf'. proto_header buf c n = Some (buf', c # dec_int n @ [0x0D, 0x0A]) \<and> length buf' = length buf"
proof -
  obtain b0 tl where buf: "buf = b0 # tl" "23 \<le> length tl" using assms(2) by (cases buf) auto
  define d where "d = dec_int n"
  have d: "length d \<le> 20" using dec_int_length [OF assms(1)] by (simp add: d_def)
  obtain x r where x: "drop (Suc (length d)) tl = x # r" using buf(2) d by (cases "drop (Suc (length d)) tl") auto
  have "ll2string tl (length tl) n = Some (map Some d @ Some 0 # x # r, length d)"
    using ll2string_eq [OF assms(1), of "length tl" tl] buf(2) d x by (simp add: d_def)
  moreover have "wr (Suc (length d)) [0x0D] (Some c # map Some d @ Some 0 # x # r) = Some (Some c # map Some d @ Some 0x0D # x # r)"
    by (simp add: wr_def)
  moreover have "wr (Suc (Suc (length d))) [0x0A] (Some c # map Some d @ Some 0x0D # x # r) = Some (Some c # map Some d @ Some 0x0D # Some 0x0A # r)"
    by (simp add: wr_def)
  moreover have "rd 0 (Suc (Suc (Suc (length d)))) (Some c # map Some d @ Some 0x0D # Some 0x0A # r) = Some (c # d @ [0x0D, 0x0A])"
    using those_map_Some [of "c # d @ [0x0D, 0x0A]"] by (simp add: rd_def)
  moreover have "wr 0 [c] buf = Some (Some c # tl)" by (simp add: wr_def buf)
  moreover have "length tl = Suc (length d) + Suc (length r)" using arg_cong [OF x, of length] buf(2) d by simp
  ultimately show ?thesis by (simp add: proto_header_def buf(1) d_def)
qed

lemma dec_int_nat: "dec_int (int n) = dec_nat n"
  by (simp add: dec_int_def)

lemma cat_args_rep:
  "list_all2 obj_rep objs args \<Longrightarrow> sds_rep dst str \<Longrightarrow> 24 \<le> length buf \<Longrightarrow> length str + length (enc_args args) < 2 ^ 62 \<Longrightarrow>
   \<exists>d. cat_args cfg buf dst objs = Some d \<and> sds_rep d (str @ enc_args args)"
proof (induction objs args arbitrary: dst str buf rule: list_all2_induct)
  case Nil
  then show ?case by simp
next
  case (Cons ob objs a args)
  obtain d s where d: "getDecodedObject cfg ob = Some d" "obj_rep d a" "obj_sds d = Some s" "sds_rep s a"
    using getDecodedObject_rep [OF Cons.hyps(1)] by blast
  have s: "sdslen s = Some (length a)" "rd (snd s) (length a) (fst s) = Some a"
    using sdslen_rep [OF d(4)] prefix_rep [OF d(4), of "length a"] by simp_all
  have len: "length str + (length (dec_nat (length a)) + length a + 5) + length (enc_args args) < 2 ^ 62"
    using Cons.prems(3) by (simp add: enc_arg_def)
  have "is_int64 (int (length a))" using len by (simp add: is_int64_def)
  then obtain buf' where h: "proto_header buf 0x24 (int (length a)) = Some (buf', 0x24 # dec_nat (length a) @ [0x0D, 0x0A])"
    "24 \<le> length buf'"
    using proto_header_eq [of "int (length a)" buf] Cons.prems(2) by (metis dec_int_nat)
  obtain d3 where d3: "do { s1 \<leftarrow> sdscatlen dst (0x24 # dec_nat (length a) @ [0x0D, 0x0A]); s2 \<leftarrow> sdscatlen s1 a; sdscatlen s2 [0x0D, 0x0A] } = Some d3"
    "sds_rep d3 (str @ enc_arg a)"
    using sdsbuf.cat_all_holds [OF Cons.prems(1), of "[0x24 # dec_nat (length a) @ [0x0D, 0x0A], a, [0x0D, 0x0A]]"] len
    by (auto simp: enc_arg_def bind_assoc)
  obtain r where "decrRefCount d = Some r" using decr_ok d(2) by (auto simp: obj_rep_def)
  moreover obtain d4 where "cat_args cfg buf' d3 objs = Some d4" "sds_rep d4 ((str @ enc_arg a) @ enc_args args)"
    using Cons.IH [OF d3(2) h(2)] Cons.prems(3) by auto
  ultimately show ?case using d(1,3) s h(1) d3(1) by (auto split: bind_splits)
qed

lemma generic_rep:
  assumes "list_all2 obj_rep objs args" "sds_rep dst str" "length str + length (enc_cmd args) < 2 ^ 62"
  shows "\<exists>d. catAppendOnlyGenericCommand cfg dst objs = Some d \<and> sds_rep d (str @ enc_cmd args)"
proof -
  have n: "length objs = length args" using assms(1) by (rule list_all2_lengthD)
  have "length args \<le> length (enc_args args)"
    by (induction args) (auto simp: enc_arg_def)
  then have "is_int64 (int (length args))" using assms(3) by (simp add: is_int64_def enc_cmd_def)
  moreover have "24 \<le> length (replicate 32 (None :: u8 option))" by simp
  ultimately obtain buf where buf: "proto_header (replicate 32 None) 0x2A (int (length objs)) = Some (buf, 0x2A # dec_nat (length args) @ [0x0D, 0x0A])"
    "length buf = 32"
    using proto_header_eq [of "int (length args)" "replicate 32 None"] n dec_int_nat [of "length args"] by fastforce
  obtain d where d: "sdscatlen dst (0x2A # dec_nat (length args) @ [0x0D, 0x0A]) = Some d" "sds_rep d (str @ 0x2A # dec_nat (length args) @ [0x0D, 0x0A])"
    using catlen_rep [OF assms(2), of "0x2A # dec_nat (length args) @ [0x0D, 0x0A]"] assms(3) by (auto simp: enc_cmd_def)
  then show ?thesis using cat_args_rep [OF assms(1) d(2), of buf cfg] buf assms(3)
    by (auto simp: catAppendOnlyGenericCommand_def enc_cmd_def)
qed

section \<open>The translation of expires\<close>

definition expire_when :: "int \<Rightarrow> aof_cmd \<Rightarrow> bytes \<Rightarrow> int option" where
  "expire_when now cmd str =
     (let ms = (if cmd = Expire \<or> cmd = Setex \<or> cmd = Expireat then c_strtoll str * 1000 else c_strtoll str);
          w = (if cmd = Expireat then ms else ms + now) in
      if is_int64 ms \<and> is_int64 w then Some w else None)"

definition pexpireat :: "bytes \<Rightarrow> int \<Rightarrow> bytes list" where
  "pexpireat key w = [ascii ''PEXPIREAT'', key, dec_int w]"

fun set_opts :: "bytes list \<Rightarrow> bytes option \<Rightarrow> bytes option \<Rightarrow> (bytes option \<times> bytes option) option" where
  "set_opts [] ex px = Some (ex, px)"
| "set_opts (a # args) ex px =
     (if (strcaseeq a ''ex'' \<or> strcaseeq a ''px'') \<and> args = [] then None
      else set_opts args (if strcaseeq a ''ex'' then Some (hd args) else ex) (if strcaseeq a ''px'' then Some (hd args) else px))"

text \<open>The commands that stand for a command in the file: an expire with a relative time becomes one with an absolute
  time in milliseconds, and is separated from the value it comes with.\<close>

definition aof_commands :: "int \<Rightarrow> aof_cmd \<Rightarrow> bytes list \<Rightarrow> bytes list list option" where
  "aof_commands now cmd args =
     (if cmd \<in> {Expire, Pexpire, Expireat} then
        if length args > 2 then map_option (\<lambda>w. [pexpireat (args ! 1) w]) (expire_when now cmd (args ! 2)) else None
      else if cmd \<in> {Setex, Psetex} then
        if length args > 3
        then map_option (\<lambda>w. [[ascii ''SET'', args ! 1, args ! 3], pexpireat (args ! 1) w]) (expire_when now cmd (args ! 2)) else None
      else if cmd = Set \<and> length args > 3 then
        (case set_opts (drop 3 args) None None of
           Some (None, None) \<Rightarrow> Some [take 3 args]
         | Some (Some x, None) \<Rightarrow> map_option (\<lambda>w. [take 3 args, pexpireat (args ! 1) w]) (expire_when now Expire x)
         | Some (None, Some x) \<Rightarrow> map_option (\<lambda>w. [take 3 args, pexpireat (args ! 1) w]) (expire_when now Pexpire x)
         | _ \<Rightarrow> None)
      else Some [args])"

lemma expire_rep:
  assumes "obj_rep key k" "obj_rep seconds x" "expire_when now cmd x = Some w" "cmd \<noteq> Set" "cmd \<noteq> OtherCmd"
    "sds_rep buf str" "length str + length (enc_cmd (pexpireat k w)) < 2 ^ 62"
  shows "\<exists>d. catAppendOnlyExpireAtCommand cfg now buf cmd key seconds = Some d \<and> sds_rep d (str @ enc_cmd (pexpireat k w))"
proof -
  obtain d s where d: "getDecodedObject cfg seconds = Some d" "obj_rep d x" "obj_sds d = Some s" "sds_rep s x"
    using getDecodedObject_rep [OF assms(2)] by blast
  have w: "is_int64 w" using assms(3) by (auto simp: expire_when_def Let_def split: if_splits)
  obtain r where r: "decrRefCount d = Some r" using decr_ok d(2) by (auto simp: obj_rep_def)
  obtain a0 where a0: "createStringObject cfg (ascii ''PEXPIREAT'') 9 = Some a0" "obj_rep a0 (ascii ''PEXPIREAT'')"
    using create_obj_rep [of 9 "ascii ''PEXPIREAT''" cfg] by (auto simp: ascii_def)
  obtain a2 where a2: "createStringObjectFromLongLong cfg w = Some a2" "obj_rep a2 (dec_int w)"
    using from_ll_rep [OF w] by (auto simp: createStringObjectFromLongLong_def)
  obtain r0 r2 where rr: "decrRefCount a0 = Some r0" "decrRefCount a2 = Some r2"
    using decr_ok [of a0] decr_ok [of a2] a0(2) a2(2) by (auto simp: obj_rep_def)
  have reps: "list_all2 obj_rep [a0, key, a2] (pexpireat k w)" using a0(2) a2(2) assms(1) by (simp add: pexpireat_def)
  obtain b where "catAppendOnlyGenericCommand cfg buf [a0, key, a2] = Some b" "sds_rep b (str @ enc_cmd (pexpireat k w))"
    using generic_rep [OF reps assms(6,7)] by blast
  then show ?thesis using d(1,3) content_rep [OF d(4)] r rr a0(1) a2(1) assms(3-5)
    by (cases cmd) (auto simp: catAppendOnlyExpireAtCommand_def expire_when_def ll_checked_def Let_def split: if_splits)
qed

section \<open>The rewrite buffer is a queue\<close>

text \<open>The contract of a queue of bytes with a producer and a consumer.\<close>

datatype 'w queue_op = Push bytes | Send 'w

fun queue_run :: "('q \<Rightarrow> bytes \<Rightarrow> 'q option) \<Rightarrow> ('q \<Rightarrow> 'w \<Rightarrow> ('q \<times> bytes) option) \<Rightarrow> 'q \<Rightarrow> 'w queue_op list \<Rightarrow> ('q \<times> bytes) option" where
  "queue_run push send q [] = Some (q, [])"
| "queue_run push send q (Push s # ops) = do { q' \<leftarrow> push q s; queue_run push send q' ops }"
| "queue_run push send q (Send w # ops) =
     do { (q', out) \<leftarrow> send q w; (q'', out') \<leftarrow> queue_run push send q' ops; Some (q'', out @ out') }"

fun pushed :: "'w queue_op list \<Rightarrow> bytes" where
  "pushed [] = []"
| "pushed (Push s # ops) = s @ pushed ops"
| "pushed (Send w # ops) = pushed ops"

locale byte_queue =
  fixes holds :: "'q \<Rightarrow> bytes \<Rightarrow> bool" and push :: "'q \<Rightarrow> bytes \<Rightarrow> 'q option" and send :: "'q \<Rightarrow> 'w \<Rightarrow> ('q \<times> bytes) option"
  assumes push_holds: "holds q str \<Longrightarrow> \<exists>q'. push q s = Some q' \<and> holds q' (str @ s)"
    and send_holds: "holds q str \<Longrightarrow> \<exists>q' out str'. send q w = Some (q', out) \<and> holds q' str' \<and> str = out @ str'"
begin

text \<open>Everything that was pushed is sent in order or still held.\<close>

lemma run_fifo: "holds q str \<Longrightarrow> \<exists>q' out str'. queue_run push send q ops = Some (q', out) \<and> holds q' str' \<and> str @ pushed ops = out @ str'"
proof (induction ops arbitrary: q str)
  case Nil
  then show ?case by auto
next
  case (Cons op ops)
  show ?case
  proof (cases op)
    case (Push s)
    obtain q' where q': "push q s = Some q'" "holds q' (str @ s)" using push_holds [OF Cons.prems] by blast
    then show ?thesis using Cons.IH [OF q'(2)] Push by auto
  next
    case (Send w)
    obtain q' out str' where q': "send q w = Some (q', out)" "holds q' str'" "str = out @ str'" using send_holds [OF Cons.prems] by blast
    obtain q'' out' str'' where "queue_run push send q' ops = Some (q'', out')" "holds q'' str''" "str' @ pushed ops = out' @ str''"
      using Cons.IH [OF q'(2)] by blast
    then show ?thesis using q' Send by (intro exI [of _ q''] exI [of _ "out @ out'"] exI [of _ str'']) simp
  qed
qed

end

definition block_rep :: "aofrwblock \<Rightarrow> bytes \<Rightarrow> bool" where
  "block_rep b c \<longleftrightarrow> (\<exists>rest. rwbuf b = map Some c @ rest \<and> free b = length rest) \<and> used b = length c \<and> used b + free b = AOF_RW_BUF_BLOCK_SIZE"

definition rw_holds :: "aofrwblock list \<Rightarrow> bytes \<Rightarrow> bool" where
  "rw_holds blocks str \<longleftrightarrow> (\<exists>cs. list_all2 block_rep blocks cs \<and> str = concat cs)"

lemma block_new: "block_rep new_block []"
  by (simp add: block_rep_def new_block_def)

lemma holds_new: "rw_holds blocks str \<Longrightarrow> rw_holds (blocks @ [new_block]) str"
proof -
  assume "rw_holds blocks str"
  then obtain cs where "list_all2 block_rep blocks cs" "str = concat cs" by (auto simp: rw_holds_def)
  then show ?thesis using block_new by (auto simp: rw_holds_def list_all2_appendI intro!: exI [of _ "cs @ [[]]"])
qed

lemma fill_block_rep:
  assumes "block_rep b c"
  shows "\<exists>b' s1 s2. fill_block b s = Some (b', s2) \<and> s = s1 @ s2 \<and> block_rep b' (c @ s1)"
proof -
  obtain rest where b: "rwbuf b = map Some c @ rest" "free b = length rest" "used b = length c" "used b + free b = AOF_RW_BUF_BLOCK_SIZE"
    using assms by (auto simp: block_rep_def)
  define n where "n = min (length rest) (length s)"
  have n: "(if free b < length s then free b else length s) = n" "n \<le> length s" "n \<le> length rest" using b(2) by (auto simp: n_def)
  have "wr (used b) (take n s) (rwbuf b) = Some (map Some (c @ take n s) @ drop n rest)" using n(2,3) b by (simp add: wr_def)
  then have "fill_block b s = Some (if n = 0 then b else b\<lparr>rwbuf := map Some (c @ take n s) @ drop n rest, used := length c + n, free := length rest - n\<rparr>, drop n s)"
    using n(1) b by (simp add: fill_block_def)
  moreover have "block_rep (if n = 0 then b else b\<lparr>rwbuf := map Some (c @ take n s) @ drop n rest, used := length c + n, free := length rest - n\<rparr>) (c @ take n s)"
    using assms b n(2,3) by (simp add: block_rep_def)
  ultimately show ?thesis by (metis append_take_drop_id)
qed

lemma fill_last_rep:
  assumes "rw_holds blocks str"
  shows "\<exists>blocks' s1 s2. fill_last blocks s = Some (blocks', s2) \<and> s = s1 @ s2 \<and> rw_holds blocks' (str @ s1)"
proof (cases blocks rule: rev_cases)
  case Nil
  then show ?thesis using assms by (simp add: fill_last_def)
next
  case (snoc bs b)
  then obtain cs c where cs: "list_all2 block_rep bs cs" "block_rep b c" "str = concat cs @ c"
    using assms by (auto simp: rw_holds_def list_all2_append1 list_all2_Cons1)
  obtain b' s1 s2 where b': "fill_block b s = Some (b', s2)" "s = s1 @ s2" "block_rep b' (c @ s1)" using fill_block_rep [OF cs(2)] by blast
  have "list_all2 block_rep (bs @ [b']) (cs @ [c @ s1])" using cs(1) b'(3) by (simp add: list_all2_appendI)
  then have "rw_holds (bs @ [b']) (str @ s1)" using cs(3) by (force simp: rw_holds_def)
  then show ?thesis using b' snoc by (simp add: fill_last_def)
qed

lemma append_holds: "rw_holds blocks str \<Longrightarrow> \<exists>blocks'. aofRewriteBufferAppend blocks s = Some blocks' \<and> rw_holds blocks' (str @ s)"
proof (induction blocks s arbitrary: str rule: aofRewriteBufferAppend.induct)
  case (1 blocks s)
  show ?case
  proof (cases "s = []")
    case True
    then show ?thesis using 1(2) by (simp add: aofRewriteBufferAppend.simps)
  next
    case False
    obtain blocks' s1 s2 where f: "fill_last blocks s = Some (blocks', s2)" "s = s1 @ s2" "rw_holds blocks' (str @ s1)"
      using fill_last_rep [OF 1(2)] by blast
    show ?thesis
    proof (cases "s2 = []")
      case True
      then show ?thesis using f False by (subst aofRewriteBufferAppend.simps) simp
    next
      case ne: False
      then have "aofRewriteBufferAppend blocks s = aofRewriteBufferAppend (blocks' @ [new_block]) s2"
        using f(1) False by (subst aofRewriteBufferAppend.simps) simp
      then show ?thesis using 1(1) [OF False f(1) refl ne holds_new [OF f(3)]] f(2) by simp
    qed
  qed
qed

lemma block_send:
  assumes "block_rep b c" "n \<le> length c"
  shows "\<exists>b'. send_block b n = Some (b', take n c) \<and> block_rep b' (drop n c)"
proof -
  obtain rest where b: "rwbuf b = map Some c @ rest" "free b = length rest" "used b = length c" "used b + free b = AOF_RW_BUF_BLOCK_SIZE"
    using assms by (auto simp: block_rep_def)
  have "rd 0 n (rwbuf b) = Some (take n c)" using assms(2) by (simp add: rd_def b take_map)
  moreover have "memmove 0 n (used b - n) (rwbuf b) = Some (map Some (drop n c) @ drop (length c - n) (map Some c) @ rest)"
    using assms(2) by (simp add: memmove_def b drop_map)
  ultimately show ?thesis using assms(2) b by (simp add: block_rep_def send_block_def)
qed

lemma child_holds:
  "list_all2 block_rep blocks cs \<Longrightarrow>
   \<exists>blocks' out cs' removed. aofChildWriteDiffData stop blocks sent ws = Some (blocks', sent @ out, removed) \<and>
     list_all2 block_rep blocks' cs' \<and> concat cs = out @ concat cs'"
proof (induction stop blocks sent ws arbitrary: cs rule: aofChildWriteDiffData.induct)
  case (1 stop sent ws)
  then show ?case by auto
next
  case (2 stop block blocks sent ws)
  obtain c cs1 where cs: "cs = c # cs1" "block_rep block c" "list_all2 block_rep blocks cs1" using 2(4) by (auto simp: list_all2_Cons1)
  have len: "used block = length c" using cs(2) by (simp add: block_rep_def)
  consider (skip) "stop \<or> ws = [] \<and> used block \<noteq> 0 \<or> (\<exists>a ws'. ws = a # ws' \<and> min a (used block) = 0 \<and> used block \<noteq> 0)" | (empty) "\<not> stop" "used block = 0"
    | (send) a ws' where "\<not> stop" "used block \<noteq> 0" "ws = a # ws'" "min a (used block) \<noteq> 0"
    by (cases ws) blast+
  then show ?case
  proof cases
    case skip
    then have "\<exists>r. aofChildWriteDiffData stop (block # blocks) sent ws = Some (block # blocks, sent @ [], r)" by auto
    then show ?thesis using 2(4) by blast
  next
    case empty
    then show ?thesis using 2(1) [OF empty cs(3)] cs len by auto
  next
    case send
    define n where "n = min a (used block)"
    have n: "n \<le> length c" "n = min a (used block)" "n \<noteq> 0" using send len by (auto simp: n_def)
    obtain b' where b': "send_block block n = Some (b', take n c)" "block_rep b' (drop n c)" using block_send [OF cs(2) n(1)] by blast
    then have used: "used b' = length c - n" by (simp add: block_rep_def)
    have eq: "aofChildWriteDiffData stop (block # blocks) sent ws =
        (if used b' = 0 then aofChildWriteDiffData stop blocks (sent @ take n c) ws' else aofChildWriteDiffData stop (b' # blocks) (sent @ take n c) ws')"
      using send(1,2) b'(1) n(3) by (simp add: send(3) n(2) [symmetric] Let_def del: aofChildWriteDiffData.simps(1))
    show ?thesis
    proof (cases "used b' = 0")
      case True
      obtain blocks' out cs' r where "aofChildWriteDiffData stop blocks (sent @ take n c) ws' = Some (blocks', (sent @ take n c) @ out, r)"
        "list_all2 block_rep blocks' cs'" "concat cs1 = out @ concat cs'"
        using 2(2) [OF send(1,2,3) n(2,3) b'(1) refl True cs(3)] by blast
      then show ?thesis using eq True cs(1) used n(1) by auto
    next
      case False
      have "list_all2 block_rep (b' # blocks) (drop n c # cs1)" using b'(2) cs(3) by simp
      then obtain blocks' out cs' r where w: "aofChildWriteDiffData stop (b' # blocks) (sent @ take n c) ws' = Some (blocks', (sent @ take n c) @ out, r)"
        "list_all2 block_rep blocks' cs'" "concat (drop n c # cs1) = out @ concat cs'"
        using 2(3) [OF send(1,2,3) n(2,3) b'(1) refl False] by blast
      have "concat cs = take n c @ concat (drop n c # cs1)" by (simp add: cs(1))
      then have "concat cs = (take n c @ out) @ concat cs'" by (simp only: w(3) append.assoc)
      moreover have "aofChildWriteDiffData stop (block # blocks) sent ws = Some (blocks', sent @ take n c @ out, r)"
        using eq w(1) False by (simp del: aofChildWriteDiffData.simps)
      ultimately show ?thesis using w(2) by blast
    qed
  qed
qed

text \<open>The queue with the sending handler as consumer.\<close>

definition child_send :: "aofrwblock list \<Rightarrow> bool \<times> nat list \<Rightarrow> (aofrwblock list \<times> bytes) option" where
  "child_send blocks w = map_option (\<lambda>(blocks', out, _). (blocks', out)) (aofChildWriteDiffData (fst w) blocks [] (snd w))"

interpretation rwbuf: byte_queue rw_holds aofRewriteBufferAppend child_send
proof
  fix q str w
  assume "rw_holds q str"
  then obtain cs where cs: "list_all2 block_rep q cs" "str = concat cs" by (auto simp: rw_holds_def)
  show "\<exists>q' out str'. child_send q w = Some (q', out) \<and> rw_holds q' str' \<and> str = out @ str'"
    using child_holds [OF cs(1), of "fst w" "[]" "snd w"] cs(2) by (force simp: child_send_def rw_holds_def)
qed (rule append_holds)

lemma size_holds: "rw_holds blocks str \<Longrightarrow> aofRewriteBufferSize blocks = length str"
proof -
  have "list_all2 block_rep blocks cs \<Longrightarrow> foldl (\<lambda>size block. size + used block) n blocks = n + length (concat cs)" for cs n
    by (induction blocks cs arbitrary: n rule: list_all2_induct) (auto simp: block_rep_def)
  then show "rw_holds blocks str \<Longrightarrow> ?thesis" by (auto simp: rw_holds_def aofRewriteBufferSize_def)
qed

lemma write_holds:
  "list_all2 block_rep blocks cs \<Longrightarrow> \<exists>r out'. aofRewriteBufferWrite blocks ws out count = Some (out @ out', r) \<and>
     prefix out' (concat cs) \<and> (r = - 1 \<or> out' = concat cs \<and> r = count + int (length (concat cs)))"
proof (induction blocks cs arbitrary: ws out count rule: list_all2_induct)
  case Nil
  then show ?case by simp
next
  case (Cons b blocks c cs)
  have len: "used b = length c" using Cons.hyps(1) by (simp add: block_rep_def)
  show ?case
  proof (cases "used b = 0 \<or> ws = []")
    case True
    then show ?thesis using Cons.IH [of ws out count] len by (cases "used b = 0") auto
  next
    case False
    then obtain a ws' where ws: "ws = a # ws'" by (cases ws) auto
    have rd: "rd 0 (min a (used b)) (rwbuf b) = Some (take (min a (used b)) c)"
      using Cons.hyps(1) len by (auto simp: block_rep_def rd_def take_map)
    show ?thesis
    proof (cases "min a (used b) = used b")
      case True
      then show ?thesis using rd ws False len Cons.IH [of ws' "out @ c" "count + int (length c)"] by (auto simp: Let_def)
    next
      case short: False
      then show ?thesis using rd ws False len by (auto simp: Let_def take_is_prefix intro: prefix_prefix)
    qed
  qed
qed

text \<open>
  Property C13. The rewrite buffer is a queue of bytes: under any interleaving of commands appended by the server and writes of
  any length accepted by the pipe to the child, the child receives exactly the bytes appended, in order, and the bytes
  not yet sent are those that the buffer holds, reports as its size, and writes to the file at the end.
\<close>

theorem rewrite_buffer_fifo:
  "\<exists>blocks out rest. queue_run aofRewriteBufferAppend child_send (aofRewriteBufferReset old) ops = Some (blocks, out) \<and>
     pushed ops = out @ rest \<and> aofRewriteBufferSize blocks = length rest \<and>
     (\<exists>r out'. aofRewriteBufferWrite blocks ws [] 0 = Some (out', r) \<and> prefix out' rest \<and> (r = - 1 \<or> out' = rest \<and> r = int (length rest)))"
proof -
  have "rw_holds (aofRewriteBufferReset old) []" by (auto simp: rw_holds_def aofRewriteBufferReset_def)
  then obtain blocks out rest where r: "queue_run aofRewriteBufferAppend child_send (aofRewriteBufferReset old) ops = Some (blocks, out)"
    "rw_holds blocks rest" "[] @ pushed ops = out @ rest"
    using rwbuf.run_fifo by blast
  then obtain cs where cs: "list_all2 block_rep blocks cs" "rest = concat cs" by (auto simp: rw_holds_def)
  show ?thesis using r size_holds [OF r(2)] write_holds [OF cs(1), of ws "[]" 0] cs(2) by simp
qed

section \<open>Feeding the file appends requests\<close>

lemma select_text_enc: "select_text dictid = enc_cmd [ascii ''SELECT'', dec_int dictid]"
  by (simp add: select_text_def enc_cmd_def enc_arg_def ascii_def dec_nat_1)

lemma set_scan_rep:
  "list_all2 obj_rep objs args \<Longrightarrow> list_all sdsEncodedObject objs \<Longrightarrow> rel_option obj_rep oex ex \<Longrightarrow> rel_option obj_rep opx px \<Longrightarrow>
   set_opts args ex px = Some (ex', px') \<Longrightarrow>
   \<exists>oex' opx'. set_scan objs oex opx = Some (oex', opx') \<and> rel_option obj_rep oex' ex' \<and> rel_option obj_rep opx' px'"
proof (induction objs args arbitrary: oex ex opx px rule: list_all2_induct)
  case Nil
  then show ?case by simp
next
  case (Cons ob objs a args)
  obtain s where s: "obj_sds ob = Some s" using Cons.prems(1) by (auto simp: sdsEncodedObject_def obj_sds_def split: obj_data.splits)
  have str: "sds_content s = Some a" using content_rep [OF obj_sds_rep [OF Cons.hyps(1) s]] .
  define oex1 where "oex1 = (if strcaseeq a ''ex'' then Some (hd objs) else oex)"
  define opx1 where "opx1 = (if strcaseeq a ''px'' then Some (hd objs) else opx)"
  have ne: "objs \<noteq> []" if "strcaseeq a ''ex'' \<or> strcaseeq a ''px''" using that Cons.prems(4) Cons.hyps(2) by (auto split: if_splits)
  then have "objs \<noteq> [] \<Longrightarrow> obj_rep (hd objs) (hd args)" using Cons.hyps(2) by (cases objs) (auto simp: list_all2_Cons1)
  then have "\<exists>oex' opx'. set_scan objs oex1 opx1 = Some (oex', opx') \<and> rel_option obj_rep oex' ex' \<and> rel_option obj_rep opx' px'"
    using Cons.prems ne by (intro Cons.IH) (auto simp: oex1_def opx1_def split: if_splits)
  moreover have "set_scan (ob # objs) oex opx = set_scan objs oex1 opx1"
    using s str ne by (auto simp: oex1_def opx1_def nth_opt_def hd_conv_nth)
  ultimately show ?case by simp
qed

lemma feed_set_rep:
  assumes reps: "list_all2 obj_rep objs args" and cmds: "aof_commands now Set args = Some cmds" and n: "length args > 3"
    and enc: "list_all sdsEncodedObject (drop 3 objs)" and buf: "sds_rep buf str" "length str + length (enc_cmds cmds) < 2 ^ 62"
  shows "\<exists>d. feed_set cfg now buf objs = Some d \<and> sds_rep d (str @ enc_cmds cmds)"
proof -
  have key: "nth_opt objs 1 = Some (objs ! 1)" "obj_rep (objs ! 1) (args ! 1)"
    using n list_all2_lengthD [OF reps] list_all2_nthD2 [OF reps, of 1] by (simp_all add: nth_opt_def)
  obtain ex px where opts: "set_opts (drop 3 args) None None = Some (ex, px)"
    "(case (ex, px) of (None, None) \<Rightarrow> Some [take 3 args]
      | (Some x, None) \<Rightarrow> map_option (\<lambda>w. [take 3 args, pexpireat (args ! 1) w]) (expire_when now Expire x)
      | (None, Some x) \<Rightarrow> map_option (\<lambda>w. [take 3 args, pexpireat (args ! 1) w]) (expire_when now Pexpire x)
      | _ \<Rightarrow> None) = Some cmds"
    using cmds n by (auto simp: aof_commands_def split: option.splits)
  obtain oex opx where scan: "set_scan (drop 3 objs) None None = Some (oex, opx)" "rel_option obj_rep oex ex" "rel_option obj_rep opx px"
    using set_scan_rep [OF list_all2_dropI [OF reps] enc _ _ opts(1), of None None] by auto
  have "\<exists>cs. cmds = take 3 args # cs" using opts(2) by (auto split: option.splits)
  then have "length str + length (enc_cmd (take 3 args)) < 2 ^ 62" using buf(2) by auto
  then obtain b where b: "catAppendOnlyGenericCommand cfg buf (take 3 objs) = Some b" "sds_rep b (str @ enc_cmd (take 3 args))"
    using generic_rep [OF list_all2_takeI [OF reps] buf(1)] by blast
  show ?thesis
    using opts(2) scan key b buf(2) expire_rep [OF key(2) _ _ _ _ b(2)]
    by (auto simp: feed_set_def option_rel_Some1 option_rel_Some2 split: option.splits)
qed

lemma feed_cmd_rep:
  assumes reps: "list_all2 obj_rep objs args" and cmds: "aof_commands now cmd args = Some cmds" and enc: "list_all sdsEncodedObject (drop 3 objs)"
    and buf: "sds_rep buf str" "length str + length (enc_cmds cmds) < 2 ^ 62"
  shows "\<exists>d. feed_cmd cfg now buf cmd objs = Some d \<and> sds_rep d (str @ enc_cmds cmds)"
proof -
  have n: "length objs = length args" using reps by (rule list_all2_lengthD)
  have arg: "nth_opt objs i = Some (objs ! i)" "obj_rep (objs ! i) (args ! i)" if "i < length args" for i
    using that n list_all2_nthD2 [OF reps, of i] by (simp_all add: nth_opt_def)
  consider (ex) "cmd \<in> {Expire, Pexpire, Expireat}" | (setex) "cmd \<in> {Setex, Psetex}" | (set) "cmd = Set" "length args > 3"
    | (other) "cmd \<in> {Set, OtherCmd}" "cmd = Set \<longrightarrow> \<not> length args > 3" by (cases cmd) auto
  then show ?thesis
  proof cases
    case ex
    then obtain w where w: "length args > 2" "expire_when now cmd (args ! 2) = Some w" "cmds = [pexpireat (args ! 1) w]"
      using cmds by (auto simp: aof_commands_def split: if_splits)
    then show ?thesis using expire_rep [OF arg(2) [of 1] arg(2) [of 2] w(2) _ _ buf(1)] arg [of 1] arg [of 2] ex buf(2) by (auto simp: feed_cmd_def)
  next
    case setex
    then obtain w where w: "length args > 3" "expire_when now cmd (args ! 2) = Some w" "cmds = [[ascii ''SET'', args ! 1, args ! 3], pexpireat (args ! 1) w]"
      using cmds by (auto simp: aof_commands_def split: if_splits)
    obtain a0 where a0: "createStringObject cfg (ascii ''SET'') 3 = Some a0" "obj_rep a0 (ascii ''SET'')"
      using create_obj_rep [of 3 "ascii ''SET''" cfg] by (auto simp: ascii_def)
    obtain r0 where r0: "decrRefCount a0 = Some r0" using decr_ok a0(2) by (auto simp: obj_rep_def)
    have reps3: "list_all2 obj_rep [a0, objs ! 1, objs ! 3] [ascii ''SET'', args ! 1, args ! 3]" using a0(2) arg(2) w(1) by simp
    then obtain b where b: "catAppendOnlyGenericCommand cfg buf [a0, objs ! 1, objs ! 3] = Some b" "sds_rep b (str @ enc_cmd [ascii ''SET'', args ! 1, args ! 3])"
      using generic_rep [OF reps3 buf(1), of cfg] buf(2) w(3) by auto
    show ?thesis using expire_rep [OF arg(2) [of 1] arg(2) [of 2] w(2) _ _ b(2)] arg(1) [of 1] arg(1) [of 2] arg(1) [of 3] w setex buf a0(1) r0 b(1)
      by (auto simp: feed_cmd_def)
  next
    case set
    then have "feed_cmd cfg now buf cmd objs = feed_set cfg now buf objs" using n by (simp add: feed_cmd_def)
    then show ?thesis using feed_set_rep [OF reps _ set(2) enc buf] cmds set(1) by simp
  next
    case other
    then have "cmds = [args]" "feed_cmd cfg now buf cmd objs = catAppendOnlyGenericCommand cfg buf objs"
      using cmds n by (auto simp: aof_commands_def feed_cmd_def)
    then show ?thesis using generic_rep [OF reps buf(1)] buf(2) by simp
  qed
qed

lemma empty_rep: "\<exists>s. sdsempty () = Some s \<and> sds_rep s []"
  using newlen_rep [of 0 "[]"] by (simp add: sdsempty_def)

text \<open>The commands for one call, with the SELECT that precedes them when the database changes.\<close>

definition with_select :: "int \<Rightarrow> int \<Rightarrow> bytes list list \<Rightarrow> bytes list list" where
  "with_select selected dictid cmds = (if dictid \<noteq> selected then [[ascii ''SELECT'', dec_int dictid]] else []) @ cmds"

lemma feed_buf_rep:
  assumes "list_all2 obj_rep objs args" "aof_commands now cmd args = Some cmds" "list_all sdsEncodedObject (drop 3 objs)"
    "length (enc_cmds (with_select (aof_selected_db st) dictid cmds)) < 2 ^ 62"
  shows "\<exists>buf1 buf2. do {
      buf0 \<leftarrow> sdsempty ();
      if dictid \<noteq> aof_selected_db st
      then do { b \<leftarrow> sdscatlen buf0 (select_text dictid); Some (b, st\<lparr>aof_selected_db := dictid\<rparr>) } else Some (buf0, st)
    } = Some (buf1, st\<lparr>aof_selected_db := dictid\<rparr>) \<and> feed_cmd cfg now buf1 cmd objs = Some buf2 \<and>
    sds_content buf2 = Some (enc_cmds (with_select (aof_selected_db st) dictid cmds))"
proof -
  obtain s where s: "sdsempty () = Some s" "sds_rep s []" using empty_rep by blast
  let ?sel = "if dictid \<noteq> aof_selected_db st then select_text dictid else []"
  have len: "length ?sel + length (enc_cmds cmds) < 2 ^ 62" using assms(4) by (simp add: with_select_def select_text_enc split: if_splits)
  then obtain b where b: "sdscatlen s ?sel = Some b" "sds_rep b ?sel" using catlen_rep [OF s(2), of ?sel] by auto
  define buf1 where "buf1 = (if dictid \<noteq> aof_selected_db st then b else s)"
  have b1: "sds_rep buf1 ?sel" using b(2) s(2) by (auto simp: buf1_def)
  obtain d where "feed_cmd cfg now buf1 cmd objs = Some d" "sds_rep d (?sel @ enc_cmds cmds)" using feed_cmd_rep [OF assms(1-3) b1 len] by blast
  then show ?thesis using s(1) b(1) content_rep [of d "?sel @ enc_cmds cmds"]
    by (intro exI [of _ buf1] exI [of _ d]) (auto simp: buf1_def with_select_def select_text_enc)
qed

text \<open>
  \<^verbatim>\<open>feedAppendOnlyFile\<close> appends to the buffer of the file, and to the rewrite buffer while a child is rewriting, exactly
  the request texts of the commands that stand for the executed command: a SELECT when the database differs from the last
  one, expires with absolute times, other commands unchanged, whatever the encodings of the argument objects.
\<close>

lemma feed_appends:
  assumes "list_all2 obj_rep objs args" "aof_commands now cmd args = Some cmds" "list_all sdsEncodedObject (drop 3 objs)"
    "sds_rep (aof_buf st) text" "rw_holds (rw_blocks st) pending"
    "length text + length (enc_cmds (with_select (aof_selected_db st) dictid cmds)) < 2 ^ 62"
  shows "\<exists>st'. feedAppendOnlyFile cfg now st cmd dictid objs = Some st' \<and> aof_selected_db st' = dictid \<and> aof_on st' = aof_on st \<and>
    sds_rep (aof_buf st') (text @ (if aof_on st then enc_cmds (with_select (aof_selected_db st) dictid cmds) else [])) \<and>
    rw_holds (rw_blocks st') (pending @ (if aof_child st then enc_cmds (with_select (aof_selected_db st) dictid cmds) else []))"
proof -
  let ?bs = "enc_cmds (with_select (aof_selected_db st) dictid cmds)"
  obtain buf1 buf2 where b: "do {
      buf0 \<leftarrow> sdsempty ();
      if dictid \<noteq> aof_selected_db st
      then do { b \<leftarrow> sdscatlen buf0 (select_text dictid); Some (b, st\<lparr>aof_selected_db := dictid\<rparr>) } else Some (buf0, st)
    } = Some (buf1, st\<lparr>aof_selected_db := dictid\<rparr>)" "feed_cmd cfg now buf1 cmd objs = Some buf2" "sds_content buf2 = Some ?bs"
    using feed_buf_rep [OF assms(1-3), of st dictid cfg] assms(6) by auto
  obtain a where a: "sdscatlen (aof_buf st) ?bs = Some a" "sds_rep a (text @ ?bs)" using catlen_rep [OF assms(4,6)] by blast
  obtain blocks where r: "aofRewriteBufferAppend (rw_blocks st) ?bs = Some blocks" "rw_holds blocks (pending @ ?bs)"
    using append_holds [OF assms(5)] by blast
  have "feedAppendOnlyFile cfg now st cmd dictid objs =
      Some (st\<lparr>aof_selected_db := dictid, aof_buf := if aof_on st then a else aof_buf st, rw_blocks := if aof_child st then blocks else rw_blocks st\<rparr>)"
    using b a(1) r(1) by (auto simp: feedAppendOnlyFile_def split: bind_splits if_splits)
  then show ?thesis using assms(4,5) a(2) r(2) by simp
qed

end
