(* ===== verification/Aof_Load.thy ===== *)
theory Aof_Load
  imports Aof
begin

text \<open>
  Loading the append only file (aof.c, \<^verbatim>\<open>loadAppendOnlyFile\<close>). The file is a list of bytes, the stdio calls are
  functions on what is left of it. Commands run by the fake client are recorded; MULTI and EXEC are told apart, as the
  loader does, because commands inside a transaction are queued. The RDB preamble is handed to another
  component and not followed. Memory errors are \<^term>\<open>None\<close>.
\<close>

section \<open>Reading\<close>

definition c_fgets :: "nat \<Rightarrow> bytes \<Rightarrow> (bytes \<times> bytes) option" where
  "c_fgets n f =
     (if f = [] then None
      else let k = min (n - 1) (length (takeWhile (\<lambda>b. b \<noteq> 0x0A) f) + 1) in Some (take k f, drop k f))"

text \<open>\<open>ReadErr\<close> is a read error at the end of the file.\<close>

datatype load_err = ReadErr | ReadErrNoEof | FmtErr | UnknownCommand

text \<open>The arguments of a command. Reads fail at the end of the file only.\<close>

fun load_args :: "nat \<Rightarrow> bytes \<Rightarrow> sds list \<Rightarrow> (load_err + sds list \<times> bytes) option" where
  "load_args 0 f acc = Some (Inr (acc, f))"
| "load_args (Suc j) f acc =
     (case c_fgets 128 f of
        None \<Rightarrow> Some (Inl ReadErr)
      | Some (buf, f1) \<Rightarrow>
        if hd buf \<noteq> 0x24 then Some (Inl FmtErr)
        else
          let len = nat (c_strtoll (tl buf) mod 2 ^ 64) in
          do {
            argsds \<leftarrow> sdsnewlen SDS_NOINIT len;
            if len \<noteq> 0 \<and> length f1 < len then Some (Inl ReadErr)
            else do {
              argsds' \<leftarrow> sds_wr argsds 0 (take len f1);
              if length f1 < len + 2 then Some (Inl ReadErr) else load_args j (drop (len + 2) f1) (acc @ [argsds'])
            }
          })"

text \<open>A whole command; \<^term>\<open>Inr None\<close> is the end of the file. The number of arguments is converted to \<^verbatim>\<open>int\<close>.\<close>

definition load_command :: "bytes \<Rightarrow> (load_err + (sds list \<times> bytes) option) option" where
  "load_command f =
     (case c_fgets 128 f of
        None \<Rightarrow> Some (Inr None)
      | Some (buf, f1) \<Rightarrow>
        if hd buf \<noteq> 0x2A then Some (Inl FmtErr)
        else if tl buf = [] \<or> hd (tl buf) = 0
        then Some (Inl (if 0x0A \<notin> set buf \<and> length buf < 127 then ReadErr else ReadErrNoEof))
        else
          let argc = signed_take_bit 31 (c_strtoll (tl buf)) in
          if argc < 1 then Some (Inl FmtErr)
          else map_option (map_sum id Some) (load_args (nat argc) f1 []))"

section \<open>Running\<close>

text \<open>\<open>commands\<close> has the names in the command table in lower case; the lookup ignores case.\<close>

record load_conf =
  commands :: "bytes list"
  aof_load_truncated :: bool

record loader =
  l_multi :: bool
  l_queue :: "bytes list list"
  l_executed :: "bytes list list"
  valid_up_to :: nat
  valid_before_multi :: nat

definition cmd_name :: "bytes list \<Rightarrow> bytes" where
  "cmd_name args = map lower8 (hd args)"

text \<open>Queueing or running the command. A nested MULTI is queued; EXEC runs the queue.\<close>

definition load_run :: "bytes list \<Rightarrow> loader \<Rightarrow> loader" where
  "load_run args l =
     (if l_multi l \<and> cmd_name args \<noteq> ascii ''exec'' then l\<lparr>l_queue := l_queue l @ [args]\<rparr>
      else if cmd_name args = ascii ''multi'' then l\<lparr>l_multi := True, l_queue := []\<rparr>
      else if cmd_name args = ascii ''exec'' then
        (if l_multi l then l\<lparr>l_multi := False, l_executed := l_executed l @ l_queue l, l_queue := []\<rparr> else l)
      else l\<lparr>l_executed := l_executed l @ [args]\<rparr>)"

text \<open>The results of loading: a missing file content, success, success after truncating the file at an offset, or the end of the program.\<close>

datatype load_end = EmptyFile | LoadOk | LoadTruncated nat | LoadExit load_err | RdbPreamble

lemma fgets_drop: "c_fgets n f = Some (buf, f1) \<Longrightarrow> 1 < n \<Longrightarrow> length f1 < length f"
  by (auto simp: c_fgets_def Let_def split: if_splits)

lemma load_args_shorter: "load_args j f acc = Some (Inr (argl, f1)) \<Longrightarrow> length f1 \<le> length f"
proof (induction j arbitrary: f acc)
  case (Suc j)
  then obtain buf f2 k a where "c_fgets 128 f = Some (buf, f2)" "load_args j (drop k f2) (acc @ [a]) = Some (Inr (argl, f1))"
    by (auto simp: Let_def split: option.splits if_splits bind_splits)
  then show ?case using Suc.IH [of "drop k f2"] fgets_drop [of 128 f buf f2] by fastforce
qed simp

lemma load_command_shorter:
  assumes "load_command f = Some (Inr (Some (argl, f1)))"
  shows "length f1 < length f"
proof -
  obtain buf f2 n r where r: "c_fgets 128 f = Some (buf, f2)" "load_args n f2 [] = Some r" "map_sum id Some r = Inr (Some (argl, f1))"
    using assms by (auto simp: load_command_def Let_def split: option.splits if_splits)
  then have "load_args n f2 [] = Some (Inr (argl, f1))" by (cases r) auto
  then show ?thesis using load_args_shorter [of n f2 "[]"] fgets_drop [OF r(1)] by fastforce
qed

text \<open>What happens at the end of the file, expected or not.\<close>

definition load_eof :: "load_conf \<Rightarrow> nat \<Rightarrow> load_end" where
  "load_eof cfg valid = (if aof_load_truncated cfg then LoadTruncated valid else LoadExit ReadErr)"

function load_loop :: "load_conf \<Rightarrow> nat \<Rightarrow> loader \<Rightarrow> bytes \<Rightarrow> (loader \<times> load_end) option" where
  "load_loop cfg fsize l f =
     (case load_command f of
        None \<Rightarrow> None
      | Some (Inl ReadErr) \<Rightarrow> Some (l, load_eof cfg (valid_up_to l))
      | Some (Inl e) \<Rightarrow> Some (l, LoadExit e)
      | Some (Inr None) \<Rightarrow>
        if l_multi l then let l' = l\<lparr>valid_up_to := valid_before_multi l\<rparr> in Some (l', load_eof cfg (valid_up_to l'))
        else Some (l, LoadOk)
      | Some (Inr (Some (argl, f1))) \<Rightarrow>
        (case those (map sds_content argl) of
           None \<Rightarrow> None
         | Some args \<Rightarrow>
           if cmd_name args \<notin> set (commands cfg) then Some (l, LoadExit UnknownCommand)
           else
             let l1 = (if cmd_name args = ascii ''multi'' then l\<lparr>valid_before_multi := valid_up_to l\<rparr> else l);
                 l2 = load_run args l1;
                 l3 = (if aof_load_truncated cfg then l2\<lparr>valid_up_to := fsize - length f1\<rparr> else l2) in
             load_loop cfg fsize l3 f1))"
  by pat_completeness auto
termination by (relation "measure (\<lambda>(cfg, fsize, l, f). length f)") (auto dest: load_command_shorter)

declare load_loop.simps [simp del]

definition loader_new :: loader where
  "loader_new = \<lparr>l_multi = False, l_queue = [], l_executed = [], valid_up_to = 0, valid_before_multi = 0\<rparr>"

definition loadAppendOnlyFile :: "load_conf \<Rightarrow> bytes \<Rightarrow> (loader \<times> load_end) option" where
  "loadAppendOnlyFile cfg f =
     (if f = [] then Some (loader_new, EmptyFile)
      else if take 5 f = ascii ''REDIS'' then Some (loader_new, RdbPreamble)
      else load_loop cfg (length f) loader_new f)"

section \<open>Lines\<close>

lemma fgets_part: "f \<noteq> [] \<Longrightarrow> 0x0A \<notin> set f \<Longrightarrow> length f < 127 \<Longrightarrow> c_fgets 128 f = Some (f, [])"
proof -
  assume "f \<noteq> []" "0x0A \<notin> set f" "length f < 127"
  moreover from this have "takeWhile (\<lambda>b. b \<noteq> 0x0A) f = f" by (auto simp: takeWhile_eq_all_conv)
  then have "length (takeWhile (\<lambda>b. b \<noteq> 0x0A) f) = length f" by (rule arg_cong)
  ultimately show ?thesis by (simp add: c_fgets_def min_def)
qed

lemma fgets_line: "0x0A \<notin> set pre \<Longrightarrow> length pre < 126 \<Longrightarrow> c_fgets 128 (pre @ 0x0A # f1) = Some (pre @ [0x0A], f1)"
proof -
  assume "0x0A \<notin> set pre" "length pre < 126"
  then have "takeWhile (\<lambda>b. b \<noteq> 0x0A) (pre @ 0x0A # f1) = pre" by (subst takeWhile_append2) auto
  then show ?thesis using \<open>length pre < 126\<close> by (simp add: c_fgets_def min_def)
qed

lemma strtoll_digits:
  assumes "list_all is_digit ds" "rest = [] \<or> \<not> is_digit (hd rest)" "ds \<noteq> [] \<or> rest = []"
  shows "c_strtoll (ds @ rest) = min INT64_MAX (dec_val 0 ds)"
proof -
  have sp: "\<not> c_isspace d" "d \<noteq> 0x2D" "d \<noteq> 0x2B" if "is_digit d" for d using that by (auto simp: c_isspace_def is_digit_def word_le_nat_alt)
  have tw: "takeWhile is_digit (ds @ rest) = ds"
    using assms(1,2) by (cases rest) (auto simp: takeWhile_append2 list_all_iff)
  have ge: "0 \<le> dec_val 0 ds" using dec_val_mono [of 0 ds] assms(1) by simp
  show ?thesis
  proof (cases ds)
    case Nil
    then show ?thesis using assms(3) by (simp add: c_strtoll_def)
  next
    case (Cons d ds')
    then have "is_digit d" using assms(1) by simp
    then show ?thesis using tw ge sp [of d] unfolding Cons by (simp add: c_strtoll_def Let_def)
  qed
qed

lemma dec_val_append: "dec_val v (xs @ ys) = dec_val (dec_val v xs) ys"
  by (simp add: dec_val_def)

text \<open>The value of a number of which only the first digits are left.\<close>

lemma dec_val_prefix: "0 \<le> dec_val 0 (take j (dec_nat n)) \<and> dec_val 0 (take j (dec_nat n)) \<le> int n"
proof -
  have d: "list_all is_digit (take j (dec_nat n))" "list_all is_digit (drop j (dec_nat n))"
    using dec_nat_digits [of n] by (auto simp: list_all_iff dest: in_set_takeD in_set_dropD)
  then have ge: "0 \<le> dec_val 0 (take j (dec_nat n))" using dec_val_mono by simp
  have "dec_val (dec_val 0 (take j (dec_nat n))) (drop j (dec_nat n)) = int n"
    by (simp add: dec_val_append [symmetric] dec_val_dec_nat)
  then show ?thesis using ge dec_val_mono [OF ge d(2)] by simp
qed

lemma dec_val_prefix_pos:
  assumes "0 < n" "0 < j"
  shows "1 \<le> dec_val 0 (take j (dec_nat n))"
proof -
  obtain d ds where d: "dec_nat n = d # ds" using dec_nat_ne [of n] by (cases "dec_nat n") auto
  have "list_all is_digit (take (j - 1) ds)" using dec_nat_digits [of n] d by (auto simp: list_all_iff dest: in_set_takeD)
  moreover have "1 \<le> uint d - 48" using dec_nat_hd [OF assms(1)] d by simp
  ultimately have "uint d - 48 \<le> dec_val (uint d - 48) (take (j - 1) ds)" by (intro dec_val_mono) auto
  then show ?thesis using \<open>1 \<le> uint d - 48\<close> assms(2) d by (cases j) auto
qed

text \<open>A cut off header line: what is left of the file is the line, and the number read is not larger than the one written.\<close>

lemma header_cut:
  assumes "f @ u = b # dec_nat n @ 0x0D # 0x0A # rest" "f \<noteq> []" "length f < length (dec_nat n) + 3" "b \<noteq> 0x0A" "int n < 2 ^ 62"
  shows "c_fgets 128 f = Some (f, [])" "hd f = b" "c_strtoll (tl f) = dec_val 0 (take (length f - 1) (dec_nat n))" "length f < 127" "0x0A \<notin> set f"
    "tl f \<noteq> [] \<Longrightarrow> hd (tl f) \<noteq> 0"
proof -
  have "f = take (length f) (b # dec_nat n @ 0x0D # 0x0A # rest)" using assms(1) by (metis append_eq_conv_conj)
  then obtain p where p: "f = b # p" "p = take (length p) ((dec_nat n @ [0x0D]) @ 0x0A # rest)"
    using assms(2) by (cases f) auto
  have "p = take (length p) (dec_nat n @ [0x0D])"
    using p(2) assms(3) p(1) by (subst (asm) take_append) simp
  with p(1) have f: "f = b # p" "p = take (length f - 1) (dec_nat n @ [0x0D])" by simp_all
  define j where "j = length f - 1"
  have p: "p = take j (dec_nat n) @ (if j \<le> length (dec_nat n) then [] else [0x0D])" using f(2) assms(3) by (auto simp: j_def)
  have "int n < 2 ^ 63" using assms(5) by simp
  then have "length (dec_nat n) \<le> 19" by (rule dec_nat_short)
  then show len: "length f < 127" using assms(3) by simp
  have nb: "x \<noteq> 0x0A \<and> x \<noteq> 0" if "x \<in> set (dec_nat n)" for x
    using dec_nat_digits [of n] that by (auto simp: list_all_iff is_digit_def)
  then show no: "0x0A \<notin> set f" using assms(4) p f(1) by (auto dest: in_set_takeD)
  show "c_fgets 128 f = Some (f, [])" using fgets_part [OF assms(2) no len] .
  show "hd f = b" using f(1) by simp
  have dig: "list_all is_digit (take j (dec_nat n))" using dec_nat_digits [of n] by (auto simp: list_all_iff dest: in_set_takeD)
  have "c_strtoll p = min INT64_MAX (dec_val 0 (take j (dec_nat n)))"
    unfolding p using dec_nat_ne [of n] by (intro strtoll_digits [OF dig]) (auto simp: is_digit_def)
  then show "c_strtoll (tl f) = dec_val 0 (take (length f - 1) (dec_nat n))"
    using f(1) dec_val_prefix [of j n] assms(5) unfolding j_def [symmetric] by (simp add: min_def)
  have "hd p \<in> set (dec_nat n)" if "p \<noteq> []" using that dec_nat_ne [of n] unfolding p
    by (cases "dec_nat n"; cases j) auto
  then show "tl f \<noteq> [] \<Longrightarrow> hd (tl f) \<noteq> 0" using nb f(1) by auto
qed

text \<open>A complete header line.\<close>

lemma header_line:
  assumes "b \<noteq> 0x0A" "int n < 2 ^ 62"
  shows "c_fgets 128 (b # dec_nat n @ 0x0D # 0x0A # f1) = Some (b # dec_nat n @ [0x0D, 0x0A], f1)"
    "c_strtoll (dec_nat n @ [0x0D, 0x0A]) = int n" "hd (dec_nat n @ [0x0D, 0x0A]) \<noteq> 0"
proof -
  have nb: "x \<noteq> 0x0A \<and> x \<noteq> 0" if "x \<in> set (dec_nat n)" for x
    using dec_nat_digits [of n] that by (auto simp: list_all_iff is_digit_def)
  have "int n < 2 ^ 63" using assms(2) by simp
  then have "length (dec_nat n) \<le> 19" by (rule dec_nat_short)
  then show "c_fgets 128 (b # dec_nat n @ 0x0D # 0x0A # f1) = Some (b # dec_nat n @ [0x0D, 0x0A], f1)"
    using fgets_line [of "b # dec_nat n @ [0x0D]" f1] nb assms(1) by auto
  have "c_strtoll (dec_nat n @ [0x0D, 0x0A]) = min INT64_MAX (dec_val 0 (dec_nat n))"
    using dec_nat_ne [of n] by (intro strtoll_digits dec_nat_digits) (auto simp: is_digit_def)
  then show "c_strtoll (dec_nat n @ [0x0D, 0x0A]) = int n" using assms(2) by (simp add: dec_val_dec_nat)
  show "hd (dec_nat n @ [0x0D, 0x0A]) \<noteq> 0" using nb dec_nat_ne [of n] by (cases "dec_nat n") auto
qed

section \<open>Reading what was written\<close>

lemma split_file:
  assumes "f @ u = xs @ rest" "\<not> length f < length xs"
  obtains f1 where "f = xs @ f1" "f1 @ u = rest"
  using assms by (metis append_eq_append_conv_if append_take_drop_id not_less)

lemma load_args_read:
  assumes "f @ u = enc_args args @ rest" "list_all (\<lambda>a. length a < 2 ^ 62) args"
  shows "if length f < length (enc_args args) then load_args (length args) f acc = Some (Inl ReadErr)
    else \<exists>argl f1. load_args (length args) f acc = Some (Inr (acc @ argl, f1)) \<and> list_all2 sds_rep argl args \<and> f = enc_args args @ f1"
  using assms
proof (induction args arbitrary: f acc)
  case Nil
  then show ?case by simp
next
  case (Cons a args)
  have n: "int (length a) < 2 ^ 62" "length a < 2 ^ 62" using Cons.prems(2) by simp_all
  have f: "f @ u = 0x24 # dec_nat (length a) @ 0x0D # 0x0A # (a @ [0x0D, 0x0A] @ enc_args args @ rest)"
    using Cons.prems(1) by (simp add: enc_arg_def)
  consider "f = []" | (cut) "f \<noteq> []" "length f < length (dec_nat (length a)) + 3" | (full) "\<not> length f < length (dec_nat (length a)) + 3" by blast
  then show ?case
  proof cases
    case 1
    then show ?thesis by (simp add: c_fgets_def enc_arg_def)
  next
    case cut
    note h = header_cut [OF f cut _ n(1)]
    define v where "v = dec_val 0 (take (length f - 1) (dec_nat (length a)))"
    have v: "0 \<le> v" "v \<le> int (length a)" using dec_val_prefix by (auto simp: v_def)
    have vm: "nat (v mod 2 ^ 64) = nat v" using v n(1) by simp
    obtain s s' where s: "sdsnewlen SDS_NOINIT (nat v) = Some s" "nat v = 0 \<longrightarrow> sds_wr s 0 [] = Some s'"
      using noinit_rep [of "replicate (nat v) 0" "nat v"] v n(2) by fastforce
    have "load_args (length (a # args)) f acc = Some (Inl ReadErr)" using h s vm unfolding v_def [symmetric] by (simp add: Let_def)
    moreover have "length f < length (enc_args (a # args))" using cut(2) by (simp add: enc_arg_def)
    ultimately show ?thesis by simp
  next
    case full
    obtain f1 where f1: "f = 0x24 # dec_nat (length a) @ 0x0D # 0x0A # f1" "f1 @ u = a @ [0x0D, 0x0A] @ enc_args args @ rest"
      using split_file [of f u "0x24 # dec_nat (length a) @ [0x0D, 0x0A]" "a @ [0x0D, 0x0A] @ enc_args args @ rest"] f full by auto
    note h = header_line(1) [OF _ n(1), of "0x24" f1] header_line(2) [OF _ n(1), of "0x24"]
    have vm: "nat (int (length a) mod 2 ^ 64) = length a" using n(1) by simp
    have unf: "load_args (length (a # args)) f acc = do {
        argsds \<leftarrow> sdsnewlen SDS_NOINIT (length a);
        if length a \<noteq> 0 \<and> length f1 < length a then Some (Inl ReadErr)
        else do {
          argsds' \<leftarrow> sds_wr argsds 0 (take (length a) f1);
          if length f1 < length a + 2 then Some (Inl ReadErr) else load_args (length args) (drop (length a + 2) f1) (acc @ [argsds'])
        } }"
      using h vm by (simp add: f1(1) Let_def)
    obtain s s' where s: "sdsnewlen SDS_NOINIT (length a) = Some s" "sds_wr s 0 a = Some s'" "sds_rep s' a"
      using noinit_rep [OF refl n(2)] by (elim exE conjE) (rule that)
    show ?thesis
    proof (cases "length f1 < length a + 2")
      case True
      have "take (length a) f1 = a" if ge: "\<not> length f1 < length a"
        by (rule split_file [OF f1(2) ge]) simp
      moreover have "length f < length (enc_args (a # args))" using True by (simp add: f1(1) enc_arg_def)
      ultimately show ?thesis using unf s True by (cases "length f1 < length a") auto
    next
      case False
      then obtain f2 where f2: "f1 = a @ [0x0D, 0x0A] @ f2" "f2 @ u = enc_args args @ rest"
        using split_file [of f1 u "a @ [0x0D, 0x0A]"] f1(2) by auto
      have "load_args (length (a # args)) f acc = load_args (length args) f2 (acc @ [s'])" using unf s f2(1) by simp
      then show ?thesis using Cons.IH [OF f2(2), of "acc @ [s']"] Cons.prems(2) s(3) f1(1) f2(1) by (auto simp: enc_arg_def)
    qed
  qed
qed

definition load_ok :: "load_conf \<Rightarrow> bytes list \<Rightarrow> bool" where
  "load_ok cfg args \<longleftrightarrow> args \<noteq> [] \<and> length args < 2 ^ 31 \<and> list_all (\<lambda>a. length a < 2 ^ 62) args \<and> cmd_name args \<in> set (commands cfg)"

lemma load_command_read:
  assumes "f @ u = enc_cmd args @ rest" "load_ok cfg args"
  shows "if f = [] then load_command f = Some (Inr None)
    else if length f < length (enc_cmd args) then load_command f = Some (Inl ReadErr)
    else \<exists>argl f1. load_command f = Some (Inr (Some (argl, f1))) \<and> list_all2 sds_rep argl args \<and> f = enc_cmd args @ f1"
proof -
  have n: "int (length args) < 2 ^ 62" "0 < length args" "int (length args) < 2 ^ 31" using assms(2) by (simp_all add: load_ok_def)
  have f: "f @ u = 0x2A # dec_nat (length args) @ 0x0D # 0x0A # (enc_args args @ rest)"
    using assms(1) by (simp add: enc_cmd_def)
  consider "f = []" | (cut) "f \<noteq> []" "length f < length (dec_nat (length args)) + 3" | (full) "\<not> length f < length (dec_nat (length args)) + 3" by blast
  then show ?thesis
  proof cases
    case 1
    then show ?thesis by (simp add: load_command_def c_fgets_def enc_cmd_def)
  next
    case cut
    note h = header_cut [OF f cut _ n(1)]
    define v where "v = dec_val 0 (take (length f - 1) (dec_nat (length args)))"
    have v: "v \<le> int (length args)" "tl f \<noteq> [] \<Longrightarrow> 1 \<le> v"
      using dec_val_prefix dec_val_prefix_pos [OF n(2), of "length f - 1"] by (auto simp: v_def) (cases f; force)
    have "signed_take_bit 31 v = v" if "1 \<le> v" using that v(1) n(3) by (intro signed_take_bit_int_eq_self) auto
    moreover have "load_args (nat v) [] [] = Some (Inl ReadErr)" if "1 \<le> v" using that by (cases "nat v") (auto simp: c_fgets_def)
    ultimately have "load_command f = Some (Inl ReadErr)"
      using h v(2) unfolding v_def [symmetric] by (cases "tl f = []") (auto simp: load_command_def Let_def)
    moreover have "length f < length (enc_cmd args)" using cut(2) by (simp add: enc_cmd_def)
    ultimately show ?thesis using cut(1) by simp
  next
    case full
    obtain f1 where f1: "f = 0x2A # dec_nat (length args) @ 0x0D # 0x0A # f1" "f1 @ u = enc_args args @ rest"
      using split_file [of f u "0x2A # dec_nat (length args) @ [0x0D, 0x0A]" "enc_args args @ rest"] f full by auto
    note h = header_line(1) [OF _ n(1), of "0x2A" f1] header_line(2,3) [OF _ n(1), of "0x2A"]
    have "signed_take_bit 31 (int (length args)) = int (length args)" using n(3) by (intro signed_take_bit_int_eq_self) auto
    then have "load_command f = map_option (map_sum id Some) (load_args (length args) f1 [])"
      using h n(2) by (simp add: load_command_def f1(1) Let_def)
    moreover have "length f < length (enc_cmd args) \<longleftrightarrow> length f1 < length (enc_args args)" by (simp add: f1(1) enc_cmd_def)
    moreover have "list_all (\<lambda>a. length a < 2 ^ 62) args" using assms(2) by (simp add: load_ok_def)
    ultimately show ?thesis using load_args_read [OF f1(2), of "[]"] f1(1) by (auto simp: enc_cmd_def)
  qed
qed

section \<open>Recovery\<close>

lemma load_run_valid:
  "load_run args (l\<lparr>valid_up_to := x, valid_before_multi := y\<rparr>) = (load_run args l)\<lparr>valid_up_to := x, valid_before_multi := y\<rparr>"
  by (simp add: load_run_def)

lemma fold_load_run_snoc: "fold load_run (cmds @ [args]) l = load_run args (fold load_run cmds l)"
  by simp

text \<open>An open transaction starts with a MULTI, and no EXEC follows it.\<close>

definition open_multi :: "bytes list list \<Rightarrow> nat \<Rightarrow> bool" where
  "open_multi cmds off \<longleftrightarrow> (\<exists>pre m qs. cmds = pre @ m # qs \<and> cmd_name m = ascii ''multi'' \<and>
     list_all (\<lambda>q. cmd_name q \<noteq> ascii ''multi'' \<and> cmd_name q \<noteq> ascii ''exec'') qs \<and> off = length (enc_cmds pre))"

definition loaded :: "bytes list list \<Rightarrow> loader \<Rightarrow> bool" where
  "loaded cmds l \<longleftrightarrow> (\<exists>vb. l = (fold load_run cmds loader_new)\<lparr>valid_up_to := length (enc_cmds cmds), valid_before_multi := vb\<rparr> \<and>
     (l_multi l \<longrightarrow> open_multi cmds vb))"

lemma multi_exec_names: "ascii ''multi'' \<noteq> ascii ''exec''" "ascii ''exec'' \<noteq> ascii ''multi''"
  by (simp_all add: ascii_def)

lemma loaded_step:
  assumes "loaded cmds l"
  shows "loaded (cmds @ [args])
    ((load_run args (if cmd_name args = ascii ''multi'' then l\<lparr>valid_before_multi := valid_up_to l\<rparr> else l))\<lparr>valid_up_to := length (enc_cmds (cmds @ [args]))\<rparr>)"
proof -
  obtain vb where vb: "l = (fold load_run cmds loader_new)\<lparr>valid_up_to := length (enc_cmds cmds), valid_before_multi := vb\<rparr>" "l_multi l \<longrightarrow> open_multi cmds vb"
    using assms by (auto simp: loaded_def)
  define l0 where "l0 = fold load_run cmds loader_new"
  define vb' where "vb' = (if cmd_name args = ascii ''multi'' then length (enc_cmds cmds) else vb)"
  have l1: "(if cmd_name args = ascii ''multi'' then l\<lparr>valid_before_multi := valid_up_to l\<rparr> else l) = l0\<lparr>valid_up_to := length (enc_cmds cmds), valid_before_multi := vb'\<rparr>"
    by (simp add: vb(1) l0_def vb'_def)
  have "open_multi (cmds @ [args]) vb'" if m: "l_multi (load_run args l0)"
  proof (cases "cmd_name args = ascii ''multi''")
    case True
    then show ?thesis unfolding open_multi_def vb'_def by (intro exI [of _ cmds] exI [of _ args] exI [of _ "[]"]) simp
  next
    case False
    then have "l_multi l0" "cmd_name args \<noteq> ascii ''exec''" using m by (auto simp: load_run_def split: if_splits)
    then have "open_multi cmds vb" using vb by (simp add: l0_def)
    then obtain pre m qs where "cmds = pre @ m # qs" "cmd_name m = ascii ''multi''" "vb = length (enc_cmds pre)"
      "list_all (\<lambda>q. cmd_name q \<noteq> ascii ''multi'' \<and> cmd_name q \<noteq> ascii ''exec'') qs" by (auto simp: open_multi_def)
    then show ?thesis using False \<open>cmd_name args \<noteq> ascii ''exec''\<close> unfolding open_multi_def vb'_def
      by (intro exI [of _ pre] exI [of _ m] exI [of _ "qs @ [args]"]) simp
  qed
  then show ?thesis unfolding loaded_def l1 load_run_valid by (intro exI [of _ vb']) (simp add: l0_def)
qed

text \<open>What a load makes of a file that is a prefix of the text of \<open>cmds\<close>: the commands \<open>done_cmds\<close> that are complete in it are
  run, and the file is cut after them, or before an open transaction.\<close>

definition recovered :: "bytes \<Rightarrow> bytes list list \<Rightarrow> loader \<Rightarrow> load_end \<Rightarrow> bool" where
  "recovered f cmds l e \<longleftrightarrow>
     (\<exists>done_cmds rest. cmds = done_cmds @ rest \<and> prefix (enc_cmds done_cmds) f \<and>
        (rest \<noteq> [] \<longrightarrow> length f < length (enc_cmds (done_cmds @ [hd rest]))) \<and>
        l_executed l = l_executed (fold load_run done_cmds loader_new) \<and>
        (if f \<noteq> enc_cmds done_cmds then e = LoadTruncated (length (enc_cmds done_cmds))
         else if l_multi (fold load_run done_cmds loader_new) then \<exists>off. open_multi done_cmds off \<and> e = LoadTruncated off
         else e = LoadOk))"

lemma load_loop_read:
  assumes "file = enc_cmds d @ f" "f @ u = enc_cmds cmds" "list_all (load_ok cfg) cmds" "loaded d l" "aof_load_truncated cfg"
  shows "\<exists>l' e. load_loop cfg (length file) l f = Some (l', e) \<and> recovered file (d @ cmds) l' e"
  using assms(1-4)
proof (induction cmds arbitrary: d l f)
  case Nil
  then have f: "f = []" by simp
  then have cmd: "load_command f = Some (Inr None)" by (simp add: load_command_def c_fgets_def)
  obtain vb where vb: "l = (fold load_run d loader_new)\<lparr>valid_up_to := length (enc_cmds d), valid_before_multi := vb\<rparr>" "l_multi l \<longrightarrow> open_multi d vb"
    using Nil.prems(4) by (auto simp: loaded_def)
  show ?case using cmd vb Nil.prems(1) f assms(5)
    by (subst load_loop.simps) (auto simp: recovered_def load_eof_def Let_def)
next
  case (Cons args cmds)
  have f: "f @ u = enc_cmd args @ enc_cmds cmds" and ok: "load_ok cfg args" using Cons.prems by simp_all
  note rd = load_command_read [OF f ok]
  obtain vb where vb: "l = (fold load_run d loader_new)\<lparr>valid_up_to := length (enc_cmds d), valid_before_multi := vb\<rparr>" "l_multi l \<longrightarrow> open_multi d vb"
    using Cons.prems(4) by (auto simp: loaded_def)
  show ?case
  proof (cases "length f < length (enc_cmd args)")
    case True
    let ?e = "if f = [] then if l_multi l then LoadTruncated vb else LoadOk else LoadTruncated (length (enc_cmds d))"
    have "\<exists>l'. load_loop cfg (length file) l f = Some (l', ?e) \<and> l_executed l' = l_executed l"
      using rd True vb(1) assms(5) by (subst load_loop.simps) (auto simp: load_eof_def Let_def)
    moreover have "recovered file (d @ args # cmds) l' ?e" if "l_executed l' = l_executed l" for l'
      unfolding recovered_def using that True vb Cons.prems(1)
      by (intro exI [of _ d] exI [of _ "args # cmds"]) auto
    ultimately show ?thesis by blast
  next
    case False
    then have "f \<noteq> []" by (auto simp: enc_cmd_def)
    with rd False obtain argl f1 where a: "load_command f = Some (Inr (Some (argl, f1)))" "list_all2 sds_rep argl args" "f = enc_cmd args @ f1" by auto
    have "those (map sds_content argl) = Some args" using a(2) by (induction argl args rule: list_all2_induct) (auto simp: content_rep)
    moreover have "length file - length f1 = length (enc_cmds (d @ [args]))" using Cons.prems(1) a(3) by simp
    ultimately have "load_loop cfg (length file) l f = load_loop cfg (length file)
        ((load_run args (if cmd_name args = ascii ''multi'' then l\<lparr>valid_before_multi := valid_up_to l\<rparr> else l))\<lparr>valid_up_to := length (enc_cmds (d @ [args]))\<rparr>) f1"
      using a(1) ok assms(5) by (subst load_loop.simps) (simp add: load_ok_def Let_def)
    moreover have "file = enc_cmds (d @ [args]) @ f1" "f1 @ u = enc_cmds cmds" using Cons.prems(1) a(3) f by simp_all
    ultimately show ?thesis using Cons.IH [OF _ _ _ loaded_step [OF Cons.prems(4), of args]] Cons.prems(3) by simp
  qed
qed

lemma enc_cmds_star: "prefix f (enc_cmds cmds) \<Longrightarrow> f \<noteq> [] \<Longrightarrow> hd f = 0x2A"
  by (cases cmds; cases f) (auto simp: enc_cmd_def)

lemma load_prefix:
  assumes "aof_load_truncated cfg" "list_all (load_ok cfg) cmds" "prefix f (enc_cmds cmds)" "f \<noteq> []"
  shows "\<exists>l e. loadAppendOnlyFile cfg f = Some (l, e) \<and> recovered f cmds l e"
proof -
  obtain u where u: "f @ u = enc_cmds cmds" using assms(3) by (auto simp: prefix_def)
  have "take 5 f \<noteq> ascii ''REDIS''" using enc_cmds_star [OF assms(3,4)] by (cases f) (auto simp: ascii_def)
  moreover have "loaded [] loader_new" by (simp add: loaded_def loader_new_def)
  ultimately show ?thesis
    using load_loop_read [of f "[]" f u cmds cfg loader_new] u assms by (simp add: loadAppendOnlyFile_def)
qed

lemma recovered_all:
  assumes "recovered (enc_cmds cmds) cmds l e"
  shows "l_executed l = l_executed (fold load_run cmds loader_new) \<and>
    (if l_multi (fold load_run cmds loader_new) then \<exists>off. open_multi cmds off \<and> e = LoadTruncated off else e = LoadOk)"
proof -
  obtain d rest where d: "cmds = d @ rest" "rest \<noteq> [] \<longrightarrow> length (enc_cmds cmds) < length (enc_cmds (d @ [hd rest]))"
    "l_executed l = l_executed (fold load_run d loader_new)"
    "if enc_cmds cmds \<noteq> enc_cmds d then e = LoadTruncated (length (enc_cmds d))
     else if l_multi (fold load_run d loader_new) then \<exists>off. open_multi d off \<and> e = LoadTruncated off else e = LoadOk"
    using assms unfolding recovered_def by blast
  have "rest = []" using d(1,2) by (cases rest) auto
  then show ?thesis using d by simp
qed

lemma fold_plain:
  assumes "list_all (\<lambda>q. cmd_name q \<noteq> ascii ''multi'' \<and> cmd_name q \<noteq> ascii ''exec'') cmds"
  shows "\<not> l_multi l \<Longrightarrow> fold load_run cmds l = l\<lparr>l_executed := l_executed l @ cmds\<rparr>"
    "l_multi l \<Longrightarrow> fold load_run cmds l = l\<lparr>l_queue := l_queue l @ cmds\<rparr>"
  using assms by (induction cmds arbitrary: l) (auto simp: load_run_def)

text \<open>
  Property C9. Crash recovery: if writing the append only file stopped at any byte, loading it with truncation allowed runs exactly the
  commands that are complete in the file, transactions only as a whole, and cuts the file after the last complete
  command; a file that ends after a complete command is loaded without a cut, unless it ends inside a transaction, which is cut off.
\<close>

theorem aof_crash_recovery:
  assumes "aof_load_truncated cfg" "list_all (load_ok cfg) cmds" "prefix f (enc_cmds cmds)" "f \<noteq> []"
  shows "\<exists>l e. loadAppendOnlyFile cfg f = Some (l, e) \<and> recovered f cmds l e"
  by (rule load_prefix [OF assms])

theorem aof_crash_recovery_witness:
  "\<exists>l e. loadAppendOnlyFile \<lparr>commands = [ascii ''ping''], aof_load_truncated = True\<rparr> (enc_cmd [ascii ''PING''] @ [0x2A, 0x31]) = Some (l, e) \<and>
     recovered (enc_cmd [ascii ''PING''] @ [0x2A, 0x31]) [[ascii ''PING''], [ascii ''PING'']] l e"
  using aof_crash_recovery [of "\<lparr>commands = [ascii ''ping''], aof_load_truncated = True\<rparr>" "[[ascii ''PING''], [ascii ''PING'']]"
      "enc_cmd [ascii ''PING''] @ [0x2A, 0x31]"]
  by (simp add: load_ok_def cmd_name_def enc_cmd_def enc_arg_def ascii_def lower8_def dec_nat_1)



section \<open>Writing and loading\<close>

type_synonym aof_call = "int \<times> aof_cmd \<times> int \<times> robj list"

fun feed_calls :: "obj_conf \<Rightarrow> aof_state \<Rightarrow> aof_call list \<Rightarrow> aof_state option" where
  "feed_calls cfg st [] = Some st"
| "feed_calls cfg st ((now, cmd, dictid, objs) # calls) =
     do { st' \<leftarrow> feedAppendOnlyFile cfg now st cmd dictid objs; feed_calls cfg st' calls }"

text \<open>A call with the database and the commands that stand for it.\<close>

definition call_rep :: "aof_call \<Rightarrow> int \<times> bytes list list \<Rightarrow> bool" where
  "call_rep call dc = (case call of (now, cmd, dictid, objs) \<Rightarrow>
     fst dc = dictid \<and> list_all sdsEncodedObject (drop 3 objs) \<and>
     (\<exists>args. list_all2 obj_rep objs args \<and> aof_commands now cmd args = Some (snd dc)))"

fun aof_stream :: "int \<Rightarrow> (int \<times> bytes list list) list \<Rightarrow> bytes list list" where
  "aof_stream selected [] = []"
| "aof_stream selected ((dictid, cmds) # dcs) = with_select selected dictid cmds @ aof_stream dictid dcs"

lemma feed_calls_appends:
  assumes "list_all2 call_rep calls dcs" "sds_rep (aof_buf st) text" "aof_on st" "rw_holds (rw_blocks st) pending"
    "length text + length (enc_cmds (aof_stream (aof_selected_db st) dcs)) < 2 ^ 62"
  shows "\<exists>st'. feed_calls cfg st calls = Some st' \<and> sds_rep (aof_buf st') (text @ enc_cmds (aof_stream (aof_selected_db st) dcs))"
  using assms
proof (induction calls dcs arbitrary: st "text" pending rule: list_all2_induct)
  case Nil
  then show ?case by simp
next
  case (Cons call calls dc dcs)
  obtain now cmd dictid objs where call: "call = (now, cmd, dictid, objs)" by (cases call)
  obtain args cmds where dc: "dc = (dictid, cmds)" "list_all sdsEncodedObject (drop 3 objs)" "list_all2 obj_rep objs args" "aof_commands now cmd args = Some cmds"
    using Cons.hyps(1) by (cases dc) (auto simp: call_rep_def call)
  have len: "length text + length (enc_cmds (with_select (aof_selected_db st) dictid cmds)) < 2 ^ 62" using Cons.prems(4) by (simp add: dc(1))
  obtain st' where st': "feedAppendOnlyFile cfg now st cmd dictid objs = Some st'" "aof_selected_db st' = dictid"
    "sds_rep (aof_buf st') (text @ enc_cmds (with_select (aof_selected_db st) dictid cmds))" "aof_on st'"
    "\<exists>pending'. rw_holds (rw_blocks st') pending'"
    using feed_appends [OF dc(3,4,2) Cons.prems(1,3) len, of cfg] Cons.prems(2) by auto
  then obtain pending' where p: "rw_holds (rw_blocks st') pending'" by blast
  show ?case using Cons.IH [OF st'(3,4) p] st'(1,2) Cons.prems(4) by (simp add: call dc(1))
qed



end
