(* ===== verification/Repl.thy ===== *)
theory Repl
  imports Aof
begin

text \<open>
  The replication stream of a master (replication.c): the circular backlog with the last bytes of the stream, the
  propagation of commands to the backlog and to the replicas, and the reading of the backlog for a replica that
  reconnects. The output of a replica is the list of bytes queued for it since it asked for synchronisation. Offsets are
  unbounded integers. A loop that does not end, a failed assertion or an access out of bounds is \<^term>\<open>None\<close>.
\<close>

section \<open>State\<close>

datatype replstate = REPL_STATE_NONE | SLAVE_STATE_WAIT_BGSAVE_START | SLAVE_STATE_WAIT_BGSAVE_END | SLAVE_STATE_SEND_BULK
  | SLAVE_STATE_ONLINE

datatype rdb_child_type = RDB_CHILD_TYPE_DISK | RDB_CHILD_TYPE_SOCKET

text \<open>\<open>r_sock\<close> has the bytes written directly to the socket, \<open>r_sock_ok\<close> tells whether such a write succeeds.\<close>

record replica =
  replstate :: replstate
  r_slave :: bool
  r_pre_psync :: bool
  slave_capa :: nat
  psync_initial_offset :: int
  repl_put_online_on_ack :: bool
  r_ack_off :: int
  r_ack_time :: int
  r_close_asap :: bool
  r_sock_ok :: bool
  r_sock :: bytes
  r_out :: bytes

record repl_state =
  repl_backlog :: "mem option"
  repl_backlog_size :: nat
  repl_backlog_histlen :: nat
  repl_backlog_idx :: nat
  repl_backlog_off :: int
  repl_backlog_time_limit :: int
  repl_no_slaves_since :: int
  master_repl_offset :: int
  slaveseldb :: int
  has_masterhost :: bool
  link_up :: bool
  replid :: bytes
  replid2 :: bytes
  second_replid_offset :: int
  rdb_child :: "rdb_child_type option"
  rdb_aof_child :: bool
  repl_diskless_sync :: bool
  srv_time :: int
  repl_min_slaves_to_write :: int
  repl_min_slaves_max_lag :: int
  repl_good_slaves_count :: nat
  slaves :: "replica list"

definition CONFIG_REPL_BACKLOG_MIN_SIZE :: int where "CONFIG_REPL_BACKLOG_MIN_SIZE = 1024 * 16"
definition LONG_STR_SIZE :: nat where "LONG_STR_SIZE = 21"
definition OBJ_SHARED_BULKHDR_LEN :: int where "OBJ_SHARED_BULKHDR_LEN = 32"

section \<open>The backlog\<close>

definition createReplicationBacklog :: "repl_state \<Rightarrow> repl_state option" where
  "createReplicationBacklog st =
     (if repl_backlog st \<noteq> None then None
      else Some (st\<lparr>repl_backlog := Some (replicate (repl_backlog_size st) None), repl_backlog_histlen := 0, repl_backlog_idx := 0,
                    repl_backlog_off := master_repl_offset st + 1\<rparr>))"

definition resizeReplicationBacklog :: "int \<Rightarrow> repl_state \<Rightarrow> repl_state" where
  "resizeReplicationBacklog n st =
     (let newsize = (if n < CONFIG_REPL_BACKLOG_MIN_SIZE then CONFIG_REPL_BACKLOG_MIN_SIZE else n) in
      if int (repl_backlog_size st) = newsize then st
      else
        let st1 = st\<lparr>repl_backlog_size := nat newsize\<rparr> in
        if repl_backlog st1 \<noteq> None
        then st1\<lparr>repl_backlog := Some (replicate (repl_backlog_size st1) None), repl_backlog_histlen := 0, repl_backlog_idx := 0,
                 repl_backlog_off := master_repl_offset st1 + 1\<rparr>
        else st1)"

definition freeReplicationBacklog :: "repl_state \<Rightarrow> repl_state option" where
  "freeReplicationBacklog st = (if slaves st = [] then Some (st\<lparr>repl_backlog := None\<rparr>) else None)"

text \<open>The loop that writes into the circular buffer; without progress it would not end.\<close>

function backlog_loop :: "nat \<Rightarrow> mem \<Rightarrow> nat \<Rightarrow> nat \<Rightarrow> bytes \<Rightarrow> (mem \<times> nat \<times> nat) option" where
  "backlog_loop sz m idx histlen p =
     (if p = [] then Some (m, idx, histlen)
      else
        let thislen = (if sz - idx > length p then length p else sz - idx) in
        if thislen = 0 then None
        else case wr idx (take thislen p) m of
          None \<Rightarrow> None
        | Some m' \<Rightarrow>
          let idx' = idx + thislen in
          backlog_loop sz m' (if idx' = sz then 0 else idx') (histlen + thislen) (drop thislen p))"
  by pat_completeness auto
termination by (relation "measure (\<lambda>(sz, m, idx, histlen, p). length p)") auto

declare backlog_loop.simps [simp del]

definition feedReplicationBacklog :: "bytes \<Rightarrow> repl_state \<Rightarrow> repl_state option" where
  "feedReplicationBacklog p st =
     do {
       let st1 = st\<lparr>master_repl_offset := master_repl_offset st + int (length p)\<rparr>;
       m \<leftarrow> repl_backlog st1;
       (m', idx, histlen) \<leftarrow> backlog_loop (repl_backlog_size st1) m (repl_backlog_idx st1) (repl_backlog_histlen st1) p;
       let histlen' = (if histlen > repl_backlog_size st1 then repl_backlog_size st1 else histlen);
       Some (st1\<lparr>repl_backlog := Some m', repl_backlog_idx := idx, repl_backlog_histlen := histlen',
                 repl_backlog_off := master_repl_offset st1 - int histlen' + 1\<rparr>)
     }"

text \<open>The bytes of an object, through a local buffer of \<open>n\<close> bytes when it is an integer.\<close>

definition obj_text :: "nat \<Rightarrow> robj \<Rightarrow> bytes option" where
  "obj_text n ob =
     (case obj_data ob of
        ENC_INT v \<Rightarrow> do { (buf, len) \<leftarrow> ll2string (replicate n None) n v; rd 0 len buf }
      | ENC_RAW s \<Rightarrow> sds_content s
      | ENC_EMBSTR s \<Rightarrow> sds_content s)"

definition feedReplicationBacklogWithObject :: "robj \<Rightarrow> repl_state \<Rightarrow> repl_state option" where
  "feedReplicationBacklogWithObject ob st = do { p \<leftarrow> obj_text LONG_STR_SIZE ob; feedReplicationBacklog p st }"

section \<open>Replies\<close>

text \<open>The bytes that the functions of networking.c add to the output of a client. The headers below 32 are shared objects made when the server starts.\<close>

definition shared_hdr :: "u8 \<Rightarrow> nat \<Rightarrow> bytes" where
  "shared_hdr pre n = pre # dec_nat n @ [0x0D, 0x0A]"

definition addReplyLongLongWithPrefix :: "int \<Rightarrow> u8 \<Rightarrow> bytes option" where
  "addReplyLongLongWithPrefix ll pre =
     (if (pre = 0x2A \<or> pre = 0x24) \<and> ll < OBJ_SHARED_BULKHDR_LEN \<and> 0 \<le> ll then Some (shared_hdr pre (nat ll))
      else map_option snd (proto_header (replicate 128 None) pre ll))"

definition addReplyMultiBulkLen :: "nat \<Rightarrow> bytes option" where
  "addReplyMultiBulkLen n =
     (if int n < OBJ_SHARED_BULKHDR_LEN then Some (shared_hdr 0x2A n) else addReplyLongLongWithPrefix (int n) 0x2A)"

fun count_digits :: "nat \<Rightarrow> nat" where
  "count_digits n = (if n div 10 = 0 then 1 else Suc (count_digits (n div 10)))"

declare count_digits.simps [simp del]

text \<open>The length of the text of an object. The negation of the least integer overflows.\<close>

definition bulk_len :: "robj \<Rightarrow> nat option" where
  "bulk_len ob =
     (case obj_data ob of
        ENC_INT n \<Rightarrow> if n < 0 then if n = INT64_MIN then None else Some (Suc (count_digits (nat (- n)))) else Some (count_digits (nat n))
      | ENC_RAW s \<Rightarrow> sdslen s
      | ENC_EMBSTR s \<Rightarrow> sdslen s)"

definition addReplyBulkLen :: "robj \<Rightarrow> bytes option" where
  "addReplyBulkLen ob =
     do {
       len \<leftarrow> bulk_len ob;
       if int len < OBJ_SHARED_BULKHDR_LEN then Some (shared_hdr 0x24 len) else addReplyLongLongWithPrefix (int len) 0x24
     }"

definition addReplyBulk :: "robj \<Rightarrow> bytes option" where
  "addReplyBulk ob = do { h \<leftarrow> addReplyBulkLen ob; t \<leftarrow> obj_text 32 ob; Some (h @ t @ [0x0D, 0x0A]) }"

section \<open>Propagation\<close>

text \<open>The loops over the replicas skip those that wait for a background save to start.\<close>

definition send_slaves :: "bytes \<Rightarrow> repl_state \<Rightarrow> repl_state" where
  "send_slaves bs st =
     st\<lparr>slaves := map (\<lambda>r. if replstate r = SLAVE_STATE_WAIT_BGSAVE_START then r else r\<lparr>r_out := r_out r @ bs\<rparr>) (slaves st)\<rparr>"

fun backlog_args :: "mem \<Rightarrow> robj list \<Rightarrow> repl_state \<Rightarrow> repl_state option" where
  "backlog_args aux [] st = Some st"
| "backlog_args aux (ob # objs) st =
     do {
       objlen \<leftarrow> stringObjectLen ob;
       (aux', h) \<leftarrow> proto_header aux 0x24 (int objlen);
       st1 \<leftarrow> feedReplicationBacklog h st;
       st2 \<leftarrow> feedReplicationBacklogWithObject ob st1;
       st3 \<leftarrow> feedReplicationBacklog (drop (length h - 2) h) st2;
       backlog_args aux' objs st3
     }"

text \<open>The text of the SELECT is the same whether it is a shared object or composed. It goes to the backlog and to the replicas.\<close>

definition feed_select :: "int \<Rightarrow> repl_state \<Rightarrow> repl_state option" where
  "feed_select dictid st =
     (if slaveseldb st \<noteq> dictid then do {
        st1 \<leftarrow> (if repl_backlog st \<noteq> None then feedReplicationBacklog (select_text dictid) st else Some st);
        Some (send_slaves (select_text dictid) st1)
      } else Some st)"

definition feed_backlog :: "robj list \<Rightarrow> repl_state \<Rightarrow> repl_state option" where
  "feed_backlog objs st =
     (if repl_backlog st \<noteq> None then do {
        (aux, h) \<leftarrow> proto_header (replicate (LONG_STR_SIZE + 3) None) 0x2A (int (length objs));
        st1 \<leftarrow> feedReplicationBacklog h st;
        backlog_args aux objs st1
      } else Some st)"

definition replica_text :: "robj list \<Rightarrow> bytes option" where
  "replica_text objs = do { h \<leftarrow> addReplyMultiBulkLen (length objs); bs \<leftarrow> those (map addReplyBulk objs); Some (h @ concat bs) }"

definition replicationFeedSlaves :: "int \<Rightarrow> robj list \<Rightarrow> repl_state \<Rightarrow> repl_state option" where
  "replicationFeedSlaves dictid objs st =
     (if has_masterhost st then Some st
      else if repl_backlog st = None \<and> slaves st = [] then Some st
      else if slaves st \<noteq> [] \<and> repl_backlog st = None then None
      else do {
        st1 \<leftarrow> feed_select dictid st;
        let st2 = st1\<lparr>slaveseldb := dictid\<rparr>;
        st3 \<leftarrow> feed_backlog objs st2;
        (if list_all (\<lambda>r. replstate r = SLAVE_STATE_WAIT_BGSAVE_START) (slaves st3) then Some st3
         else do { t \<leftarrow> replica_text objs; Some (send_slaves t st3) })
      })"

definition replicationFeedSlavesFromMasterStream :: "bytes \<Rightarrow> repl_state \<Rightarrow> repl_state option" where
  "replicationFeedSlavesFromMasterStream buf st =
     do {
       st1 \<leftarrow> (if repl_backlog st \<noteq> None then feedReplicationBacklog buf st else Some st);
       Some (send_slaves buf st1)
     }"

section \<open>Reading the backlog\<close>

function reply_loop :: "nat \<Rightarrow> mem \<Rightarrow> nat \<Rightarrow> nat \<Rightarrow> bytes \<Rightarrow> bytes option" where
  "reply_loop sz m j len out =
     (if len = 0 then Some out
      else
        let thislen = (if sz - j < len then sz - j else len) in
        if thislen = 0 then None
        else case rd j thislen m of None \<Rightarrow> None | Some bs \<Rightarrow> reply_loop sz m 0 (len - thislen) (out @ bs))"
  by pat_completeness auto
termination by (relation "measure (\<lambda>(sz, m, j, len, out). len)") auto

declare reply_loop.simps [simp del]

text \<open>The bytes queued. A length that is negative would not end the loop.\<close>

definition addReplyReplicationBacklog :: "int \<Rightarrow> repl_state \<Rightarrow> bytes option" where
  "addReplyReplicationBacklog offset st =
     (if repl_backlog_histlen st = 0 then Some []
      else do {
        m \<leftarrow> repl_backlog st;
        let skip = offset - repl_backlog_off st;
        let j = (repl_backlog_idx st + (repl_backlog_size st - repl_backlog_histlen st)) mod repl_backlog_size st;
        let j' = (int j + skip) mod int (repl_backlog_size st);
        let len = int (repl_backlog_histlen st) - skip;
        (if skip < 0 \<or> len < 0 then None else reply_loop (repl_backlog_size st) m (nat j') (nat len) [])
      })"


section \<open>The backlog holds the end of the stream\<close>

text \<open>The index of the byte written \<open>d\<close> bytes ago, and what a circular buffer with the last \<open>h\<close> bytes of a stream looks like.\<close>

definition ago :: "nat \<Rightarrow> nat \<Rightarrow> nat \<Rightarrow> nat" where
  "ago sz idx d = (if d \<le> idx then idx - d else idx + sz - d)"

definition ring :: "nat \<Rightarrow> mem \<Rightarrow> nat \<Rightarrow> nat \<Rightarrow> bytes \<Rightarrow> bool" where
  "ring sz m idx h S \<longleftrightarrow> length m = sz \<and> idx < sz \<and> h \<le> sz \<and> h \<le> length S \<and>
     (\<forall>d. 0 < d \<and> d \<le> h \<longrightarrow> m ! ago sz idx d = Some (S ! (length S - d)))"

lemma nth_wr: "wr off bs m = Some m' \<Longrightarrow> i < length m \<Longrightarrow> m' ! i = (if off \<le> i \<and> i < off + length bs then Some (bs ! (i - off)) else m ! i)"
  by (auto simp: wr_def nth_append min_def split: if_splits)

lemma ago_push:
  assumes "idx < sz" "idx + n \<le> sz" "0 < d" "d \<le> sz"
  shows "ago sz (if idx + n = sz then 0 else idx + n) d = (if d \<le> n then idx + n - d else ago sz idx (d - n))"
  using assms by (auto simp: ago_def)

lemma ring_push:
  assumes r: "ring sz m idx h S" and p: "idx + length p \<le> sz" and w: "wr idx p m = Some m'"
  shows "ring sz m' (if idx + length p = sz then 0 else idx + length p) (min sz (h + length p)) (S @ p)"
proof -
  let ?n = "length p" and ?idx = "if idx + length p = sz then 0 else idx + length p"
  have i: "idx < sz" "length m = sz" "length m' = sz" using r wr_length [OF w] by (auto simp: ring_def)
  have "m' ! ago sz ?idx d = Some ((S @ p) ! (length (S @ p) - d))" if d: "0 < d" "d \<le> min sz (h + ?n)" for d
  proof (cases "d \<le> ?n")
    case True
    then obtain e where e: "?n = d + e" using le_Suc_ex by blast
    then show ?thesis using d ago_push [OF i(1) p d(1)] nth_wr [OF w, of "idx + e"] i p by (simp add: nth_append)
  next
    case False
    let ?j = "ago sz idx (d - ?n)"
    have "?j < idx \<or> idx + ?n \<le> ?j" "?j < sz" using False d i(1) by (auto simp: ago_def)
    then have "m' ! ?j = m ! ?j" using nth_wr [OF w, of ?j] i(2) by auto
    also have "\<dots> = Some (S ! (length S - (d - ?n)))" using r d False by (auto simp: ring_def)
    also have "S ! (length S - (d - ?n)) = (S @ p) ! (length (S @ p) - d)"
    proof -
      have "length (S @ p) - d < length S" "length (S @ p) - d = length S - (d - ?n)" using r d False by (auto simp: ring_def)
      then show ?thesis by (simp add: nth_append)
    qed
    finally show ?thesis using False d ago_push [OF i(1) p d(1)] by simp
  qed
  then show ?thesis using r i p by (auto simp: ring_def)
qed

lemma backlog_loop_ring:
  "ring sz m idx (min sz h) S \<Longrightarrow>
   \<exists>m' idx'. backlog_loop sz m idx h p = Some (m', idx', h + length p) \<and> ring sz m' idx' (min sz (h + length p)) (S @ p)"
proof (induction p arbitrary: m idx h S rule: length_induct)
  case (1 p)
  show ?case
  proof (cases "p = []")
    case True
    then show ?thesis using "1.prems" by (simp add: backlog_loop.simps)
  next
    case False
    define k where "k = (if sz - idx > length p then length p else sz - idx)"
    have i: "idx < sz" "length m = sz" using "1.prems" by (auto simp: ring_def)
    have k: "0 < k" "k \<le> length p" "idx + k \<le> sz" using i False by (auto simp: k_def)
    then obtain m1 where w: "wr idx (take k p) m = Some m1" using i by (simp add: wr_def)
    let ?idx = "if idx + k = sz then 0 else idx + k"
    have "length (take k p) = k" "min sz (min sz h + k) = min sz (h + k)" using k(2) by (auto simp: min_def)
    then have "ring sz m1 ?idx (min sz (h + k)) (S @ take k p)" using ring_push [OF "1.prems" _ w] k(3) by (simp only:)
    moreover have "length (drop k p) < length p" using k by simp
    ultimately obtain m' idx' where r: "backlog_loop sz m1 ?idx (h + k) (drop k p) = Some (m', idx', h + k + length (drop k p))"
      "ring sz m' idx' (min sz (h + k + length (drop k p))) ((S @ take k p) @ drop k p)"
      using "1.IH" by blast
    moreover have "backlog_loop sz m idx h p = backlog_loop sz m1 ?idx (h + k) (drop k p)"
      using False k(1) w by (subst backlog_loop.simps) (simp add: k_def [symmetric] Let_def)
    ultimately show ?thesis using k(2) by simp
  qed
qed

text \<open>\<open>backlog_ok B S st\<close>: the backlog has the end of the stream \<open>S\<close> that started at offset \<open>B\<close>. \<open>core\<close> is the part of the
  state that feeding the backlog leaves alone.\<close>

definition backlog_ok :: "int \<Rightarrow> bytes \<Rightarrow> repl_state \<Rightarrow> bool" where
  "backlog_ok B S st \<longleftrightarrow>
     (\<exists>m. repl_backlog st = Some m \<and> ring (repl_backlog_size st) m (repl_backlog_idx st) (repl_backlog_histlen st) S) \<and>
     master_repl_offset st = B + int (length S) \<and> repl_backlog_off st = master_repl_offset st - int (repl_backlog_histlen st) + 1"

definition core :: "repl_state \<Rightarrow> repl_state" where
  "core st = st\<lparr>repl_backlog := None, repl_backlog_histlen := 0, repl_backlog_idx := 0, repl_backlog_off := 0, master_repl_offset := 0\<rparr>"

lemma core_fields:
  assumes "core st' = core st"
  shows "slaves st' = slaves st" "slaveseldb st' = slaveseldb st" "has_masterhost st' = has_masterhost st" "link_up st' = link_up st"
    "replid st' = replid st" "replid2 st' = replid2 st" "second_replid_offset st' = second_replid_offset st"
    "repl_backlog_size st' = repl_backlog_size st" "rdb_child st' = rdb_child st"
  using assms by (cases st; cases st'; simp add: core_def)+

lemma backlog_set: "backlog_ok B S st \<Longrightarrow> repl_backlog st \<noteq> None"
  by (auto simp: backlog_ok_def)

lemma feed_ok:
  assumes "backlog_ok B S st"
  shows "\<exists>st'. feedReplicationBacklog p st = Some st' \<and> backlog_ok B (S @ p) st' \<and> core st' = core st"
proof -
  obtain m where m: "repl_backlog st = Some m" "ring (repl_backlog_size st) m (repl_backlog_idx st) (repl_backlog_histlen st) S"
    using assms by (auto simp: backlog_ok_def)
  then have "min (repl_backlog_size st) (repl_backlog_histlen st) = repl_backlog_histlen st" by (auto simp: ring_def)
  then obtain m' idx' where "backlog_loop (repl_backlog_size st) m (repl_backlog_idx st) (repl_backlog_histlen st) p =
      Some (m', idx', repl_backlog_histlen st + length p)"
    "ring (repl_backlog_size st) m' idx' (min (repl_backlog_size st) (repl_backlog_histlen st + length p)) (S @ p)"
    using backlog_loop_ring [of "repl_backlog_size st" m "repl_backlog_idx st" "repl_backlog_histlen st" S p] m(2) by auto
  then show ?thesis
    using assms m(1) by (auto simp: feedReplicationBacklog_def backlog_ok_def core_def Let_def min_def split: if_splits)
qed

section \<open>What is queued from the backlog\<close>

lemma ring_rd:
  assumes "ring sz m idx h S" "0 < len" "len \<le> h" "k \<le> len" "ago sz idx len + k \<le> sz"
  shows "rd (ago sz idx len) k m = Some (take k (drop (length S - len) S))"
proof -
  have l: "length m = sz" "len \<le> length S" "len \<le> sz" "idx < sz" using assms by (auto simp: ring_def)
  have "m ! (ago sz idx len + i) = Some (S ! (length S - len + i))" if "i < k" for i
  proof -
    have "ago sz idx (len - i) = ago sz idx len + i" using that assms(4,5) l by (auto simp: ago_def split: if_splits)
    moreover have "m ! ago sz idx (len - i) = Some (S ! (length S - (len - i)))" using assms that by (auto simp: ring_def)
    ultimately show ?thesis using that assms(4) l by (simp add: add.commute)
  qed
  then have "take k (drop (ago sz idx len) m) = map Some (take k (drop (length S - len) S))"
    using assms(4,5) l by (intro nth_equalityI) simp_all
  then show ?thesis using assms(5) l by (simp add: rd_Some)
qed

lemma reply_ring:
  assumes r: "ring sz m idx h S" and "len \<le> h"
  shows "reply_loop sz m (ago sz idx len) len [] = Some (drop (length S - len) S)"
proof (cases "len = 0")
  case True
  then show ?thesis by (simp add: reply_loop.simps)
next
  case False
  let ?j = "ago sz idx len"
  have l: "length m = sz" "len \<le> length S" "len \<le> sz" "idx < sz" using assms by (auto simp: ring_def)
  then have j: "?j < sz" using False by (auto simp: ago_def)
  have one: "reply_loop sz m (ago sz idx n) n out = Some (out @ drop (length S - n) S)" if "ago sz idx n + n \<le> sz" "n \<le> len" for n out
  proof (cases "n = 0")
    case False
    then show ?thesis using ring_rd [OF r, of n n] that assms(2) l
      by (subst reply_loop.simps) (simp add: Let_def reply_loop.simps [of sz m 0 0])
  qed (simp add: reply_loop.simps)
  show ?thesis
  proof (cases "?j + len \<le> sz")
    case True
    then show ?thesis using one by simp
  next
    case c: False
    have k: "sz - ?j = len - idx" "idx < len" "ago sz idx idx = 0" using c l by (auto simp: ago_def split: if_splits)
    have "sz - ?j < len" using c j by simp
    then have "reply_loop sz m ?j len [] = reply_loop sz m 0 (len - (sz - ?j)) (take (sz - ?j) (drop (length S - len) S))"
      using False c j ring_rd [OF r, of len "sz - ?j"] assms(2) by (subst reply_loop.simps) (simp add: Let_def)
    also have "\<dots> = reply_loop sz m (ago sz idx idx) idx (take (len - idx) (drop (length S - len) S))" using k by simp
    also have "\<dots> = Some (take (len - idx) (drop (length S - len) S) @ drop (length S - idx) S)" using one [of idx] k l by simp
    also have "take (len - idx) (drop (length S - len) S) @ drop (length S - idx) S = drop (length S - len) S"
      using append_take_drop_id [of "len - idx" "drop (length S - len) S"] k(2) l(2) by (simp add: add.commute)
    finally show ?thesis .
  qed
qed

lemma read_backlog:
  assumes b: "backlog_ok B S st" and o: "repl_backlog_off st \<le> off" "off \<le> repl_backlog_off st + int (repl_backlog_histlen st)"
  shows "addReplyReplicationBacklog off st = Some (drop (nat (off - 1 - B)) S) \<and> B < off \<and> off \<le> B + int (length S) + 1"
proof -
  let ?h = "repl_backlog_histlen st" and ?n = "repl_backlog_size st" and ?i = "repl_backlog_idx st"
  obtain m where m: "repl_backlog st = Some m" "ring ?n m ?i ?h S" using b by (auto simp: backlog_ok_def)
  have off: "repl_backlog_off st = B + int (length S) - int ?h + 1" using b by (simp add: backlog_ok_def)
  define len where "len = nat (int ?h - (off - repl_backlog_off st))"
  have l: "int len = int ?h - (off - repl_backlog_off st)" "len \<le> ?h" "?h \<le> length S" "?i < ?n" "?h \<le> ?n"
    using o m(2) by (auto simp: len_def ring_def)
  have e: "length S - len = nat (off - 1 - B)" using l off by simp
  have "addReplyReplicationBacklog off st = Some (drop (length S - len) S)"
  proof (cases "len = 0")
    case True
    then show ?thesis using m(1) o l(1) by (auto simp: addReplyReplicationBacklog_def Let_def reply_loop.simps)
  next
    case False
    have "(?i + (?n - ?h)) mod ?n = ago ?n ?i ?h" using False l by (auto simp: ago_def mod_if)
    moreover have "(int (ago ?n ?i ?h) + (off - repl_backlog_off st)) mod int ?n = int (ago ?n ?i len)"
    proof -
      have "int (ago ?n ?i ?h) + (off - repl_backlog_off st) = int (ago ?n ?i ?h + (?h - len))" using l by simp
      moreover have "(ago ?n ?i ?h + (?h - len)) mod ?n = ago ?n ?i len" using False l by (auto simp: ago_def mod_if)
      ultimately show ?thesis by (metis zmod_int)
    qed
    ultimately show ?thesis using False m o l reply_ring [OF m(2) l(2)]
      by (auto simp: addReplyReplicationBacklog_def Let_def len_def [symmetric])
  qed
  then show ?thesis using e off o l by simp
qed


section \<open>The backlog and the replicas get the same bytes\<close>

lemma obj_text_rep: "obj_rep ob str \<Longrightarrow> 20 < n \<Longrightarrow> obj_text n ob = Some str"
  using content_rep ll2string_text
  by (auto simp: obj_rep_def obj_text_def rd_def split: obj_data.splits)

lemma hdr_nat: "n < 2 ^ 63 \<Longrightarrow> 24 \<le> length buf \<Longrightarrow>
  \<exists>buf'. proto_header buf c (int n) = Some (buf', c # dec_nat n @ [0x0D, 0x0A]) \<and> length buf' = length buf"
  using proto_header_eq [of "int n" buf c] by (simp add: dec_int_nat is_int64_def)

lemma backlog_args_ok:
  "list_all2 obj_rep objs args \<Longrightarrow> backlog_ok B S st \<Longrightarrow> 24 \<le> length aux \<Longrightarrow>
   \<exists>st'. backlog_args aux objs st = Some st' \<and> backlog_ok B (S @ enc_args args) st' \<and> core st' = core st"
proof (induction objs args arbitrary: S st aux rule: list_all2_induct)
  case Nil
  then show ?case by simp
next
  case (Cons ob objs a args)
  have len: "stringObjectLen ob = Some (length a)" "length a < 2 ^ 63" using stringObjectLen_rep [OF Cons(1)] Cons(1) by (auto simp: obj_rep_def)
  let ?h = "0x24 # dec_nat (length a) @ [0x0D, 0x0A]"
  obtain aux' where h: "proto_header aux 0x24 (int (length a)) = Some (aux', ?h)" "24 \<le> length aux'" using hdr_nat [OF len(2), of aux "0x24"] Cons.prems(2) by auto
  obtain st1 where st1: "feedReplicationBacklog ?h st = Some st1" "backlog_ok B (S @ ?h) st1" "core st1 = core st"
    using feed_ok [OF Cons.prems(1)] by blast
  obtain st2 where st2: "feedReplicationBacklog a st1 = Some st2" "backlog_ok B ((S @ ?h) @ a) st2" "core st2 = core st1"
    using feed_ok [OF st1(2)] by blast
  obtain st3 where st3: "feedReplicationBacklog [0x0D, 0x0A] st2 = Some st3" "backlog_ok B (((S @ ?h) @ a) @ [0x0D, 0x0A]) st3" "core st3 = core st2"
    using feed_ok [OF st2(2)] by blast
  have "((S @ ?h) @ a) @ [0x0D, 0x0A] = S @ enc_arg a" by (simp add: enc_arg_def)
  then obtain st' where "backlog_args aux' objs st3 = Some st'" "backlog_ok B ((S @ enc_arg a) @ enc_args args) st'" "core st' = core st3"
    using Cons.IH [of "S @ enc_arg a" st3 aux'] st3(2) h(2) by auto
  moreover have "feedReplicationBacklogWithObject ob st1 = Some st2"
    using obj_text_rep [OF Cons(1), of LONG_STR_SIZE] st2(1) by (simp add: feedReplicationBacklogWithObject_def LONG_STR_SIZE_def)
  ultimately show ?case using len(1) h(1) st1 st2(3) st3(1,3) by auto
qed

lemma count_digits_eq: "count_digits n = length (dec_nat n)"
proof (induction n rule: count_digits.induct)
  case (1 n)
  then show ?case using len_dec_small [of n] len_dec_div [of n] by (subst count_digits.simps) (auto simp: div_eq_0_iff)
qed

lemma addReplyBulk_rep:
  assumes "obj_rep ob a" "obj_data ob \<noteq> ENC_INT INT64_MIN"
  shows "addReplyBulk ob = Some (enc_arg a)"
proof -
  have "bulk_len ob = Some (length a)"
    using assms sdslen_rep by (auto simp: bulk_len_def obj_rep_def dec_int_def count_digits_eq split: obj_data.splits)
  moreover have "length a < 2 ^ 63" using assms(1) by (auto simp: obj_rep_def)
  ultimately have "addReplyBulkLen ob = Some (0x24 # dec_nat (length a) @ [0x0D, 0x0A])"
    using hdr_nat [of "length a" "replicate 128 None" "0x24"] by (auto simp: addReplyBulkLen_def shared_hdr_def addReplyLongLongWithPrefix_def)
  then show ?thesis using obj_text_rep [OF assms(1), of 32] by (simp add: addReplyBulk_def enc_arg_def)
qed

lemma replica_text_ok:
  assumes "list_all2 obj_rep objs args" "list_all (\<lambda>ob. obj_data ob \<noteq> ENC_INT INT64_MIN) objs" "length objs < 2 ^ 31"
  shows "replica_text objs = Some (enc_cmd args)"
proof -
  have "those (map addReplyBulk objs) = Some (map enc_arg args)"
    using assms(1,2) by (induction rule: list_all2_induct) (auto simp: addReplyBulk_rep)
  moreover have "length args = length objs" using assms(1) by (simp add: list_all2_lengthD)
  moreover have "addReplyMultiBulkLen (length objs) = Some (0x2A # dec_nat (length objs) @ [0x0D, 0x0A])"
    using hdr_nat [of "length objs" "replicate 128 None" "0x2A"] assms(3)
    by (auto simp: addReplyMultiBulkLen_def shared_hdr_def addReplyLongLongWithPrefix_def)
  ultimately show ?thesis by (simp add: replica_text_def enc_cmd_def enc_args_def)
qed

definition deliver :: "bytes \<Rightarrow> replica \<Rightarrow> replica" where
  "deliver bs r = (if replstate r = SLAVE_STATE_WAIT_BGSAVE_START then r else r\<lparr>r_out := r_out r @ bs\<rparr>)"

lemma send_slaves_eq: "send_slaves bs st = st\<lparr>slaves := map (deliver bs) (slaves st)\<rparr>"
  by (simp add: send_slaves_def deliver_def)

lemma deliver_deliver: "deliver b (deliver a r) = deliver (a @ b) r"
  by (simp add: deliver_def)

lemma backlog_ok_upd [simp]:
  "backlog_ok B S (st\<lparr>slaves := x\<rparr>) = backlog_ok B S st" "backlog_ok B S (st\<lparr>slaveseldb := d\<rparr>) = backlog_ok B S st"
  by (simp_all add: backlog_ok_def)

lemma core_upd: "core (st\<lparr>slaves := x\<rparr>) = core st\<lparr>slaves := x\<rparr>" "core (st\<lparr>slaveseldb := d\<rparr>) = core st\<lparr>slaveseldb := d\<rparr>"
  by (simp_all add: core_def)

lemma feed_select_ok:
  assumes "backlog_ok B S st"
  shows "\<exists>st'. feed_select dictid st = Some st' \<and> backlog_ok B (S @ (if slaveseldb st \<noteq> dictid then select_text dictid else [])) st' \<and>
    core st' = core st\<lparr>slaves := map (deliver (if slaveseldb st \<noteq> dictid then select_text dictid else [])) (slaves st)\<rparr>"
proof (cases "slaveseldb st = dictid")
  case True
  have "map (deliver []) (slaves st) = slaves st" by (simp add: deliver_def map_idI)
  then show ?thesis using True assms by (simp add: feed_select_def core_def)
next
  case False
  obtain st1 where st1: "feedReplicationBacklog (select_text dictid) st = Some st1" "backlog_ok B (S @ select_text dictid) st1" "core st1 = core st"
    using feed_ok [OF assms] by blast
  then show ?thesis using False backlog_set [OF assms] core_fields(1) [OF st1(3)]
    by (auto simp: feed_select_def send_slaves_eq core_upd)
qed

lemma feed_backlog_ok:
  assumes "list_all2 obj_rep objs args" "length objs < 2 ^ 31" "backlog_ok B S st"
  shows "\<exists>st'. feed_backlog objs st = Some st' \<and> backlog_ok B (S @ enc_cmd args) st' \<and> core st' = core st"
proof -
  have n: "length args = length objs" using assms(1) by (simp add: list_all2_lengthD)
  let ?h = "0x2A # dec_nat (length objs) @ [0x0D, 0x0A]"
  obtain aux where h: "proto_header (replicate (LONG_STR_SIZE + 3) None) 0x2A (int (length objs)) = Some (aux, ?h)" "24 \<le> length aux"
    using hdr_nat [of "length objs" "replicate (LONG_STR_SIZE + 3) None" "0x2A"] assms(2) by (auto simp: LONG_STR_SIZE_def)
  obtain st1 where st1: "feedReplicationBacklog ?h st = Some st1" "backlog_ok B (S @ ?h) st1" "core st1 = core st"
    using feed_ok [OF assms(3)] by blast
  obtain st' where "backlog_args aux objs st1 = Some st'" "backlog_ok B ((S @ ?h) @ enc_args args) st'" "core st' = core st1"
    using backlog_args_ok [OF assms(1) st1(2) h(2)] by blast
  then show ?thesis using h(1) st1 n backlog_set [OF assms(3)] by (auto simp: feed_backlog_def enc_cmd_def)
qed

lemma feedSlaves_ok:
  fixes dictid :: int
  assumes "list_all2 obj_rep objs args" "list_all (\<lambda>ob. obj_data ob \<noteq> ENC_INT INT64_MIN) objs" "length objs < 2 ^ 31"
    and b: "backlog_ok B S st" and "\<not> has_masterhost st"
  defines "D \<equiv> enc_cmds (with_select (slaveseldb st) dictid [args])"
  shows "\<exists>st'. replicationFeedSlaves dictid objs st = Some st' \<and> backlog_ok B (S @ D) st' \<and>
    core st' = core st\<lparr>slaveseldb := dictid, slaves := map (deliver D) (slaves st)\<rparr>"
proof -
  define sel where "sel = (if slaveseldb st \<noteq> dictid then select_text dictid else [])"
  have D: "D = sel @ enc_cmd args" by (simp add: D_def sel_def with_select_def select_text_enc)
  obtain st1 where st1: "feed_select dictid st = Some st1" "backlog_ok B (S @ sel) st1" "core st1 = core st\<lparr>slaves := map (deliver sel) (slaves st)\<rparr>"
    using feed_select_ok [OF b, of dictid] by (auto simp: sel_def)
  obtain st3 where st3: "feed_backlog objs (st1\<lparr>slaveseldb := dictid\<rparr>) = Some st3" "backlog_ok B ((S @ sel) @ enc_cmd args) st3"
    "core st3 = core (st1\<lparr>slaveseldb := dictid\<rparr>)"
    using feed_backlog_ok [OF assms(1,3), of B "S @ sel" "st1\<lparr>slaveseldb := dictid\<rparr>"] st1(2) by auto
  have c3: "core st3 = core st\<lparr>slaveseldb := dictid, slaves := map (deliver sel) (slaves st)\<rparr>" using st3(3) st1(3) by (simp add: core_upd)
  have sl: "slaves st3 = map (deliver sel) (slaves st)" using c3 by (cases st3; cases st; simp add: core_def)
  have st': "map (deliver (enc_cmd args)) (slaves st3) = map (deliver D) (slaves st)" by (simp add: sl D deliver_deliver)
  have wait: "map (deliver D) (slaves st) = slaves st3" if "list_all (\<lambda>r. replstate r = SLAVE_STATE_WAIT_BGSAVE_START) (slaves st3)"
    using that unfolding st' [symmetric] by (auto simp: list_all_iff deliver_def intro!: map_idI)
  show ?thesis
    using st1(1) st3(1,2) c3 st' wait replica_text_ok [OF assms(1-3)] backlog_set [OF b] assms(5) sl
    by (auto simp: replicationFeedSlaves_def send_slaves_eq core_upd D)
qed

lemma forward_stream_ok:
  assumes "backlog_ok B S st"
  shows "\<exists>st'. replicationFeedSlavesFromMasterStream buf st = Some st' \<and> backlog_ok B (S @ buf) st' \<and>
    core st' = core st\<lparr>slaves := map (deliver buf) (slaves st)\<rparr>"
proof -
  obtain st1 where st1: "feedReplicationBacklog buf st = Some st1" "backlog_ok B (S @ buf) st1" "core st1 = core st"
    using feed_ok [OF assms] by blast
  then show ?thesis using backlog_set [OF assms] core_fields(1) [OF st1(3)]
    by (auto simp: replicationFeedSlavesFromMasterStream_def send_slaves_eq core_upd)
qed

end
