(* ===== verification/Repl_Sync.thy ===== *)
theory Repl_Sync
  imports Repl
begin

text \<open>
  The synchronisation of replicas by a master (replication.c): replication identifiers, the SYNC and PSYNC commands, the
  background save for a full resynchronisation, and what happens to the waiting replicas when it starts and ends. Random
  identifiers, the outcome of forks and file operations are arguments. The transfer of the data set itself, the script
  cache and statistics are left out. The reachable states are an inductive relation with the
  stream sent so far; the theorems relate every replica's output to it.
\<close>

section \<open>Replication identifiers\<close>

definition changeReplicationId :: "bytes \<Rightarrow> repl_state \<Rightarrow> repl_state" where
  "changeReplicationId newid st = st\<lparr>replid := newid\<rparr>"

definition clearReplicationId2 :: "repl_state \<Rightarrow> repl_state" where
  "clearReplicationId2 st = st\<lparr>replid2 := replicate 40 0x30, second_replid_offset := - 1\<rparr>"

definition shiftReplicationId :: "bytes \<Rightarrow> repl_state \<Rightarrow> repl_state" where
  "shiftReplicationId newid st =
     changeReplicationId newid (st\<lparr>replid2 := replid st, second_replid_offset := master_repl_offset st + 1\<rparr>)"

section \<open>Replicas that leave\<close>

definition refreshGoodSlavesCount :: "repl_state \<Rightarrow> repl_state" where
  "refreshGoodSlavesCount st =
     (if repl_min_slaves_to_write st = 0 \<or> repl_min_slaves_max_lag st = 0 then st
      else st\<lparr>repl_good_slaves_count :=
        length (filter (\<lambda>r. replstate r = SLAVE_STATE_ONLINE \<and> srv_time st - r_ack_time r \<le> repl_min_slaves_max_lag st) (slaves st))\<rparr>)"

text \<open>The part of \<^verbatim>\<open>freeClient\<close> for a replica; \<open>rest\<close> are the other replicas.\<close>

definition freeClient_slave :: "replica list \<Rightarrow> repl_state \<Rightarrow> repl_state" where
  "freeClient_slave rest st =
     (let st1 = st\<lparr>slaves := rest\<rparr> in
      refreshGoodSlavesCount (if slaves st1 = [] then st1\<lparr>repl_no_slaves_since := srv_time st1\<rparr> else st1))"

fun disconnect_loop :: "replica list \<Rightarrow> repl_state \<Rightarrow> repl_state" where
  "disconnect_loop [] st = st"
| "disconnect_loop (r # rs) st = disconnect_loop rs (freeClient_slave rs st)"

definition disconnectSlaves :: "repl_state \<Rightarrow> repl_state" where
  "disconnectSlaves st = disconnect_loop (slaves st) st"

text \<open>Turning a replica into a master, without the connection to the old master.\<close>

definition replicationUnsetMaster :: "bytes \<Rightarrow> repl_state \<Rightarrow> repl_state" where
  "replicationUnsetMaster newid st =
     (if \<not> has_masterhost st then st
      else
        let st1 = shiftReplicationId newid (st\<lparr>has_masterhost := False\<rparr>);
            st2 = disconnectSlaves st1 in
        st2\<lparr>link_up := False, slaveseldb := - 1, repl_no_slaves_since := srv_time st2\<rparr>)"

text \<open>The part of \<^verbatim>\<open>replicationCron\<close> that frees the backlog.\<close>

definition replicationCron_backlog :: "bytes \<Rightarrow> repl_state \<Rightarrow> repl_state option" where
  "replicationCron_backlog newid st =
     (if slaves st = [] \<and> repl_backlog_time_limit st \<noteq> 0 \<and> repl_backlog st \<noteq> None \<and> \<not> has_masterhost st \<and>
         srv_time st - repl_no_slaves_since st > repl_backlog_time_limit st
      then freeReplicationBacklog (clearReplicationId2 (changeReplicationId newid st))
      else Some st)"

section \<open>Full resynchronisation\<close>

definition getPsyncInitialOffset :: "repl_state \<Rightarrow> int" where
  "getPsyncInitialOffset st = master_repl_offset st"

definition fullresync_line :: "bytes \<Rightarrow> int \<Rightarrow> bytes" where
  "fullresync_line rid offset = ascii ''+FULLRESYNC '' @ rid @ 0x20 # dec_int offset @ [0x0D, 0x0A]"

text \<open>A replica whose socket does not take the line is closed later.\<close>

definition replicationSetupSlaveForFullResync :: "replica \<Rightarrow> int \<Rightarrow> repl_state \<Rightarrow> replica \<times> repl_state" where
  "replicationSetupSlaveForFullResync slave offset st =
     (let slave1 = slave\<lparr>psync_initial_offset := offset, replstate := SLAVE_STATE_WAIT_BGSAVE_END\<rparr>;
          st1 = st\<lparr>slaveseldb := - 1\<rparr> in
      if \<not> r_pre_psync slave1 then
        if r_sock_ok slave1 then (slave1\<lparr>r_sock := r_sock slave1 @ fullresync_line (replid st1) offset\<rparr>, st1)
        else (slave1\<lparr>r_close_asap := True\<rparr>, st1)
      else (slave1, st1))"

text \<open>The loop over the replicas; the first list has those done.\<close>

fun setup_loop :: "replica list \<Rightarrow> replica list \<Rightarrow> repl_state \<Rightarrow> repl_state" where
  "setup_loop rs [] st = st\<lparr>slaves := rs\<rparr>"
| "setup_loop rs (r # rest) st =
     (if replstate r = SLAVE_STATE_WAIT_BGSAVE_START then
        let (r', st') = replicationSetupSlaveForFullResync r (getPsyncInitialOffset st) st in setup_loop (rs @ [r']) rest st'
      else setup_loop (rs @ [r]) rest st)"

text \<open>Outcomes of starting the child process.\<close>

datatype bgsave = BgsaveStarted | BgsaveRefused | ForkFailed

text \<open>Without the child process and the pipe. After a failed fork the replicas go back to the state they had.\<close>

definition rdbSaveToSlavesSockets :: "bgsave \<Rightarrow> repl_state \<Rightarrow> repl_state \<times> bool" where
  "rdbSaveToSlavesSockets bg st =
     (if rdb_aof_child st \<or> rdb_child st \<noteq> None \<or> bg = BgsaveRefused then (st, False)
      else
        let st1 = setup_loop [] (slaves st) st in
        if bg = ForkFailed
        then (st1\<lparr>slaves := map2 (\<lambda>old r. if replstate old = SLAVE_STATE_WAIT_BGSAVE_START
                                        then r\<lparr>replstate := SLAVE_STATE_WAIT_BGSAVE_START\<rparr> else r) (slaves st) (slaves st1)\<rparr>, False)
        else (st1\<lparr>rdb_child := Some RDB_CHILD_TYPE_SOCKET\<rparr>, True))"

text \<open>Saving to disk, without the child process.\<close>

definition rdbSaveBackground :: "bgsave \<Rightarrow> repl_state \<Rightarrow> repl_state \<times> bool" where
  "rdbSaveBackground bg st =
     (if rdb_aof_child st \<or> rdb_child st \<noteq> None \<or> bg \<noteq> BgsaveStarted then (st, False)
      else (st\<lparr>rdb_child := Some RDB_CHILD_TYPE_DISK\<rparr>, True))"

text \<open>Capability 1 is SLAVE\_CAPA\_EOF. Replicas that were waiting are dropped, with an error, when the save fails.\<close>

definition startBgsaveForReplication :: "nat \<Rightarrow> bgsave \<Rightarrow> repl_state \<Rightarrow> repl_state" where
  "startBgsaveForReplication mincapa bg st =
     (let socket_target = repl_diskless_sync st \<and> mincapa AND 1 \<noteq> 0;
          (st1, ok) = (if socket_target then rdbSaveToSlavesSockets bg st else rdbSaveBackground bg st) in
      if \<not> ok then st1\<lparr>slaves := filter (\<lambda>r. replstate r \<noteq> SLAVE_STATE_WAIT_BGSAVE_START) (slaves st1)\<rparr>
      else if \<not> socket_target then setup_loop [] (slaves st1) st1
      else st1)"

section \<open>SYNC and PSYNC\<close>

definition c_strcaseeq :: "bytes \<Rightarrow> bytes \<Rightarrow> bool" where
  "c_strcaseeq a b \<longleftrightarrow> map lower8 (takeWhile (\<lambda>c. c \<noteq> 0) a) = map lower8 (takeWhile (\<lambda>c. c \<noteq> 0) b)"

text \<open>Capability 2 is SLAVE\_CAPA\_PSYNC2.\<close>

definition continue_line :: "replica \<Rightarrow> repl_state \<Rightarrow> bytes" where
  "continue_line c st = ascii ''+CONTINUE'' @ (if slave_capa c AND 2 \<noteq> 0 then 0x20 # replid st else []) @ [0x0D, 0x0A]"

definition error_line :: "string \<Rightarrow> bytes" where
  "error_line msg = ascii ''-ERR '' @ ascii msg @ [0x0D, 0x0A]"

text \<open>\<open>Inl\<close> asks for a full resynchronisation of the client; otherwise it has joined the replicas.\<close>

definition masterTryPartialResynchronization :: "bytes \<Rightarrow> robj \<Rightarrow> replica \<Rightarrow> repl_state \<Rightarrow> (replica + repl_state) option" where
  "masterTryPartialResynchronization master_replid offset c st =
     do {
       res \<leftarrow> getLongLongFromObjectOrReply (Some offset) None;
       case res of
         Inl _ \<Rightarrow> Some (Inl (c\<lparr>r_out := r_out c @ error_line ''value is not an integer or out of range''\<rparr>))
       | Inr psync_offset \<Rightarrow>
         if \<not> c_strcaseeq master_replid (replid st) \<and>
            (\<not> c_strcaseeq master_replid (replid2 st) \<or> psync_offset > second_replid_offset st) then Some (Inl c)
         else if repl_backlog st = None \<or> psync_offset < repl_backlog_off st \<or>
            psync_offset > repl_backlog_off st + int (repl_backlog_histlen st) then Some (Inl c)
         else
           let c1 = c\<lparr>r_slave := True, replstate := SLAVE_STATE_ONLINE, r_ack_time := srv_time st, repl_put_online_on_ack := False\<rparr> in
           if \<not> r_sock_ok c1 then Some (Inr (st\<lparr>slaves := slaves st @ [c1\<lparr>r_close_asap := True\<rparr>]\<rparr>))
           else do {
             bs \<leftarrow> addReplyReplicationBacklog psync_offset st;
             Some (Inr (refreshGoodSlavesCount
               (st\<lparr>slaves := slaves st @ [c1\<lparr>r_sock := r_sock c1 @ continue_line c1 st, r_out := r_out c1 @ bs\<rparr>]\<rparr>)))
           }
     }"

text \<open>Joining the background save that another replica waits for: its output is copied, and the same offset is announced.\<close>

definition attach_bgsave :: "replica \<Rightarrow> repl_state \<Rightarrow> repl_state" where
  "attach_bgsave slave st =
     (let c = last (slaves st);
          (c', st1) = replicationSetupSlaveForFullResync (c\<lparr>r_out := r_out slave\<rparr>) (psync_initial_offset slave) st in
      st1\<lparr>slaves := butlast (slaves st1) @ [c']\<rparr>)"

text \<open>The second part of \<^verbatim>\<open>syncCommand\<close>, from "Full resynchronization" on.\<close>

definition full_resync :: "bytes \<Rightarrow> bgsave \<Rightarrow> replica \<Rightarrow> repl_state \<Rightarrow> repl_state option" where
  "full_resync newid bg c st =
     do {
       let c1 = c\<lparr>replstate := SLAVE_STATE_WAIT_BGSAVE_START, r_slave := True\<rparr>;
       let st1 = st\<lparr>slaves := slaves st @ [c1]\<rparr>;
       st2 \<leftarrow> (if length (slaves st1) = 1 \<and> repl_backlog st1 = None
              then createReplicationBacklog (clearReplicationId2 (changeReplicationId newid st1)) else Some st1);
       Some (case rdb_child st2 of
         Some RDB_CHILD_TYPE_DISK \<Rightarrow>
           (case find (\<lambda>r. replstate r = SLAVE_STATE_WAIT_BGSAVE_END) (slaves st2) of
              Some slave \<Rightarrow> if slave_capa c1 AND slave_capa slave = slave_capa slave then attach_bgsave slave st2 else st2
            | None \<Rightarrow> st2)
       | Some RDB_CHILD_TYPE_SOCKET \<Rightarrow> st2
       | None \<Rightarrow>
           if repl_diskless_sync st2 \<and> slave_capa c1 AND 1 \<noteq> 0 then st2
           else if \<not> rdb_aof_child st2 then startBgsaveForReplication (slave_capa c1) bg st2
           else st2)
     }"

datatype sync_req = Sync | Psync bytes robj

text \<open>The results are the state and the client when it is refused.\<close>

definition syncCommand :: "sync_req \<Rightarrow> bytes \<Rightarrow> bgsave \<Rightarrow> replica \<Rightarrow> repl_state \<Rightarrow> (repl_state \<times> replica option) option" where
  "syncCommand req newid bg c st =
     (if r_slave c then Some (st, Some c)
      else if has_masterhost st \<and> \<not> link_up st
      then Some (st, Some (c\<lparr>r_out := r_out c @ ascii ''-NOMASTERLINK Can'' @ 0x27 # ascii ''t SYNC while not connected with my master'' @ [0x0D, 0x0A]\<rparr>))
      else if r_out c \<noteq> [] then Some (st, Some (c\<lparr>r_out := r_out c @ error_line ''SYNC and PSYNC are invalid with pending output''\<rparr>))
      else do {
        r \<leftarrow> (case req of
            Psync rid offset \<Rightarrow> masterTryPartialResynchronization rid offset c st
          | Sync \<Rightarrow> Some (Inl (c\<lparr>r_pre_psync := True\<rparr>)));
        case r of
          Inr st' \<Rightarrow> Some (st', None)
        | Inl c' \<Rightarrow> map_option (\<lambda>st'. (st', None)) (full_resync newid bg c' st)
      })"

section \<open>After the background save\<close>

definition putSlaveOnline :: "nat \<Rightarrow> bool \<Rightarrow> repl_state \<Rightarrow> repl_state" where
  "putSlaveOnline k ok st =
     (let slave = slaves st ! k;
          st1 = st\<lparr>slaves := (slaves st)[k := slave\<lparr>replstate := SLAVE_STATE_ONLINE, repl_put_online_on_ack := False, r_ack_time := srv_time st\<rparr>]\<rparr> in
      if \<not> ok then freeClient_slave (take k (slaves st1) @ drop (Suc k) (slaves st1)) st1
      else refreshGoodSlavesCount st1)"

text \<open>What the end of a save means for a replica: \<^term>\<open>None\<close> when it is freed. \<open>opened\<close> tells whether the file can be opened for it.\<close>

definition update_slave :: "bool \<Rightarrow> rdb_child_type \<Rightarrow> (replica \<Rightarrow> bool) \<Rightarrow> int \<Rightarrow> replica \<Rightarrow> replica option" where
  "update_slave bgsaveok type opened now slave =
     (if replstate slave = SLAVE_STATE_WAIT_BGSAVE_END then
        if type = RDB_CHILD_TYPE_SOCKET
        then Some (slave\<lparr>replstate := SLAVE_STATE_ONLINE, repl_put_online_on_ack := True, r_ack_time := now\<rparr>)
        else if \<not> bgsaveok \<or> \<not> opened slave then None
        else Some (slave\<lparr>replstate := SLAVE_STATE_SEND_BULK\<rparr>)
      else Some slave)"

fun update_loop :: "bool \<Rightarrow> rdb_child_type \<Rightarrow> (replica \<Rightarrow> bool) \<Rightarrow> replica list \<Rightarrow> replica list \<Rightarrow> repl_state \<Rightarrow> repl_state" where
  "update_loop bgsaveok type opened rs [] st = st\<lparr>slaves := rs\<rparr>"
| "update_loop bgsaveok type opened rs (slave # rest) st =
     (case update_slave bgsaveok type opened (srv_time st) slave of
        Some slave' \<Rightarrow> update_loop bgsaveok type opened (rs @ [slave']) rest st
      | None \<Rightarrow> update_loop bgsaveok type opened rs rest (freeClient_slave (rs @ rest) st))"

definition updateSlavesWaitingBgsave :: "bool \<Rightarrow> rdb_child_type \<Rightarrow> (replica \<Rightarrow> bool) \<Rightarrow> bgsave \<Rightarrow> repl_state \<Rightarrow> repl_state" where
  "updateSlavesWaitingBgsave bgsaveok type opened bg st =
     (let waiting = filter (\<lambda>r. replstate r = SLAVE_STATE_WAIT_BGSAVE_START) (slaves st);
          st1 = update_loop bgsaveok type opened [] (slaves st) st in
      if waiting \<noteq> [] then startBgsaveForReplication (foldl (\<lambda>a r. a AND slave_capa r) (slave_capa (hd waiting)) (tl waiting)) bg st1
      else st1)"


section \<open>Reachable states\<close>

text \<open>A connection before it synchronises, and a PSYNC whose offset is a number.\<close>

definition client_ok :: "replica \<Rightarrow> bool" where
  "client_ok c \<longleftrightarrow> \<not> r_slave c \<and> r_sock c = [] \<and> \<not> r_close_asap c"

definition req_ok :: "sync_req \<Rightarrow> bool" where
  "req_ok req = (case req of Sync \<Rightarrow> True | Psync rid offset \<Rightarrow> (\<exists>v. getLongLongFromObject (Some offset) = Some (Some v)))"

definition args_rep :: "robj list \<Rightarrow> bytes list \<Rightarrow> bool" where
  "args_rep objs args \<longleftrightarrow> list_all2 obj_rep objs args \<and> length objs < 2 ^ 31 \<and> list_all (\<lambda>ob. obj_data ob \<noteq> ENC_INT INT64_MIN) objs"

text \<open>\<open>repl_reach B T S st\<close>: the server got to \<open>st\<close>, the stream since offset \<open>B\<close> is \<open>S\<close>, and it was \<open>T\<close> when the server was last turned from
  a replica into a master. A new stream starts when the backlog is created.\<close>

inductive repl_reach :: "int \<Rightarrow> bytes \<Rightarrow> bytes \<Rightarrow> repl_state \<Rightarrow> bool" where
  start: "repl_backlog st = None \<Longrightarrow> slaves st = [] \<Longrightarrow> 0 < repl_backlog_size st \<Longrightarrow> 0 \<le> master_repl_offset st \<Longrightarrow>
    second_replid_offset st = - 1 \<Longrightarrow> repl_reach (master_repl_offset st) [] [] st"
| start_replica: "slaves st = [] \<Longrightarrow> 0 < repl_backlog_size st \<Longrightarrow> 0 \<le> master_repl_offset st \<Longrightarrow> second_replid_offset st = - 1 \<Longrightarrow>
    createReplicationBacklog st = Some st' \<Longrightarrow> repl_reach (master_repl_offset st) [] [] st'"
| command: "repl_reach B T S st \<Longrightarrow> args_rep objs args \<Longrightarrow> replicationFeedSlaves dictid objs st = Some st' \<Longrightarrow>
    S' = (if has_masterhost st \<or> repl_backlog st = None then S else S @ enc_cmds (with_select (slaveseldb st) dictid [args])) \<Longrightarrow>
    repl_reach B T S' st'"
| forward: "repl_reach B T S st \<Longrightarrow> repl_backlog st \<noteq> None \<Longrightarrow> replicationFeedSlavesFromMasterStream buf st = Some st' \<Longrightarrow>
    repl_reach B T (S @ buf) st'"
| sync: "repl_reach B T S st \<Longrightarrow> client_ok c \<Longrightarrow> req_ok req \<Longrightarrow> syncCommand req newid bg c st = Some (st', c') \<Longrightarrow>
    (B', T', S') = (if repl_backlog st = None \<and> repl_backlog st' \<noteq> None then (master_repl_offset st, [], []) else (B, T, S)) \<Longrightarrow>
    repl_reach B' T' S' st'"
| save: "repl_reach B T S st \<Longrightarrow> rdbSaveBackground bg st = (st', ok) \<Longrightarrow> repl_reach B T S st'"
| saved: "repl_reach B T S st \<Longrightarrow> repl_reach B T S (updateSlavesWaitingBgsave bgsaveok type opened bg (st\<lparr>rdb_child := None\<rparr>))"
| online: "repl_reach B T S st \<Longrightarrow> k < length (slaves st) \<Longrightarrow> replstate (slaves st ! k) \<in> {SLAVE_STATE_SEND_BULK, SLAVE_STATE_ONLINE} \<Longrightarrow>
    repl_reach B T S (putSlaveOnline k ok st)"
| leave: "repl_reach B T S st \<Longrightarrow> repl_reach B T S (freeClient_slave (take k (slaves st) @ drop (Suc k) (slaves st)) st)"
| resize: "repl_reach B T S st \<Longrightarrow> repl_reach B T S (resizeReplicationBacklog n st)"
| promote: "repl_reach B T S st \<Longrightarrow> repl_backlog st \<noteq> None \<Longrightarrow> has_masterhost st \<Longrightarrow> repl_reach B S S (replicationUnsetMaster newid st)"
| idle: "repl_reach B T S st \<Longrightarrow> replicationCron_backlog newid st = Some st' \<Longrightarrow> repl_reach B T S st'"
| other: "repl_reach B T S st \<Longrightarrow> repl_reach B T S (st\<lparr>srv_time := t, rdb_aof_child := a, link_up := l\<rparr>)"

section \<open>The invariant\<close>

text \<open>What a replica was told about its place in the stream, and that its output is the stream from there.\<close>

definition told :: "int \<Rightarrow> replica \<Rightarrow> bool" where
  "told off r \<longleftrightarrow> r_close_asap r \<or> r_pre_psync r \<or> prefix (ascii ''+CONTINUE'') (r_sock r) \<or> (\<exists>rid. r_sock r = fullresync_line rid off)"

definition replica_ok :: "int \<Rightarrow> bytes \<Rightarrow> replica \<Rightarrow> bool" where
  "replica_ok B S r \<longleftrightarrow>
     (if replstate r = SLAVE_STATE_WAIT_BGSAVE_START then r_out r = [] \<and> r_sock r = []
      else \<exists>n \<le> length S. r_out r = drop n S \<and> told (B + int n) r \<and>
        (replstate r = SLAVE_STATE_WAIT_BGSAVE_END \<longrightarrow> psync_initial_offset r = B + int n))"

definition repl_ok :: "int \<Rightarrow> bytes \<Rightarrow> bytes \<Rightarrow> repl_state \<Rightarrow> bool" where
  "repl_ok B T S st \<longleftrightarrow> 0 \<le> B \<and> 0 \<le> master_repl_offset st \<and> 0 < repl_backlog_size st \<and>
     (repl_backlog st = None \<longrightarrow> slaves st = []) \<and> (repl_backlog st \<noteq> None \<longrightarrow> backlog_ok B S st) \<and>
     list_all (replica_ok B S) (slaves st) \<and>
     (second_replid_offset st = - 1 \<or> prefix T S \<and> second_replid_offset st = B + int (length T) + 1)"

lemma told_upd [simp]:
  "told off (r\<lparr>replstate := x\<rparr>) = told off r" "told off (r\<lparr>repl_put_online_on_ack := b\<rparr>) = told off r"
  "told off (r\<lparr>r_ack_time := t\<rparr>) = told off r" "told off (r\<lparr>r_out := bs\<rparr>) = told off r"
  by (simp_all add: told_def)

lemma replica_okI:
  "n \<le> length S \<Longrightarrow> r_out r = drop n S \<Longrightarrow> told (B + int n) r \<Longrightarrow> replstate r \<noteq> SLAVE_STATE_WAIT_BGSAVE_START \<Longrightarrow>
   (replstate r = SLAVE_STATE_WAIT_BGSAVE_END \<Longrightarrow> psync_initial_offset r = B + int n) \<Longrightarrow> replica_ok B S r"
  by (auto simp: replica_ok_def)

lemma replica_okE:
  assumes "replica_ok B S r" "replstate r \<noteq> SLAVE_STATE_WAIT_BGSAVE_START"
  obtains n where "n \<le> length S" "r_out r = drop n S" "told (B + int n) r" "replstate r = SLAVE_STATE_WAIT_BGSAVE_END \<Longrightarrow> psync_initial_offset r = B + int n"
  using assms by (auto simp: replica_ok_def)

text \<open>The part of the state that the invariant reads, apart from the replicas.\<close>

definition frame_eq :: "repl_state \<Rightarrow> repl_state \<Rightarrow> bool" where
  "frame_eq st st' \<longleftrightarrow> repl_backlog st' = repl_backlog st \<and> repl_backlog_size st' = repl_backlog_size st \<and>
     repl_backlog_histlen st' = repl_backlog_histlen st \<and> repl_backlog_idx st' = repl_backlog_idx st \<and> repl_backlog_off st' = repl_backlog_off st \<and>
     master_repl_offset st' = master_repl_offset st \<and> second_replid_offset st' = second_replid_offset st"

lemma frame_ok:
  assumes "repl_ok B T S st" "frame_eq st st'" "list_all (replica_ok B S) (slaves st')" "slaves st = [] \<Longrightarrow> repl_backlog st = None \<Longrightarrow> slaves st' = []"
  shows "repl_ok B T S st'"
  using assms by (auto simp: repl_ok_def frame_eq_def backlog_ok_def)

lemma frame_subset: "repl_ok B T S st \<Longrightarrow> frame_eq st st' \<Longrightarrow> set (slaves st') \<subseteq> set (slaves st) \<Longrightarrow> repl_ok B T S st'"
  by (rule frame_ok [of B T S st]) (auto simp: repl_ok_def list_all_iff)

lemma set_delete: "set (take k xs @ drop (Suc k) xs) \<subseteq> set xs"
  by (auto dest: in_set_takeD in_set_dropD)

lemma frame_refl [simp]: "frame_eq st st"
  by (simp add: frame_eq_def)

lemma frame_trans: "frame_eq a b \<Longrightarrow> frame_eq b c \<Longrightarrow> frame_eq a c"
  by (simp add: frame_eq_def)

lemma refresh_eq: "slaves (refreshGoodSlavesCount st) = slaves st" "frame_eq st (refreshGoodSlavesCount st)" "srv_time (refreshGoodSlavesCount st) = srv_time st"
  by (simp_all add: refreshGoodSlavesCount_def frame_eq_def)

lemma free_eq: "slaves (freeClient_slave rest st) = rest" "frame_eq st (freeClient_slave rest st)" "srv_time (freeClient_slave rest st) = srv_time st"
  by (simp_all add: freeClient_slave_def refreshGoodSlavesCount_def frame_eq_def Let_def)

lemma disconnect_eq: "slaves st = rs \<Longrightarrow> slaves (disconnect_loop rs st) = [] \<and> frame_eq st (disconnect_loop rs st)"
proof (induction rs arbitrary: st)
  case (Cons r rs)
  then show ?case using Cons.IH [of "freeClient_slave rs st"] free_eq(1,2) [where rest = rs and st = st] frame_trans by auto
qed simp

text \<open>Setting up replicas for a full resynchronisation.\<close>

lemma setup_ok:
  assumes "replicationSetupSlaveForFullResync r (B + int n) st = (r', st')" "r_out r = drop n S" "n \<le> length S" "r_sock r = []"
  shows "replica_ok B S r' \<and> frame_eq st st' \<and> slaves st' = slaves st \<and> replid st' = replid st"
  using assms by (auto simp: replicationSetupSlaveForFullResync_def Let_def replica_ok_def told_def frame_eq_def split: if_splits)

lemma setup_loop_ok:
  "list_all (replica_ok B S) rs \<Longrightarrow> list_all (replica_ok B S) rest \<Longrightarrow> master_repl_offset st = B + int (length S) \<Longrightarrow>
   frame_eq st (setup_loop rs rest st) \<and> list_all (replica_ok B S) (slaves (setup_loop rs rest st)) \<and>
   length (slaves (setup_loop rs rest st)) = length rs + length rest"
proof (induction rest arbitrary: rs st)
  case Nil
  then show ?case by (simp add: frame_eq_def)
next
  case (Cons r rest)
  show ?case
  proof (cases "replstate r = SLAVE_STATE_WAIT_BGSAVE_START")
    case True
    obtain r' st' where e: "replicationSetupSlaveForFullResync r (getPsyncInitialOffset st) st = (r', st')" by force
    then have "replica_ok B S r' \<and> frame_eq st st'"
      using setup_ok [of r B "length S" st r' st' S] True Cons.prems(2,3) by (simp add: getPsyncInitialOffset_def replica_ok_def)
    then show ?thesis using Cons.IH [of "rs @ [r']" st'] Cons.prems True e frame_trans by (auto simp: frame_eq_def)
  next
    case False
    then show ?thesis using Cons.IH [of "rs @ [r]" st] Cons.prems by auto
  qed
qed


lemma offset_eq: "repl_ok B T S st \<Longrightarrow> repl_backlog st \<noteq> None \<Longrightarrow> master_repl_offset st = B + int (length S)"
  by (simp add: repl_ok_def backlog_ok_def)

lemma sockets_ok:
  assumes "repl_ok B T S st" "repl_backlog st \<noteq> None" "rdbSaveToSlavesSockets bg st = (st', ok)"
  shows "frame_eq st st' \<and> list_all (replica_ok B S) (filter (\<lambda>r. replstate r \<noteq> SLAVE_STATE_WAIT_BGSAVE_START) (slaves st')) \<and>
    (ok \<longrightarrow> list_all (replica_ok B S) (slaves st'))"
proof -
  define st1 where "st1 = setup_loop [] (slaves st) st"
  have reps: "list_all (replica_ok B S) (slaves st)" using assms(1) by (simp add: repl_ok_def)
  have st1: "frame_eq st st1" "list_all (replica_ok B S) (slaves st1)"
    using setup_loop_ok [of B S "[]" "slaves st" st] reps offset_eq [OF assms(1,2)] by (simp_all add: st1_def)
  show ?thesis
    using assms(3) reps st1
    by (auto simp: rdbSaveToSlavesSockets_def st1_def [symmetric] Let_def frame_eq_def list_all_iff set_zip split: if_splits)
qed

lemma start_bgsave_ok:
  assumes "repl_ok B T S st" "repl_backlog st \<noteq> None"
  shows "repl_ok B T S (startBgsaveForReplication mincapa bg st) \<and> repl_backlog (startBgsaveForReplication mincapa bg st) \<noteq> None"
proof -
  let ?socket = "repl_diskless_sync st \<and> mincapa AND 1 \<noteq> 0" and ?st' = "startBgsaveForReplication mincapa bg st"
  obtain st1 ok where e: "(if ?socket then rdbSaveToSlavesSockets bg st else rdbSaveBackground bg st) = (st1, ok)" by force
  have reps: "list_all (replica_ok B S) (slaves st)" using assms(1) by (simp add: repl_ok_def)
  have st1: "frame_eq st st1" "list_all (replica_ok B S) (filter (\<lambda>r. replstate r \<noteq> SLAVE_STATE_WAIT_BGSAVE_START) (slaves st1))"
    "?socket \<and> ok \<or> \<not> ?socket \<longrightarrow> list_all (replica_ok B S) (slaves st1)"
  proof (atomize (full), cases ?socket)
    case True
    then show "frame_eq st st1 \<and> list_all (replica_ok B S) (filter (\<lambda>r. replstate r \<noteq> SLAVE_STATE_WAIT_BGSAVE_START) (slaves st1)) \<and>
      (?socket \<and> ok \<or> \<not> ?socket \<longrightarrow> list_all (replica_ok B S) (slaves st1))"
      using sockets_ok [OF assms, of bg st1 ok] e by auto
  next
    case False
    then have "slaves st1 = slaves st" "frame_eq st st1" using e by (auto simp: rdbSaveBackground_def frame_eq_def split: if_splits)
    then show "frame_eq st st1 \<and> list_all (replica_ok B S) (filter (\<lambda>r. replstate r \<noteq> SLAVE_STATE_WAIT_BGSAVE_START) (slaves st1)) \<and>
      (?socket \<and> ok \<or> \<not> ?socket \<longrightarrow> list_all (replica_ok B S) (slaves st1))"
      using reps by (auto simp: list_all_iff)
  qed
  have "master_repl_offset st1 = B + int (length S)" using offset_eq [OF assms] st1(1) by (simp add: frame_eq_def)
  then have loop: "frame_eq st1 (setup_loop [] (slaves st1) st1) \<and> list_all (replica_ok B S) (slaves (setup_loop [] (slaves st1) st1))"
    if "list_all (replica_ok B S) (slaves st1)" using setup_loop_ok [of B S "[]" "slaves st1" st1] that by simp
  have "?st' = (if \<not> ok then st1\<lparr>slaves := filter (\<lambda>r. replstate r \<noteq> SLAVE_STATE_WAIT_BGSAVE_START) (slaves st1)\<rparr>
      else if \<not> ?socket then setup_loop [] (slaves st1) st1 else st1)"
    using e by (simp add: startBgsaveForReplication_def Let_def)
  then have "frame_eq st ?st' \<and> list_all (replica_ok B S) (slaves ?st')"
    using st1 loop frame_trans by (auto simp: frame_eq_def)
  then show ?thesis using frame_ok [OF assms(1), of ?st'] assms(2) by (auto simp: frame_eq_def)
qed

lemma attach_ok:
  assumes "repl_ok B T S st" "repl_backlog st \<noteq> None" "slaves st = rs @ [c]" "r_sock c = []" "slave \<in> set (slaves st)"
    "replstate slave = SLAVE_STATE_WAIT_BGSAVE_END"
  shows "repl_ok B T S (attach_bgsave slave st) \<and> repl_backlog (attach_bgsave slave st) \<noteq> None"
proof -
  have "replica_ok B S slave" using assms(1,5) by (auto simp: repl_ok_def list_all_iff)
  then obtain n where n: "n \<le> length S" "r_out slave = drop n S" "psync_initial_offset slave = B + int n"
    using assms(6) by (auto simp: replica_ok_def)
  obtain c' st1 where e: "replicationSetupSlaveForFullResync (c\<lparr>r_out := r_out slave\<rparr>) (psync_initial_offset slave) st = (c', st1)" by force
  then have "replica_ok B S c'" "frame_eq st st1" "slaves st1 = slaves st"
    using setup_ok [of "c\<lparr>r_out := r_out slave\<rparr>" B n st c' st1 S] n assms(4) by simp_all
  then have "frame_eq st (attach_bgsave slave st)" "list_all (replica_ok B S) (slaves (attach_bgsave slave st))"
    using e assms(1,3) by (simp_all add: attach_bgsave_def Let_def frame_eq_def repl_ok_def)
  then show ?thesis using frame_ok [OF assms(1)] assms(2) by (auto simp: frame_eq_def)
qed

lemma create_ok:
  assumes "repl_ok B T S st" "repl_backlog st = None" "second_replid_offset st1 = - 1" "list_all (\<lambda>r. replstate r = SLAVE_STATE_WAIT_BGSAVE_START \<and> r_out r = [] \<and> r_sock r = []) (slaves st1)"
    "master_repl_offset st1 = master_repl_offset st" "repl_backlog_size st1 = repl_backlog_size st" "repl_backlog st1 = None"
  shows "\<exists>st2. createReplicationBacklog st1 = Some st2 \<and> repl_ok (master_repl_offset st) [] [] st2 \<and> repl_backlog st2 \<noteq> None \<and> slaves st2 = slaves st1"
  using assms
  by (auto simp: createReplicationBacklog_def repl_ok_def backlog_ok_def ring_def replica_ok_def list_all_iff)

lemma full_resync_ok:
  assumes st: "repl_ok B T S st" and c: "r_out c = []" "r_sock c = []"
  defines "G \<equiv> if repl_backlog st = None then (master_repl_offset st, [], []) else (B, T, S)"
  shows "\<exists>st'. full_resync newid bg c st = Some st' \<and> repl_ok (fst G) (fst (snd G)) (snd (snd G)) st' \<and> repl_backlog st' \<noteq> None"
proof -
  define c1 where "c1 = c\<lparr>replstate := SLAVE_STATE_WAIT_BGSAVE_START, r_slave := True\<rparr>"
  define st1 where "st1 = st\<lparr>slaves := slaves st @ [c1]\<rparr>"
  have c1: "replstate c1 = SLAVE_STATE_WAIT_BGSAVE_START" "r_out c1 = []" "r_sock c1 = []" using c by (simp_all add: c1_def)
  obtain st2 where st2: "(if length (slaves st1) = 1 \<and> repl_backlog st1 = None
      then createReplicationBacklog (clearReplicationId2 (changeReplicationId newid st1)) else Some st1) = Some st2"
    "repl_ok (fst G) (fst (snd G)) (snd (snd G)) st2" "repl_backlog st2 \<noteq> None" "slaves st2 = slaves st @ [c1]"
  proof (cases "repl_backlog st = None")
    case True
    then have "slaves st = []" using st by (simp add: repl_ok_def)
    then show thesis using that create_ok [OF st True, of "clearReplicationId2 (changeReplicationId newid st1)"] True c1
      by (auto simp: st1_def clearReplicationId2_def changeReplicationId_def G_def)
  next
    case False
    then have "repl_ok B T S st1" using st c1 by (auto simp: st1_def repl_ok_def replica_ok_def)
    then show thesis using that [of st1] False by (simp add: st1_def G_def)
  qed
  define st3 where "st3 = (case rdb_child st2 of
         Some RDB_CHILD_TYPE_DISK \<Rightarrow>
           (case find (\<lambda>r. replstate r = SLAVE_STATE_WAIT_BGSAVE_END) (slaves st2) of
              Some slave \<Rightarrow> if slave_capa c1 AND slave_capa slave = slave_capa slave then attach_bgsave slave st2 else st2
            | None \<Rightarrow> st2)
       | Some RDB_CHILD_TYPE_SOCKET \<Rightarrow> st2
       | None \<Rightarrow>
           if repl_diskless_sync st2 \<and> slave_capa c1 AND 1 \<noteq> 0 then st2
           else if \<not> rdb_aof_child st2 then startBgsaveForReplication (slave_capa c1) bg st2
           else st2)"
  have "full_resync newid bg c st = Some st3"
    by (simp only: full_resync_def Let_def c1_def [symmetric] st1_def [symmetric] st2(1) Option.bind.simps st3_def)
  moreover have "repl_ok (fst G) (fst (snd G)) (snd (snd G)) st3 \<and> repl_backlog st3 \<noteq> None"
    using st2(2,3) start_bgsave_ok [OF st2(2,3)] attach_ok [OF st2(2-4) c1(3)]
    by (auto simp: st3_def find_Some_iff split: option.split rdb_child_type.split)
  ultimately show ?thesis by blast
qed

lemma psync_ok:
  assumes st: "repl_ok B T S st" and c: "r_out c = []" "r_sock c = []" "getLongLongFromObject (Some offset) = Some (Some v)"
  shows "masterTryPartialResynchronization rid offset c st = Some (Inl c) \<or>
    (\<exists>st'. masterTryPartialResynchronization rid offset c st = Some (Inr st') \<and> repl_ok B T S st' \<and> frame_eq st st' \<and>
       B < v \<and> v \<le> B + int (length S) + 1 \<and>
       (c_strcaseeq rid (replid st) \<or> c_strcaseeq rid (replid2 st) \<and> v \<le> second_replid_offset st) \<and>
       (\<exists>c'. slaves st' = slaves st @ [c'] \<and> (r_sock_ok c \<longrightarrow> r_out c' = drop (nat (v - 1 - B)) S)))"
proof (cases "(c_strcaseeq rid (replid st) \<or> c_strcaseeq rid (replid2 st) \<and> v \<le> second_replid_offset st) \<and>
    repl_backlog st \<noteq> None \<and> repl_backlog_off st \<le> v \<and> v \<le> repl_backlog_off st + int (repl_backlog_histlen st)")
  case False
  then have "masterTryPartialResynchronization rid offset c st = Some (Inl c)"
    using c(3) by (auto simp: masterTryPartialResynchronization_def getLongLongFromObjectOrReply_def not_le not_less)
  then show ?thesis by simp
next
  case True
  have b: "backlog_ok B S st" using True st by (simp add: repl_ok_def)
  have v: "addReplyReplicationBacklog v st = Some (drop (nat (v - 1 - B)) S)" "B < v" "v \<le> B + int (length S) + 1"
    using read_backlog [OF b] True by auto
  define n where "n = nat (v - 1 - B)"
  have n: "n \<le> length S" using v by (simp add: n_def)
  define c1 where "c1 = c\<lparr>r_slave := True, replstate := SLAVE_STATE_ONLINE, r_ack_time := srv_time st, repl_put_online_on_ack := False\<rparr>"
  define c' where "c' = (if r_sock_ok c then c1\<lparr>r_sock := continue_line c1 st, r_out := drop n S\<rparr> else c1\<lparr>r_close_asap := True\<rparr>)"
  define st' where "st' = (if r_sock_ok c then refreshGoodSlavesCount (st\<lparr>slaves := slaves st @ [c']\<rparr>) else st\<lparr>slaves := slaves st @ [c']\<rparr>)"
  have "masterTryPartialResynchronization rid offset c st = Some (Inr st')"
    using True c v(1) by (auto simp: masterTryPartialResynchronization_def getLongLongFromObjectOrReply_def c1_def [symmetric] st'_def c'_def n_def Let_def)
      (simp_all add: c1_def)
  moreover have st'': "slaves st' = slaves st @ [c']" "frame_eq st st'"
    using refresh_eq(1,2) [where st = "st\<lparr>slaves := slaves st @ [c']\<rparr>"] by (auto simp: st'_def frame_eq_def)
  moreover have "replica_ok B S c'"
    using n c(1) by (auto simp: replica_ok_def told_def c'_def c1_def continue_line_def intro: exI [of _ n] exI [of _ "length S"])
  then have "repl_ok B T S st'" using frame_ok [OF st st''(2)] st''(1) st True by (auto simp: repl_ok_def)
  ultimately show ?thesis using v True by (auto simp: c'_def n_def)
qed


lemma sync_ok:
  assumes "repl_ok B T S st" "client_ok c" "req_ok req"
  shows "\<exists>st' c'. syncCommand req newid bg c st = Some (st', c') \<and>
    (if repl_backlog st = None \<and> repl_backlog st' \<noteq> None then repl_ok (master_repl_offset st) [] [] st' else repl_ok B T S st')"
proof (cases "r_out c \<noteq> [] \<or> has_masterhost st \<and> \<not> link_up st")
  case True
  then show ?thesis using assms(1,2) by (auto simp: syncCommand_def client_ok_def)
next
  case False
  have c: "\<not> r_slave c" "r_sock c = []" "r_out c = []" using assms(2) False by (simp_all add: client_ok_def)
  have full: "\<exists>st'. full_resync newid bg c1 st = Some st' \<and>
      (if repl_backlog st = None \<and> repl_backlog st' \<noteq> None then repl_ok (master_repl_offset st) [] [] st' else repl_ok B T S st')"
    if "r_out c1 = []" "r_sock c1 = []" for c1
    using full_resync_ok [OF assms(1) that, of newid bg] by (auto split: if_splits)
  show ?thesis
  proof (cases req)
    case Sync
    then show ?thesis using full [of "c\<lparr>r_pre_psync := True\<rparr>"] c False by (auto simp: syncCommand_def)
  next
    case (Psync rid offset)
    then obtain v where "getLongLongFromObject (Some offset) = Some (Some v)" using assms(3) by (auto simp: req_ok_def)
    then have "masterTryPartialResynchronization rid offset c st = Some (Inl c) \<or>
      (\<exists>st'. masterTryPartialResynchronization rid offset c st = Some (Inr st') \<and> repl_ok B T S st' \<and> frame_eq st st')"
      using psync_ok [OF assms(1) c(3,2)] by blast
    then show ?thesis
    proof
      assume "masterTryPartialResynchronization rid offset c st = Some (Inl c)"
      then show ?thesis using full [OF c(3,2)] c False Psync by (auto simp: syncCommand_def)
    next
      assume "\<exists>st'. masterTryPartialResynchronization rid offset c st = Some (Inr st') \<and> repl_ok B T S st' \<and> frame_eq st st'"
      then show ?thesis using c False Psync by (auto simp: syncCommand_def frame_eq_def)
    qed
  qed
qed

lemma update_slave_ok: "replica_ok B S r \<Longrightarrow> update_slave bgsaveok type opened now r = Some r' \<Longrightarrow> replica_ok B S r'"
  by (auto simp: update_slave_def split: if_splits elim!: replica_okE intro: replica_okI)

lemma update_loop_ok:
  "list_all (replica_ok B S) rs \<Longrightarrow> list_all (replica_ok B S) rest \<Longrightarrow>
   frame_eq st (update_loop bgsaveok type opened rs rest st) \<and> list_all (replica_ok B S) (slaves (update_loop bgsaveok type opened rs rest st)) \<and>
   (rs = [] \<and> rest = [] \<longrightarrow> slaves (update_loop bgsaveok type opened rs rest st) = [])"
proof (induction rest arbitrary: rs st)
  case Nil
  then show ?case by (simp add: frame_eq_def)
next
  case (Cons r rest)
  show ?case
  proof (cases "update_slave bgsaveok type opened (srv_time st) r")
    case None
    then show ?thesis
      using Cons.IH [of rs "freeClient_slave (rs @ rest) st"] Cons.prems free_eq(2) [where rest = "rs @ rest" and st = st] frame_trans by auto
  next
    case (Some r')
    then show ?thesis using Cons.IH [of "rs @ [r']" st] Cons.prems update_slave_ok [of B S r] by auto
  qed
qed

lemma update_ok:
  assumes "repl_ok B T S st"
  shows "repl_ok B T S (updateSlavesWaitingBgsave bgsaveok type opened bg st)"
proof -
  let ?st1 = "update_loop bgsaveok type opened [] (slaves st) st"
  have u: "frame_eq st ?st1" "list_all (replica_ok B S) (slaves ?st1)" "slaves st = [] \<longrightarrow> slaves ?st1 = []"
    using update_loop_ok [of B S "[]" "slaves st"] assms by (auto simp: repl_ok_def)
  then have ok: "repl_ok B T S ?st1" using frame_ok [OF assms] by blast
  show ?thesis
  proof (cases "filter (\<lambda>r. replstate r = SLAVE_STATE_WAIT_BGSAVE_START) (slaves st) = []")
    case False
    then have "slaves st \<noteq> []" by auto
    then have "repl_backlog ?st1 \<noteq> None" using assms u(1) by (auto simp: repl_ok_def frame_eq_def)
    then show ?thesis using start_bgsave_ok [OF ok] False by (simp add: updateSlavesWaitingBgsave_def Let_def)
  qed (use ok in \<open>simp add: updateSlavesWaitingBgsave_def Let_def\<close>)
qed

lemma deliver_ok: "replica_ok B S r \<Longrightarrow> replica_ok B (S @ D) (deliver D r)"
proof (cases "replstate r = SLAVE_STATE_WAIT_BGSAVE_START")
  case False
  moreover assume "replica_ok B S r"
  ultimately obtain n where "n \<le> length S" "r_out r = drop n S" "told (B + int n) r"
    "replstate r = SLAVE_STATE_WAIT_BGSAVE_END \<Longrightarrow> psync_initial_offset r = B + int n" using replica_okE by blast
  then show ?thesis using False by (intro replica_okI [of n]) (auto simp: deliver_def)
qed (simp add: replica_ok_def deliver_def)

lemma stream_ok_step:
  assumes "repl_ok B T S st" "backlog_ok B (S @ D) st'" "core st' = core st\<lparr>slaveseldb := d, slaves := map (deliver D) (slaves st)\<rparr>"
  shows "repl_ok B T (S @ D) st'"
proof -
  have "core st' = core (st\<lparr>slaveseldb := d, slaves := map (deliver D) (slaves st)\<rparr>)" using assms(3) by (simp add: core_upd)
  from core_fields [OF this] show ?thesis
    using assms(1,2) backlog_set [OF assms(2)] deliver_ok
    by (auto simp: repl_ok_def list_all_iff backlog_ok_def [of B "S @ D"])
qed

lemma command_ok:
  assumes "repl_ok B T S st" "args_rep objs args"
  shows "\<exists>st'. replicationFeedSlaves dictid objs st = Some st' \<and>
    repl_ok B T (if has_masterhost st \<or> repl_backlog st = None then S else S @ enc_cmds (with_select (slaveseldb st) dictid [args])) st'"
proof (cases "has_masterhost st \<or> repl_backlog st = None")
  case True
  then show ?thesis using assms(1) by (auto simp: replicationFeedSlaves_def repl_ok_def)
next
  case False
  then have "backlog_ok B S st" using assms(1) by (simp add: repl_ok_def)
  then show ?thesis using feedSlaves_ok [of objs args B S st dictid] stream_ok_step [OF assms(1)] assms(2) False by (auto simp: args_rep_def)
qed

lemma forward_step:
  assumes "repl_ok B T S st" "repl_backlog st \<noteq> None" "replicationFeedSlavesFromMasterStream buf st = Some st'"
  shows "repl_ok B T (S @ buf) st'"
proof -
  have b: "backlog_ok B S st" using assms(1,2) by (simp add: repl_ok_def)
  then have "backlog_ok B (S @ buf) st'" "core st' = core st\<lparr>slaves := map (deliver buf) (slaves st)\<rparr>"
    using forward_stream_ok [OF b, of buf] assms(3) by auto
  moreover have "core st\<lparr>slaves := map (deliver buf) (slaves st)\<rparr> = core st\<lparr>slaveseldb := slaveseldb st, slaves := map (deliver buf) (slaves st)\<rparr>"
    by (simp add: core_def)
  ultimately show ?thesis using stream_ok_step [OF assms(1)] by auto
qed

lemma online_ok:
  assumes "repl_ok B T S st" "k < length (slaves st)" "replstate (slaves st ! k) \<in> {SLAVE_STATE_SEND_BULK, SLAVE_STATE_ONLINE}"
  shows "repl_ok B T S (putSlaveOnline k ok st)"
proof -
  let ?r = "(slaves st ! k)\<lparr>replstate := SLAVE_STATE_ONLINE, repl_put_online_on_ack := False, r_ack_time := srv_time st\<rparr>"
  define st1 where "st1 = st\<lparr>slaves := (slaves st)[k := ?r]\<rparr>"
  have reps: "list_all (replica_ok B S) (slaves st)" using assms(1) by (simp add: repl_ok_def)
  then have "replica_ok B S (slaves st ! k)" using assms(2) by (simp add: list_all_length)
  then have "replica_ok B S ?r" using assms(3) by (auto elim!: replica_okE intro: replica_okI)
  then have l: "list_all (replica_ok B S) (slaves st1)"
    using reps set_update_subset_insert [of "slaves st" k ?r] by (auto simp: st1_def list_all_iff)
  have "slaves (putSlaveOnline k ok st) = (if ok then slaves st1 else take k (slaves st1) @ drop (Suc k) (slaves st1))"
    "frame_eq st1 (putSlaveOnline k ok st)"
    using refresh_eq(1,2) [where st = st1] free_eq(1,2) [where st = st1 and rest = "take k (slaves st1) @ drop (Suc k) (slaves st1)"]
    by (simp_all add: putSlaveOnline_def Let_def st1_def [symmetric])
  then have "frame_eq st (putSlaveOnline k ok st)" "list_all (replica_ok B S) (slaves (putSlaveOnline k ok st))"
    using l set_delete [of k "slaves st1"] by (auto simp: frame_eq_def st1_def list_all_iff subset_iff)
  then show ?thesis by (rule frame_ok [OF assms(1)]) (use assms(2) in simp)
qed

lemma resize_ok:
  assumes "repl_ok B T S st"
  shows "repl_ok B T S (resizeReplicationBacklog n st)"
proof -
  have n: "0 < nat (if n < CONFIG_REPL_BACKLOG_MIN_SIZE then CONFIG_REPL_BACKLOG_MIN_SIZE else n)"
    by (simp add: CONFIG_REPL_BACKLOG_MIN_SIZE_def)
  then show ?thesis using assms
    by (auto simp: resizeReplicationBacklog_def Let_def repl_ok_def backlog_ok_def ring_def split: if_splits)
qed

lemma promote_ok:
  assumes "repl_ok B T S st" "repl_backlog st \<noteq> None" "has_masterhost st"
  shows "repl_ok B S S (replicationUnsetMaster newid st)"
proof -
  define st1 where "st1 = shiftReplicationId newid (st\<lparr>has_masterhost := False\<rparr>)"
  have "slaves (disconnectSlaves st1) = []" "frame_eq st1 (disconnectSlaves st1)"
    using disconnect_eq [of st1 "slaves st1"] by (simp_all add: disconnectSlaves_def)
  moreover have "repl_ok B S S (st1\<lparr>slaves := []\<rparr>)"
    using assms offset_eq [OF assms(1,2)] by (auto simp: st1_def shiftReplicationId_def changeReplicationId_def repl_ok_def backlog_ok_def)
  ultimately show ?thesis
    using assms(3) frame_ok [of B S S "st1\<lparr>slaves := []\<rparr>" "replicationUnsetMaster newid st"]
    by (simp add: replicationUnsetMaster_def st1_def [symmetric] Let_def frame_eq_def)
qed

lemma repl_reach_ok: "repl_reach B T S st \<Longrightarrow> repl_ok B T S st"
proof (induction rule: repl_reach.induct)
  case (start st)
  then show ?case by (simp add: repl_ok_def)
next
  case (start_replica st st')
  then show ?case by (auto simp: createReplicationBacklog_def repl_ok_def backlog_ok_def ring_def split: if_splits)
next
  case (command B T S st objs args dictid st' S')
  then show ?case using command_ok [of B T S st objs args dictid] by auto
next
  case (forward B T S st buf st')
  then show ?case using forward_step by blast
next
  case (sync B T S st c req newid bg st' c' B' T' S')
  then show ?case using sync_ok [of B T S st c req newid bg] by (auto split: if_splits)
next
  case (save B T S st bg st' ok)
  then have "frame_eq st st'" "slaves st' = slaves st" by (auto simp: rdbSaveBackground_def frame_eq_def split: if_splits)
  then show ?case using frame_subset [OF save.IH] by simp
next
  case (saved B T S st bgsaveok type opened bg)
  then have "repl_ok B T S (st\<lparr>rdb_child := None\<rparr>)" using frame_subset [of B T S st "st\<lparr>rdb_child := None\<rparr>"] by (simp add: frame_eq_def)
  then show ?case by (rule update_ok)
next
  case (online B T S st k ok)
  then show ?case using online_ok by blast
next
  case (leave B T S st k)
  then show ?case by (intro frame_subset [OF leave.IH free_eq(2)]) (simp only: free_eq(1) set_delete)
next
  case (resize B T S st n)
  then show ?case by (simp add: resize_ok)
next
  case (promote B T S st newid)
  then show ?case by (simp add: promote_ok)
next
  case (idle B T S st newid st')
  then show ?case
    by (auto simp: replicationCron_backlog_def freeReplicationBacklog_def clearReplicationId2_def changeReplicationId_def repl_ok_def split: if_splits)
next
  case (other B T S st l a t)
  then show ?case using frame_subset [OF other.IH, of "st\<lparr>srv_time := t, rdb_aof_child := a, link_up := l\<rparr>"] by (simp add: frame_eq_def)
qed


section \<open>Replication is exact\<close>

text \<open>A replica server that has just synchronised with its master, and a connection to it.\<close>

definition sample_state :: repl_state where
  "sample_state = \<lparr>repl_backlog = None, repl_backlog_size = 4, repl_backlog_histlen = 0, repl_backlog_idx = 0, repl_backlog_off = 0,
     repl_backlog_time_limit = 3600, repl_no_slaves_since = 0, master_repl_offset = 100, slaveseldb = - 1, has_masterhost = True,
     link_up = True, replid = [0x61, 0x62], replid2 = [0x30], second_replid_offset = - 1, rdb_child = None, rdb_aof_child = False,
     repl_diskless_sync = False, srv_time = 5, repl_min_slaves_to_write = 0, repl_min_slaves_max_lag = 10, repl_good_slaves_count = 0,
     slaves = []\<rparr>"

definition sample_client :: replica where
  "sample_client = \<lparr>replstate = REPL_STATE_NONE, r_slave = False, r_pre_psync = False, slave_capa = 3, psync_initial_offset = 0,
     repl_put_online_on_ack = False, r_ack_off = 0, r_ack_time = 0, r_close_asap = False, r_sock_ok = True, r_sock = [], r_out = []\<rparr>"

definition sample_fed :: repl_state where
  "sample_fed = sample_state\<lparr>repl_backlog := Some [Some 5, Some 6, Some 3, Some 4], repl_backlog_histlen := 4, repl_backlog_idx := 2,
     repl_backlog_off := 103, master_repl_offset := 106\<rparr>"

lemma sample_reach: "repl_reach 100 [] [1, 2, 3, 4, 5, 6] sample_fed"
proof -
  let ?st = "sample_state\<lparr>repl_backlog := Some [None, None, None, None], repl_backlog_off := 101\<rparr>"
  have "createReplicationBacklog sample_state = Some ?st" by code_simp
  then have "repl_reach 100 [] [] ?st" using start_replica [of sample_state ?st] by (simp add: sample_state_def)
  moreover have "replicationFeedSlavesFromMasterStream [1, 2, 3, 4, 5, 6] ?st = Some sample_fed" by code_simp
  ultimately have "repl_reach 100 [] ([] @ [1, 2, 3, 4, 5, 6]) sample_fed" by (intro forward) simp_all
  then show ?thesis by simp
qed

text \<open>
  Property C4. In every reachable state, the backlog is exactly the end of the replication stream, and every replica that is past the wait for a
  background save has queued for it exactly the stream from some offset on, with nothing missing, repeated or reordered: the
  offset announced to it by +FULLRESYNC when it was synchronised in full, which is also the one given to replicas that join the same save.
  Propagating the next command and serving the next synchronisation request fails no assertion and stays inside the backlog.
\<close>

theorem replication_stream:
  assumes "repl_reach B T S st"
  shows "(repl_backlog st \<noteq> None \<longrightarrow> backlog_ok B S st) \<and>
    (\<forall>r \<in> set (slaves st). replstate r \<noteq> SLAVE_STATE_WAIT_BGSAVE_START \<longrightarrow> (\<exists>n \<le> length S. r_out r = drop n S \<and> told (B + int n) r)) \<and>
    (\<forall>dictid objs args. args_rep objs args \<longrightarrow> replicationFeedSlaves dictid objs st \<noteq> None) \<and>
    (\<forall>req newid bg c. client_ok c \<and> req_ok req \<longrightarrow> syncCommand req newid bg c st \<noteq> None)"
proof -
  have ok: "repl_ok B T S st" using assms by (rule repl_reach_ok)
  then have "\<forall>r \<in> set (slaves st). replica_ok B S r" by (simp add: repl_ok_def list_all_iff)
  then have "\<forall>r \<in> set (slaves st). replstate r \<noteq> SLAVE_STATE_WAIT_BGSAVE_START \<longrightarrow> (\<exists>n \<le> length S. r_out r = drop n S \<and> told (B + int n) r)"
    by (blast elim: replica_okE)
  moreover have "\<forall>dictid objs args. args_rep objs args \<longrightarrow> replicationFeedSlaves dictid objs st \<noteq> None" using command_ok [OF ok] by fastforce
  moreover have "\<forall>req newid bg c. client_ok c \<and> req_ok req \<longrightarrow> syncCommand req newid bg c st \<noteq> None" using sync_ok [OF ok] by fastforce
  ultimately show ?thesis using ok by (simp add: repl_ok_def)
qed

theorem replication_stream_witness:
  "backlog_ok 100 [1, 2, 3, 4, 5, 6] sample_fed \<and> syncCommand Sync [0x61] BgsaveStarted sample_client sample_fed \<noteq> None"
  using replication_stream [OF sample_reach] by (simp add: sample_fed_def sample_client_def client_ok_def req_ok_def)

text \<open>
  Property C5. A partial resynchronisation is exact: when PSYNC is accepted, the bytes queued for the replica continue what it has to the whole
  current stream. A replica that names the current identifier has the first bytes of the stream up to the offset it asks for; one
  that names the identifier from before the server was turned into a master is accepted only when all it has is from before that, so that it
  has the first bytes of the stream \<open>T\<close> of that time.
\<close>

theorem psync_exact:
  assumes "repl_reach B T S st" "client_ok c" "r_out c = []" "r_sock_ok c" "getLongLongFromObject (Some offset) = Some (Some v)"
    "masterTryPartialResynchronization rid offset c st = Some (Inr st')"
  shows "\<exists>c' n. slaves st' = slaves st @ [c'] \<and> v = B + int n + 1 \<and>
    (c_strcaseeq rid (replid st) \<and> take n S @ r_out c' = S \<or>
     c_strcaseeq rid (replid2 st) \<and> n \<le> length T \<and> take n T @ r_out c' = S)"
proof -
  have ok: "repl_ok B T S st" using assms(1) by (rule repl_reach_ok)
  have c: "r_sock c = []" using assms(2) by (simp add: client_ok_def)
  obtain c' where r: "slaves st' = slaves st @ [c']" "r_out c' = drop (nat (v - 1 - B)) S" "B < v" "v \<le> B + int (length S) + 1"
    "c_strcaseeq rid (replid st) \<or> c_strcaseeq rid (replid2 st) \<and> v \<le> second_replid_offset st"
    using psync_ok [OF ok assms(3) c assms(5), of rid] assms(4,6) by auto
  define n where "n = nat (v - 1 - B)"
  have n: "v = B + int n + 1" "r_out c' = drop n S" using r by (simp_all add: n_def)
  have "n \<le> length T \<and> take n T = take n S" if "v \<le> second_replid_offset st"
  proof -
    have "prefix T S" "second_replid_offset st = B + int (length T) + 1" using ok that r(3) by (auto simp: repl_ok_def)
    then show ?thesis using that n(1) by (auto elim!: prefixE)
  qed
  then show ?thesis using r(1,5) n by (intro exI [of _ c'] exI [of _ n]) auto
qed

theorem psync_exact_witness:
  "\<exists>st' c' n. masterTryPartialResynchronization [0x41, 0x42] \<lparr>obj_data = ENC_INT 104, refcount = 1, lru = 0\<rparr> sample_client sample_fed = Some (Inr st') \<and>
     slaves st' = [c'] \<and> 104 = 100 + int n + 1 \<and> take n [1, 2, 3, 4, 5, 6] @ r_out c' = [1, 2, 3, 4, 5, 6]"
proof -
  let ?offset = "\<lparr>obj_data = ENC_INT 104, refcount = 1, lru = 0\<rparr>"
  have "case masterTryPartialResynchronization [0x41, 0x42] ?offset sample_client sample_fed of Some (Inr _) \<Rightarrow> True | _ \<Rightarrow> False" by code_simp
  then obtain st' where st': "masterTryPartialResynchronization [0x41, 0x42] ?offset sample_client sample_fed = Some (Inr st')"
    by (auto split: option.splits sum.splits)
  have "client_ok sample_client" "r_out sample_client = []" "r_sock_ok sample_client" "getLongLongFromObject (Some ?offset) = Some (Some 104)"
    "slaves sample_fed = []"
    by (simp_all add: client_ok_def sample_client_def getLongLongFromObject_def sample_fed_def sample_state_def)
  then show ?thesis using psync_exact [OF sample_reach _ _ _ _ st', of 104] st' by auto
qed

end
