(* ===== verification/Multi.thy ===== *)
theory Multi
  imports Reply
begin

text \<open>
  Transactions (multi.c, with \<^verbatim>\<open>call\<close> and \<^verbatim>\<open>processCommand\<close> of server.c): queueing commands after MULTI,
  optimistic locking with WATCH, and EXEC. Clients are numbered, a key is a database number with a name, and the tables of
  watched keys of all databases are one map. What a data command does is the argument \<open>run\<close>: its effect on the data, the keys
  it signals as modified or databases it signals as flushed, the change counter after it, its arguments as it leaves them for
  propagation, and its replies. A failed assertion is \<^term>\<open>None\<close>. Monitors, statistics, the flags that force or prevent
  propagation, and a switch to a replica inside a transaction are left out.
\<close>

declare split_paired_Ex [simp del] split_paired_All [simp del]

section \<open>State\<close>

type_synonym dbkey = "nat \<times> bytes"

datatype signal = Modified dbkey | Flushed "nat option"

type_synonym 'v runner = "bytes list \<Rightarrow> nat \<Rightarrow> int \<Rightarrow> (dbkey \<Rightarrow> 'v option) \<Rightarrow> (dbkey \<Rightarrow> 'v option) \<times> signal list \<times> int \<times> bytes list \<times> reply list"

text \<open>A command with its arguments: its function, and its flags in the command table. \<open>CSelect n\<close> is a SELECT of a valid database.\<close>

datatype cproc = CData | CSelect nat | CUnwatch | CMulti | CExec | CDiscard | CWatch

record multiCmd =
  q_argv :: "bytes list"
  q_proc :: cproc
  q_write :: bool
  q_readonly :: bool
  q_admin :: bool
  q_denyoom :: bool
  q_stale :: bool
  q_loading :: bool

abbreviation q_quiet :: "multiCmd \<Rightarrow> bool" where
  "q_quiet q \<equiv> q_readonly q \<or> q_admin q"

record tclient =
  t_db :: nat
  t_multi :: bool
  t_dirty_cas :: bool
  t_dirty_exec :: bool
  t_master :: bool
  mstate :: "multiCmd list"
  t_watched :: "dbkey list"
  t_out :: "reply list"

record 'v tserver =
  tclients :: "nat \<Rightarrow> tclient"
  server_clients :: "nat list"
  watched_keys :: "dbkey \<rightharpoonup> nat list"
  t_data :: "dbkey \<Rightarrow> 'v option"
  t_prop :: "(nat \<times> bytes list) list"
  srv_dirty :: int
  srv_loading :: bool
  masterhost :: bool
  repl_slave_ro :: bool

definition upd_t :: "nat \<Rightarrow> (tclient \<Rightarrow> tclient) \<Rightarrow> 'v tserver \<Rightarrow> 'v tserver" where
  "upd_t c f s = s\<lparr>tclients := (tclients s)(c := f (tclients s c))\<rparr>"

definition reply_t :: "nat \<Rightarrow> reply list \<Rightarrow> 'v tserver \<Rightarrow> 'v tserver" where
  "reply_t c rs s = upd_t c (\<lambda>cl. cl\<lparr>t_out := t_out cl @ rs\<rparr>) s"

section \<open>Watching keys\<close>

definition watchForKey :: "nat \<Rightarrow> bytes \<Rightarrow> 'v tserver \<Rightarrow> 'v tserver" where
  "watchForKey c key s =
     (let k = (t_db (tclients s c), key) in
      if k \<in> set (t_watched (tclients s c)) then s
      else
        let clients = (case watched_keys s k of None \<Rightarrow> [] | Some l \<Rightarrow> l) in
        upd_t c (t_watched_update (\<lambda>ks. ks @ [k])) (s\<lparr>watched_keys := (watched_keys s)(k \<mapsto> clients @ [c])\<rparr>))"

text \<open>The loop takes the keys off the front of the list.\<close>

fun unwatch_loop :: "nat \<Rightarrow> dbkey list \<Rightarrow> 'v tserver \<Rightarrow> 'v tserver option" where
  "unwatch_loop c [] s = Some s"
| "unwatch_loop c (k # ks) s =
     do {
       clients \<leftarrow> watched_keys s k;
       if c \<notin> set clients then None
       else
         let clients' = remove1 c clients;
             s1 = s\<lparr>watched_keys := (if clients' = [] then (watched_keys s)(k := None) else (watched_keys s)(k \<mapsto> clients'))\<rparr> in
         unwatch_loop c ks (upd_t c (t_watched_update tl) s1)
     }"

definition unwatchAllKeys :: "nat \<Rightarrow> 'v tserver \<Rightarrow> 'v tserver option" where
  "unwatchAllKeys c s = unwatch_loop c (t_watched (tclients s c)) s"

definition touchWatchedKey :: "dbkey \<Rightarrow> 'v tserver \<Rightarrow> 'v tserver" where
  "touchWatchedKey k s =
     (case watched_keys s k of
        None \<Rightarrow> s
      | Some clients \<Rightarrow> fold (\<lambda>c. upd_t c (t_dirty_cas_update (\<lambda>_. True))) clients s)"

text \<open>\<^term>\<open>None\<close> stands for all databases.\<close>

definition flush_db :: "nat option \<Rightarrow> dbkey \<Rightarrow> bool" where
  "flush_db dbid k \<longleftrightarrow> dbid = None \<or> dbid = Some (fst k)"

definition touchWatchedKeysOnFlush :: "nat option \<Rightarrow> 'v tserver \<Rightarrow> 'v tserver" where
  "touchWatchedKeysOnFlush dbid s =
     fold (\<lambda>c s'. if list_ex (\<lambda>k. flush_db dbid k \<and> t_data s' k \<noteq> None) (t_watched (tclients s' c))
                  then upd_t c (t_dirty_cas_update (\<lambda>_. True)) s' else s') (server_clients s) s"

fun signal_key :: "signal \<Rightarrow> 'v tserver \<Rightarrow> 'v tserver" where
  "signal_key (Modified k) s = touchWatchedKey k s"
| "signal_key (Flushed dbid) s = touchWatchedKeysOnFlush dbid s"

definition watchCommand :: "nat \<Rightarrow> bytes list \<Rightarrow> 'v tserver \<Rightarrow> 'v tserver" where
  "watchCommand c keys s =
     (if t_multi (tclients s c) then reply_t c [Error ''WATCH inside MULTI is not allowed''] s
      else reply_t c [Shared ''ok''] (fold (watchForKey c) keys s))"

definition unwatchCommand :: "nat \<Rightarrow> 'v tserver \<Rightarrow> 'v tserver option" where
  "unwatchCommand c s =
     do { s1 \<leftarrow> unwatchAllKeys c s; Some (reply_t c [Shared ''ok''] (upd_t c (t_dirty_cas_update (\<lambda>_. False)) s1)) }"

section \<open>Transactions\<close>

definition queueMultiCommand :: "nat \<Rightarrow> multiCmd \<Rightarrow> 'v tserver \<Rightarrow> 'v tserver" where
  "queueMultiCommand c q s = upd_t c (mstate_update (\<lambda>qs. qs @ [q])) s"

definition discardTransaction :: "nat \<Rightarrow> 'v tserver \<Rightarrow> 'v tserver option" where
  "discardTransaction c s =
     unwatchAllKeys c (upd_t c (\<lambda>cl. cl\<lparr>mstate := [], t_multi := False, t_dirty_cas := False, t_dirty_exec := False\<rparr>) s)"

definition flagTransaction :: "nat \<Rightarrow> 'v tserver \<Rightarrow> 'v tserver" where
  "flagTransaction c s = (if t_multi (tclients s c) then upd_t c (t_dirty_exec_update (\<lambda>_. True)) s else s)"

definition multiCommand :: "nat \<Rightarrow> 'v tserver \<Rightarrow> 'v tserver" where
  "multiCommand c s =
     (if t_multi (tclients s c) then reply_t c [Error ''MULTI calls can not be nested''] s
      else reply_t c [Shared ''ok''] (upd_t c (t_multi_update (\<lambda>_. True)) s))"

definition discardCommand :: "nat \<Rightarrow> 'v tserver \<Rightarrow> 'v tserver option" where
  "discardCommand c s =
     (if \<not> t_multi (tclients s c) then Some (reply_t c [Error ''DISCARD without MULTI''] s)
      else do { s1 \<leftarrow> discardTransaction c s; Some (reply_t c [Shared ''ok''] s1) })"

definition propagate :: "nat \<Rightarrow> bytes list \<Rightarrow> 'v tserver \<Rightarrow> 'v tserver" where
  "propagate dbid argv s = s\<lparr>t_prop := t_prop s @ [(dbid, argv)]\<rparr>"

definition execCommandPropagateMulti :: "nat \<Rightarrow> 'v tserver \<Rightarrow> 'v tserver" where
  "execCommandPropagateMulti c s = propagate (t_db (tclients s c)) [ascii ''MULTI''] s"

text \<open>The function of a command, with the arguments it leaves. Keys are signalled as flushed while they are still there.\<close>

definition cmd_proc :: "'v runner \<Rightarrow> nat \<Rightarrow> multiCmd \<Rightarrow> 'v tserver \<Rightarrow> ('v tserver \<times> bytes list) option" where
  "cmd_proc run c q s =
     (case q_proc q of
        CData \<Rightarrow>
          let (d', sigs, dirty, argv, reps) = run (q_argv q) (t_db (tclients s c)) (srv_dirty s) (t_data s);
              s1 = fold signal_key sigs s in
          Some (reply_t c reps (s1\<lparr>t_data := d', srv_dirty := dirty\<rparr>), argv)
      | CSelect n \<Rightarrow> Some (reply_t c [Shared ''ok''] (upd_t c (t_db_update (\<lambda>_. n)) s), q_argv q)
      | CUnwatch \<Rightarrow> do { s1 \<leftarrow> unwatchCommand c s; Some (s1, q_argv q) }
      | CMulti \<Rightarrow> Some (multiCommand c s, q_argv q)
      | CDiscard \<Rightarrow> do { s1 \<leftarrow> discardCommand c s; Some (s1, q_argv q) }
      | CWatch \<Rightarrow> Some (watchCommand c (tl (q_argv q)) s, q_argv q)
      | CExec \<Rightarrow> None)"

text \<open>\<open>full\<close> is the flag for propagation: a command that raised the change counter is propagated.\<close>

definition call :: "bool \<Rightarrow> nat \<Rightarrow> ('v tserver \<Rightarrow> ('v tserver \<times> bytes list) option) \<Rightarrow> 'v tserver \<Rightarrow> 'v tserver option" where
  "call full c proc s =
     do {
       (s1, argv) \<leftarrow> proc s;
       let dirty = max 0 (srv_dirty s1 - srv_dirty s);
       Some (if full \<and> dirty \<noteq> 0 then propagate (t_db (tclients s1 c)) argv s1 else s1)
     }"

text \<open>The loop of EXEC; the flag tells whether MULTI was propagated.\<close>

fun exec_loop :: "'v runner \<Rightarrow> nat \<Rightarrow> multiCmd list \<Rightarrow> bool \<Rightarrow> 'v tserver \<Rightarrow> ('v tserver \<times> bool) option" where
  "exec_loop run c [] must s = Some (s, must)"
| "exec_loop run c (q # qs) must s =
     (let (s1, must') = (if \<not> must \<and> \<not> q_quiet q then (execCommandPropagateMulti c s, True) else (s, must)) in
      do { s2 \<leftarrow> call (\<not> srv_loading s1) c (cmd_proc run c q) s1; exec_loop run c qs must' s2 })"

definition execCommand :: "'v runner \<Rightarrow> nat \<Rightarrow> 'v tserver \<Rightarrow> 'v tserver option" where
  "execCommand run c s =
     (let cl = tclients s c in
      if \<not> t_multi cl then Some (reply_t c [Error ''EXEC without MULTI''] s)
      else if t_dirty_cas cl \<or> t_dirty_exec cl
      then discardTransaction c (reply_t c [if t_dirty_exec cl then Shared ''execaborterr'' else NullMultiBulk] s)
      else if \<not> srv_loading s \<and> masterhost s \<and> repl_slave_ro s \<and> \<not> t_master cl \<and> list_ex q_write (mstate cl)
      then discardTransaction c (reply_t c [Error ''Transaction contains write commands but instance is now a read-only slave. EXEC aborted.''] s)
      else do {
        s1 \<leftarrow> unwatchAllKeys c s;
        let s2 = reply_t c [MultiBulkLen (int (length (mstate cl)))] s1;
        (s3, must) \<leftarrow> exec_loop run c (mstate cl) False s2;
        s4 \<leftarrow> discardTransaction c s3;
        Some (if must then s4\<lparr>srv_dirty := srv_dirty s4 + 1\<rparr> else s4)
      })"

section \<open>Requests\<close>

text \<open>What the checks of \<^verbatim>\<open>processCommand\<close> read outside this state, for the request at hand: the message for an unknown
  command or a wrong number of arguments, missing authentication, the redirection of a cluster, memory that cannot be freed,
  the error for failed writes to disk, too few replicas, a client in the context of channels with another command, a broken link to
  the master whose stale data is not served, and a slow script that does not admit the command.\<close>

record conds =
  k_unknown :: "string option"
  k_arity :: "string option"
  k_noauth :: bool
  k_redirect :: "reply option"
  k_oom :: bool
  k_disk :: "reply option"
  k_ping :: bool
  k_few_slaves :: bool
  k_pubsub :: bool
  k_link_down :: bool
  k_slow_script :: bool

text \<open>The first check that refuses the command: its reply, and whether the transaction is flagged.\<close>

definition refusal :: "conds \<Rightarrow> nat \<Rightarrow> multiCmd \<Rightarrow> 'v tserver \<Rightarrow> (bool \<times> reply) option" where
  "refusal k c q s =
     (let cl = tclients s c in
      if k_unknown k \<noteq> None then Some (True, Error (the (k_unknown k)))
      else if k_arity k \<noteq> None then Some (True, Error (the (k_arity k)))
      else if k_noauth k then Some (True, Shared ''noautherr'')
      else if k_redirect k \<noteq> None then Some (True, the (k_redirect k))
      else if k_oom k \<and> (q_denyoom q \<or> t_multi cl \<and> q_proc q \<noteq> CExec) then Some (True, Shared ''oomerr'')
      else if k_disk k \<noteq> None \<and> \<not> masterhost s \<and> (q_write q \<or> k_ping k) then Some (True, the (k_disk k))
      else if \<not> masterhost s \<and> q_write q \<and> k_few_slaves k then Some (True, Shared ''noreplicaserr'')
      else if masterhost s \<and> repl_slave_ro s \<and> \<not> t_master cl \<and> q_write q then Some (False, Shared ''roslaveerr'')
      else if k_pubsub k then Some (False, Error ''only (P)SUBSCRIBE / (P)UNSUBSCRIBE / PING / QUIT allowed in this context'')
      else if masterhost s \<and> k_link_down k \<and> \<not> q_stale q then Some (True, Shared ''masterdownerr'')
      else if srv_loading s \<and> \<not> q_loading q then Some (False, Shared ''loadingerr'')
      else if k_slow_script k then Some (True, Shared ''slowscripterr'')
      else None)"

text \<open>A redirected EXEC discards the transaction.\<close>

definition processCommand :: "'v runner \<Rightarrow> conds \<Rightarrow> nat \<Rightarrow> multiCmd \<Rightarrow> 'v tserver \<Rightarrow> 'v tserver option" where
  "processCommand run k c q s =
     (case refusal k c q s of
        Some (flag, rep) \<Rightarrow>
          if k_unknown k = None \<and> k_arity k = None \<and> \<not> k_noauth k \<and> k_redirect k \<noteq> None \<and> q_proc q = CExec
          then do { s1 \<leftarrow> discardTransaction c s; Some (reply_t c [rep] s1) }
          else Some (reply_t c [rep] (if flag then flagTransaction c s else s))
      | None \<Rightarrow>
          if t_multi (tclients s c) \<and> q_proc q \<notin> {CExec, CDiscard, CMulti, CWatch}
          then Some (reply_t c [Shared ''queued''] (queueMultiCommand c q s))
          else if q_proc q = CExec then call True c (\<lambda>s. do { s1 \<leftarrow> execCommand run c s; Some (s1, q_argv q) }) s
          else call True c (cmd_proc run c q) s)"

definition initClientMultiState :: "tclient \<Rightarrow> tclient" where
  "initClientMultiState cl = cl\<lparr>mstate := []\<rparr>"

text \<open>The parts of creating and freeing a client that concern transactions.\<close>

definition createClient_multi :: "nat \<Rightarrow> 'v tserver \<Rightarrow> 'v tserver" where
  "createClient_multi c s =
     upd_t c (\<lambda>cl. initClientMultiState (cl\<lparr>t_db := 0, t_multi := False, t_dirty_cas := False, t_dirty_exec := False, t_master := False, t_watched := [], t_out := []\<rparr>))
       (s\<lparr>server_clients := server_clients s @ [c]\<rparr>)"

definition freeClient_multi :: "nat \<Rightarrow> 'v tserver \<Rightarrow> 'v tserver option" where
  "freeClient_multi c s = do { s1 \<leftarrow> unwatchAllKeys c s; Some (s1\<lparr>server_clients := remove1 c (server_clients s1)\<rparr>) }"

section \<open>The two sides of the watch tables agree\<close>

definition watch_ok :: "'v tserver \<Rightarrow> bool" where
  "watch_ok s \<longleftrightarrow>
     (\<forall>k c. k \<in> set (t_watched (tclients s c)) \<longleftrightarrow> (\<exists>l. watched_keys s k = Some l \<and> c \<in> set l)) \<and>
     (\<forall>k l. watched_keys s k = Some l \<longrightarrow> l \<noteq> [] \<and> distinct l) \<and>
     (\<forall>c. distinct (t_watched (tclients s c)) \<and> (t_watched (tclients s c) \<noteq> [] \<longrightarrow> c \<in> set (server_clients s)))"

text \<open>\<open>same_watch s s'\<close>: what \<open>watch_ok\<close> reads is the same.\<close>

definition same_watch :: "'v tserver \<Rightarrow> 'v tserver \<Rightarrow> bool" where
  "same_watch s s' \<longleftrightarrow> watched_keys s' = watched_keys s \<and> server_clients s' = server_clients s \<and> (\<forall>c. t_watched (tclients s' c) = t_watched (tclients s c))"

lemma same_watch_ok: "watch_ok s \<Longrightarrow> same_watch s s' \<Longrightarrow> watch_ok s'"
  by (simp add: watch_ok_def same_watch_def)

lemma same_watch_trans: "same_watch a b \<Longrightarrow> same_watch b c \<Longrightarrow> same_watch a c"
  by (simp add: same_watch_def)

lemma upd_t_simps [simp]:
  "tclients (upd_t c f s) = (tclients s)(c := f (tclients s c))" "server_clients (upd_t c f s) = server_clients s"
  "watched_keys (upd_t c f s) = watched_keys s" "t_data (upd_t c f s) = t_data s" "t_prop (upd_t c f s) = t_prop s"
  "srv_dirty (upd_t c f s) = srv_dirty s" "srv_loading (upd_t c f s) = srv_loading s" "masterhost (upd_t c f s) = masterhost s" "repl_slave_ro (upd_t c f s) = repl_slave_ro s"
  by (simp_all add: upd_t_def)

lemma reply_t_simps [simp]:
  "tclients (reply_t c rs s) = (tclients s)(c := (tclients s c)\<lparr>t_out := t_out (tclients s c) @ rs\<rparr>)" "server_clients (reply_t c rs s) = server_clients s"
  "watched_keys (reply_t c rs s) = watched_keys s" "t_data (reply_t c rs s) = t_data s" "t_prop (reply_t c rs s) = t_prop s"
  "srv_dirty (reply_t c rs s) = srv_dirty s" "srv_loading (reply_t c rs s) = srv_loading s" "masterhost (reply_t c rs s) = masterhost s" "repl_slave_ro (reply_t c rs s) = repl_slave_ro s"
  by (simp_all add: reply_t_def)

text \<open>Flagging clients: which, and that nothing else changes.\<close>

definition flagged :: "nat set \<Rightarrow> 'v tserver \<Rightarrow> 'v tserver" where
  "flagged C s = s\<lparr>tclients := \<lambda>c. if c \<in> C then (tclients s c)\<lparr>t_dirty_cas := True\<rparr> else tclients s c\<rparr>"

lemma upd_eq: "(\<And>c. f c = g c) \<Longrightarrow> s\<lparr>tclients := f\<rparr> = s\<lparr>tclients := g\<rparr>"
  by (rule arg_cong [where f = "\<lambda>x. s\<lparr>tclients := x\<rparr>"]) (rule ext)

lemma flagged_upd: "upd_t c (t_dirty_cas_update (\<lambda>_. True)) (flagged C s) = flagged (insert c C) s"
  by (auto simp: flagged_def upd_t_def intro!: upd_eq)

lemma flagged_empty [simp]: "flagged {} s = s"
  by (simp add: flagged_def)

lemma flagged_flagged: "flagged D (flagged C s) = flagged (C \<union> D) s"
  by (auto simp: flagged_def intro!: upd_eq)

lemma flagged_simps [simp]:
  "t_watched (tclients (flagged C s) c) = t_watched (tclients s c)" "watched_keys (flagged C s) = watched_keys s"
  "server_clients (flagged C s) = server_clients s" "t_data (flagged C s) = t_data s" "t_prop (flagged C s) = t_prop s"
  "srv_dirty (flagged C s) = srv_dirty s" "srv_loading (flagged C s) = srv_loading s"
  by (simp_all add: flagged_def)

lemma fold_flag: "fold (\<lambda>c. upd_t c (t_dirty_cas_update (\<lambda>_. True))) l (flagged C s) = flagged (C \<union> set l) s"
  by (induction l arbitrary: C) (simp_all add: flagged_upd Un_insert_right)

lemma touch_key: "touchWatchedKey k s = flagged (case watched_keys s k of None \<Rightarrow> {} | Some l \<Rightarrow> set l) s"
  using fold_flag [of _ "{}" s] by (simp add: touchWatchedKey_def split: option.split)

lemma fold_flush:
  "fold (\<lambda>c s'. if list_ex (\<lambda>k. flush_db dbid k \<and> t_data s' k \<noteq> None) (t_watched (tclients s' c)) then upd_t c (t_dirty_cas_update (\<lambda>_. True)) s' else s') l (flagged C s) =
   flagged (C \<union> {c \<in> set l. \<exists>k \<in> set (t_watched (tclients s c)). flush_db dbid k \<and> t_data s k \<noteq> None}) s"
proof (induction l arbitrary: C)
  case (Cons c l)
  show ?case using Cons.IH [of C] Cons.IH [of "insert c C"]
    by (auto simp: flagged_upd list_ex_iff intro!: arg_cong [of _ _ "\<lambda>X. flagged X s"])
qed simp

lemma touch_flush:
  "touchWatchedKeysOnFlush dbid s = flagged {c \<in> set (server_clients s). \<exists>k \<in> set (t_watched (tclients s c)). flush_db dbid k \<and> t_data s k \<noteq> None} s"
  using fold_flush [of dbid "server_clients s" "{}" s] by (simp add: touchWatchedKeysOnFlush_def)

text \<open>The clients that a list of signals flags.\<close>

definition hit :: "'v tserver \<Rightarrow> signal \<Rightarrow> nat set" where
  "hit s sig = (case sig of
     Modified k \<Rightarrow> (case watched_keys s k of None \<Rightarrow> {} | Some l \<Rightarrow> set l)
   | Flushed dbid \<Rightarrow> {c \<in> set (server_clients s). \<exists>k \<in> set (t_watched (tclients s c)). flush_db dbid k \<and> t_data s k \<noteq> None})"

lemma fold_signal: "fold signal_key sigs s = flagged (\<Union>sig \<in> set sigs. hit s sig) s"
proof -
  have one: "signal_key sig (flagged C s) = flagged (C \<union> hit s sig) s" for sig C
    by (cases sig) (simp_all add: touch_key touch_flush hit_def flagged_flagged)
  have "fold signal_key sigs (flagged C s) = flagged (C \<union> (\<Union>sig \<in> set sigs. hit s sig)) s" for C
    by (induction sigs arbitrary: C) (simp_all add: one Un_assoc)
  from this [of "{}"] show ?thesis by simp
qed


lemma unwatch_step:
  assumes "watch_ok s" "t_watched (tclients s c) = k # ks"
  obtains l where "watched_keys s k = Some l" "c \<in> set l"
    "watch_ok (upd_t c (t_watched_update tl) (s\<lparr>watched_keys := (if remove1 c l = [] then (watched_keys s)(k := None) else (watched_keys s)(k \<mapsto> remove1 c l))\<rparr>))"
proof -
  obtain l where l: "watched_keys s k = Some l" "c \<in> set l" using assms by (force simp: watch_ok_def)
  have d: "distinct l" "distinct (k # ks)" using assms l(1) by (auto simp: watch_ok_def) (metis distinct.simps(2))+
  define W where "W = (if remove1 c l = [] then (watched_keys s)(k := None) else (watched_keys s)(k \<mapsto> remove1 c l))"
  have W: "(\<exists>l'. W x = Some l' \<and> c' \<in> set l') \<longleftrightarrow> (if x = k then c' \<noteq> c \<and> c' \<in> set l else \<exists>l'. watched_keys s x = Some l' \<and> c' \<in> set l')" for x c'
    using d(1) by (auto simp: W_def set_remove1_eq) (metis empty_iff list.set(1) set_remove1_eq Diff_iff singletonD)+
  have "watch_ok (upd_t c (t_watched_update tl) (s\<lparr>watched_keys := W\<rparr>))"
    unfolding watch_ok_def
  proof (intro conjI allI impI)
    fix x c'
    show "x \<in> set (t_watched (tclients (upd_t c (t_watched_update tl) (s\<lparr>watched_keys := W\<rparr>)) c')) \<longleftrightarrow>
      (\<exists>l. watched_keys (upd_t c (t_watched_update tl) (s\<lparr>watched_keys := W\<rparr>)) x = Some l \<and> c' \<in> set l)"
    proof -
      have m: "x \<in> set (t_watched (tclients s c')) \<longleftrightarrow> (\<exists>l. watched_keys s x = Some l \<and> c' \<in> set l)" using assms(1) by (simp add: watch_ok_def)
      show ?thesis using W [of x c'] m assms(2) l d(2) by (cases "c' = c"; cases "x = k") auto
    qed
  next
    fix x l' assume "watched_keys (upd_t c (t_watched_update tl) (s\<lparr>watched_keys := W\<rparr>)) x = Some l'"
    then have "W x = Some l'" by simp
    then show "l' \<noteq> []" "distinct l'" using assms(1) d(1) by (auto simp: W_def watch_ok_def split: if_splits)
  next
    fix c'
    show "distinct (t_watched (tclients (upd_t c (t_watched_update tl) (s\<lparr>watched_keys := W\<rparr>)) c'))" using assms d(2) by (auto simp: watch_ok_def)
    assume "t_watched (tclients (upd_t c (t_watched_update tl) (s\<lparr>watched_keys := W\<rparr>)) c') \<noteq> []"
    then show "c' \<in> set (server_clients (upd_t c (t_watched_update tl) (s\<lparr>watched_keys := W\<rparr>)))" using assms by (auto simp: watch_ok_def split: if_splits)
  qed
  then show thesis using that l by (simp add: W_def)
qed

text \<open>What is left of a state when the keys of a client are unwatched.\<close>

definition unwatched :: "nat \<Rightarrow> 'v tserver \<Rightarrow> 'v tserver \<Rightarrow> bool" where
  "unwatched c s s' \<longleftrightarrow> s'\<lparr>watched_keys := watched_keys s\<rparr> = upd_t c (\<lambda>cl. cl\<lparr>t_watched := []\<rparr>) s"

lemma unwatch_loop_ok:
  "watch_ok s \<Longrightarrow> t_watched (tclients s c) = ks \<Longrightarrow> \<exists>s'. unwatch_loop c ks s = Some s' \<and> watch_ok s' \<and> unwatched c s s'"
proof (induction ks arbitrary: s)
  case Nil
  then have "(tclients s c)\<lparr>t_watched := []\<rparr> = tclients s c" by (cases "tclients s c") simp
  then have "upd_t c (\<lambda>cl. cl\<lparr>t_watched := []\<rparr>) s = s" by (cases s) (simp add: upd_t_def)
  then show ?case using Nil by (simp add: unwatched_def)
next
  case (Cons k ks)
  obtain l where l: "watched_keys s k = Some l" "c \<in> set l"
    "watch_ok (upd_t c (t_watched_update tl) (s\<lparr>watched_keys := (if remove1 c l = [] then (watched_keys s)(k := None) else (watched_keys s)(k \<mapsto> remove1 c l))\<rparr>))"
    using unwatch_step [OF Cons.prems] .
  obtain s' where s': "unwatch_loop c ks (upd_t c (t_watched_update tl) (s\<lparr>watched_keys := (if remove1 c l = [] then (watched_keys s)(k := None) else (watched_keys s)(k \<mapsto> remove1 c l))\<rparr>)) = Some s'"
    "watch_ok s'" "unwatched c (upd_t c (t_watched_update tl) (s\<lparr>watched_keys := (if remove1 c l = [] then (watched_keys s)(k := None) else (watched_keys s)(k \<mapsto> remove1 c l))\<rparr>)) s'"
    using Cons.IH [OF l(3)] Cons.prems(2) by auto
  have "unwatched c s s'"
    using arg_cong [OF s'(3) [unfolded unwatched_def], of "\<lambda>z. z\<lparr>watched_keys := watched_keys s\<rparr>"] by (cases s; simp add: unwatched_def upd_t_def)
  then show ?case using l(1,2) s'(1,2) by (simp add: Let_def)
qed

lemma unwatch_ok: "watch_ok s \<Longrightarrow> \<exists>s'. unwatchAllKeys c s = Some s' \<and> watch_ok s' \<and> unwatched c s s'"
  using unwatch_loop_ok [of s c "t_watched (tclients s c)"] by (simp add: unwatchAllKeys_def)

lemma unwatched_simps:
  assumes "unwatched c s s'"
  shows "tclients s' = (tclients s)(c := (tclients s c)\<lparr>t_watched := []\<rparr>)" "server_clients s' = server_clients s" "t_data s' = t_data s" "t_prop s' = t_prop s"
    "srv_dirty s' = srv_dirty s" "srv_loading s' = srv_loading s"
  using assms by (cases s'; cases s; simp add: unwatched_def upd_t_def)+


section \<open>Optimistic locking\<close>

text \<open>Commands signal what they change: a key as modified, or a database, with the key in it, as flushed. (The deletion of an
  expired key is not signalled in this version, so keys with a time to live are outside this assumption.)\<close>

definition signals :: "'v runner \<Rightarrow> bool" where
  "signals run \<longleftrightarrow> (\<forall>args db dy d k. let (d', sigs, dy', argv', reps) = run args db dy d in
     d' k \<noteq> d k \<longrightarrow> Modified k \<in> set sigs \<or> (\<exists>dbid. Flushed dbid \<in> set sigs \<and> flush_db dbid k \<and> d k \<noteq> None))"

text \<open>\<open>snap c k\<close> is the value that key \<open>k\<close> had when client \<open>c\<close> began to watch it.\<close>

definition cas_ok :: "(nat \<Rightarrow> dbkey \<Rightarrow> 'v option) \<Rightarrow> 'v tserver \<Rightarrow> bool" where
  "cas_ok snap s \<longleftrightarrow> (\<forall>c k. k \<in> set (t_watched (tclients s c)) \<longrightarrow> \<not> t_dirty_cas (tclients s c) \<longrightarrow> t_data s k = snap c k)"

lemma hit_watched:
  assumes "watch_ok s" "k \<in> set (t_watched (tclients s c))" "Modified k \<in> set sigs \<or> (\<exists>dbid. Flushed dbid \<in> set sigs \<and> flush_db dbid k \<and> t_data s k \<noteq> None)"
  shows "\<exists>sig \<in> set sigs. c \<in> hit s sig"
proof -
  obtain l where "watched_keys s k = Some l" "c \<in> set l" using assms(1,2) unfolding watch_ok_def by blast
  moreover have "c \<in> set (server_clients s)" using assms(1,2) by (force simp: watch_ok_def)
  ultimately have "c \<in> hit s (Modified k)" "flush_db dbid k \<and> t_data s k \<noteq> None \<Longrightarrow> c \<in> hit s (Flushed dbid)" for dbid
    using assms(2) by (auto simp: hit_def)
  then show ?thesis using assms(3) by blast
qed

text \<open>The other clients: apart from dirty flags, they are left alone.\<close>

definition others_same :: "nat \<Rightarrow> 'v tserver \<Rightarrow> 'v tserver \<Rightarrow> bool" where
  "others_same c s s' \<longleftrightarrow> server_clients s' = server_clients s \<and> (\<forall>c'. c' \<noteq> c \<longrightarrow>
     (tclients s' c')\<lparr>t_dirty_cas := False\<rparr> = (tclients s c')\<lparr>t_dirty_cas := False\<rparr>)"

section \<open>Running a queue\<close>

text \<open>The reference: commands run one after the other on the selected database, the change counter and the data, each with its
  replies and what it propagates.\<close>

type_synonym 'v tdata = "nat \<times> int \<times> (dbkey \<Rightarrow> 'v option)"

definition seq_step :: "'v runner \<Rightarrow> multiCmd \<Rightarrow> 'v tdata \<Rightarrow> 'v tdata \<times> reply list \<times> (nat \<times> bytes list) list" where
  "seq_step run q x =
     (case x of (db, dy, d) \<Rightarrow>
        (case q_proc q of
           CData \<Rightarrow>
             let (d', sigs, dy', argv, reps) = run (q_argv q) db dy d in ((db, dy', d'), reps, if dy < dy' then [(db, argv)] else [])
         | CSelect n \<Rightarrow> ((n, dy, d), [Shared ''ok''], [])
         | _ \<Rightarrow> ((db, dy, d), [Shared ''ok''], [])))"

fun seq_run :: "'v runner \<Rightarrow> multiCmd list \<Rightarrow> 'v tdata \<Rightarrow> 'v tdata \<times> (reply list \<times> (nat \<times> bytes list) list) list" where
  "seq_run run [] x = (x, [])"
| "seq_run run (q # qs) x = (let (x', r) = seq_step run q x; (x'', rs) = seq_run run qs x' in (x'', r # rs))"

definition tdata_of :: "nat \<Rightarrow> 'v tserver \<Rightarrow> 'v tdata" where
  "tdata_of c s = (t_db (tclients s c), srv_dirty s, t_data s)"

text \<open>What a call does to its client and to the others.\<close>

definition called :: "nat \<Rightarrow> 'v tserver \<Rightarrow> 'v tserver \<Rightarrow> 'v tdata \<Rightarrow> reply list \<Rightarrow> (nat \<times> bytes list) list \<Rightarrow> bool" where
  "called c s s' x' reps ps \<longleftrightarrow> others_same c s s' \<and> tdata_of c s' = x' \<and> t_prop s' = t_prop s @ ps \<and> srv_loading s' = srv_loading s \<and>
     t_out (tclients s' c) = t_out (tclients s c) @ reps \<and> t_multi (tclients s' c) = t_multi (tclients s c) \<and>
     t_dirty_exec (tclients s' c) = t_dirty_exec (tclients s c) \<and>
     mstate (tclients s' c) = mstate (tclients s c) \<and> set (t_watched (tclients s' c)) \<subseteq> set (t_watched (tclients s c))"

lemma propagate_simps [simp]:
  "tclients (propagate n a s) = tclients s" "server_clients (propagate n a s) = server_clients s" "watched_keys (propagate n a s) = watched_keys s"
  "t_data (propagate n a s) = t_data s" "t_prop (propagate n a s) = t_prop s @ [(n, a)]" "srv_dirty (propagate n a s) = srv_dirty s"
  "srv_loading (propagate n a s) = srv_loading s"
  by (simp_all add: propagate_def)

lemma watch_propagate [simp]: "watch_ok (propagate n a s) = watch_ok s" "cas_ok snap (propagate n a s) = cas_ok snap s"
  by (simp_all add: watch_ok_def cas_ok_def)

lemma signalled:
  assumes "signals run" "watch_ok s" "cas_ok snap s" "run args db dy (t_data s) = (d', sigs, dy', argv, reps)"
  shows "watch_ok (reply_t c reps (fold signal_key sigs s\<lparr>t_data := d', srv_dirty := dy'\<rparr>))"
    "cas_ok snap (reply_t c reps (fold signal_key sigs s\<lparr>t_data := d', srv_dirty := dy'\<rparr>))"
proof -
  define C where "C = (\<Union>sig \<in> set sigs. hit s sig)"
  define s' where "s' = reply_t c reps (flagged C s\<lparr>t_data := d', srv_dirty := dy'\<rparr>)"
  have e: "reply_t c reps (fold signal_key sigs s\<lparr>t_data := d', srv_dirty := dy'\<rparr>) = s'" by (simp add: fold_signal C_def [symmetric] s'_def)
  have w: "t_watched (tclients s' x) = t_watched (tclients s x)" "t_dirty_cas (tclients s' x) \<longleftrightarrow> t_dirty_cas (tclients s x) \<or> x \<in> C" for x
    by (auto simp: s'_def flagged_def)
  have f: "watched_keys s' = watched_keys s" "server_clients s' = server_clients s" "t_data s' = d'" by (simp_all add: s'_def)
  then have "same_watch s s'" using w by (simp add: same_watch_def)
  then show "watch_ok (reply_t c reps (fold signal_key sigs s\<lparr>t_data := d', srv_dirty := dy'\<rparr>))" unfolding e by (rule same_watch_ok [OF assms(2)])
  show "cas_ok snap (reply_t c reps (fold signal_key sigs s\<lparr>t_data := d', srv_dirty := dy'\<rparr>))"
    unfolding e cas_ok_def w f
  proof (intro allI impI)
    fix x k assume x: "k \<in> set (t_watched (tclients s x))" "\<not> (t_dirty_cas (tclients s x) \<or> x \<in> C)"
    then have "\<not> (Modified k \<in> set sigs \<or> (\<exists>dbid. Flushed dbid \<in> set sigs \<and> flush_db dbid k \<and> t_data s k \<noteq> None))"
      using hit_watched [OF assms(2) x(1), of sigs] unfolding C_def by blast
    moreover have "d' k \<noteq> t_data s k \<longrightarrow> Modified k \<in> set sigs \<or> (\<exists>dbid. Flushed dbid \<in> set sigs \<and> flush_db dbid k \<and> t_data s k \<noteq> None)"
      using assms(1) [unfolded signals_def, rule_format, of args db dy "t_data s" k] assms(4) by simp
    ultimately have "d' k = t_data s k" by blast
    then show "d' k = snap x k" using assms(3) x by (simp add: cas_ok_def)
  qed
qed

text \<open>The commands that are queued.\<close>

abbreviation queueable :: "multiCmd \<Rightarrow> bool" where
  "queueable q \<equiv> q_proc q \<notin> {CMulti, CExec, CDiscard, CWatch}"

lemma call_ok:
  assumes "signals run" "watch_ok s" "cas_ok snap s" "queueable q" "seq_step run q (tdata_of c s) = (x', reps, ps)"
  shows "\<exists>s'. call True c (cmd_proc run c q) s = Some s' \<and> watch_ok s' \<and> cas_ok snap s' \<and> called c s s' x' reps ps"
proof (cases "q_proc q")
  case CData
  obtain d' sigs dy' argv reps' where r: "run (q_argv q) (t_db (tclients s c)) (srv_dirty s) (t_data s) = (d', sigs, dy', argv, reps')" by (metis prod_cases5)
  define s1 where "s1 = reply_t c reps' (fold signal_key sigs s\<lparr>t_data := d', srv_dirty := dy'\<rparr>)"
  have w: "watch_ok s1" "cas_ok snap s1" using signalled [OF assms(1-3) r, of c] unfolding s1_def .
  moreover have "called c s s1 (t_db (tclients s c), dy', d') reps' []"
    by (auto simp: called_def s1_def fold_signal others_same_def tdata_of_def flagged_def)
  moreover have "call True c (cmd_proc run c q) s = Some (if srv_dirty s < dy' then propagate (t_db (tclients s c)) argv s1 else s1)"
    using CData r by (simp add: call_def cmd_proc_def Let_def fold_signal s1_def max_def) (simp add: flagged_def)
  moreover have "x' = (t_db (tclients s c), dy', d')" "reps = reps'" "ps = (if srv_dirty s < dy' then [(t_db (tclients s c), argv)] else [])"
    using assms(5) CData r by (simp_all add: seq_step_def tdata_of_def)
  ultimately show ?thesis by (cases "srv_dirty s < dy'") (simp_all add: called_def tdata_of_def others_same_def)
next
  case (CSelect n)
  have "same_watch s (reply_t c [Shared ''ok''] (upd_t c (t_db_update (\<lambda>_. n)) s))" by (simp add: same_watch_def)
  then show ?thesis using CSelect assms(2,3,5) same_watch_ok
    by (auto simp: call_def cmd_proc_def seq_step_def called_def others_same_def cas_ok_def tdata_of_def)
next
  case CUnwatch
  obtain s1 where s1: "unwatchAllKeys c s = Some s1" "watch_ok s1" "unwatched c s s1" using unwatch_ok [OF assms(2)] by blast
  let ?s' = "reply_t c [Shared ''ok''] (upd_t c (t_dirty_cas_update (\<lambda>_. False)) s1)"
  have "same_watch s1 ?s'" by (simp add: same_watch_def)
  then have "watch_ok ?s'" by (rule same_watch_ok [OF s1(2)])
  moreover have "cas_ok snap ?s'" using assms(3) unwatched_simps [OF s1(3)] by (simp add: cas_ok_def)
  ultimately show ?thesis using CUnwatch assms(5) s1(1) unwatched_simps [OF s1(3)]
    by (auto simp: call_def cmd_proc_def unwatchCommand_def seq_step_def called_def others_same_def tdata_of_def)
qed (use assms(4) in auto)

text \<open>Where MULTI goes in the propagated commands: in front of the first command that is neither read-only nor administrative.\<close>

fun prop_block :: "'v runner \<Rightarrow> bool \<Rightarrow> multiCmd list \<Rightarrow> 'v tdata \<Rightarrow> (nat \<times> bytes list) list" where
  "prop_block run must [] x = []"
| "prop_block run must (q # qs) x =
     (let (x', reps, ps) = seq_step run q x in
      (if \<not> must \<and> \<not> q_quiet q then [(fst x, [ascii ''MULTI''])] else []) @ ps @ prop_block run (must \<or> \<not> q_quiet q) qs x')"

lemma others_trans: "others_same c a b \<Longrightarrow> others_same c b d \<Longrightarrow> others_same c a d"
  by (simp add: others_same_def)

lemma exec_loop_ok:
  "signals run \<Longrightarrow> watch_ok s \<Longrightarrow> cas_ok snap s \<Longrightarrow> list_all queueable qs \<Longrightarrow> \<not> srv_loading s \<Longrightarrow> seq_run run qs (tdata_of c s) = (x', rs) \<Longrightarrow>
   \<exists>s'. exec_loop run c qs must s = Some (s', must \<or> list_ex (\<lambda>q. \<not> q_quiet q) qs) \<and> watch_ok s' \<and> cas_ok snap s' \<and>
     called c s s' x' (concat (map fst rs)) (prop_block run must qs (tdata_of c s))"
proof (induction qs arbitrary: s must rs)
  case Nil
  then show ?case by (auto simp: called_def others_same_def)
next
  case (Cons q qs)
  obtain x1 reps ps where st: "seq_step run q (tdata_of c s) = (x1, reps, ps)" by (metis prod_cases3)
  obtain rs1 where rs: "seq_run run qs x1 = (x', rs1)" "rs = (reps, ps) # rs1"
    using Cons.prems(6) st by (auto simp: Let_def split: prod.splits)
  define s1 where "s1 = (if \<not> must \<and> \<not> q_quiet q then execCommandPropagateMulti c s else s)"
  have s1: "tdata_of c s1 = tdata_of c s" "tclients s1 = tclients s" "server_clients s1 = server_clients s" "srv_loading s1 = srv_loading s"
    "t_prop s1 = t_prop s @ (if \<not> must \<and> \<not> q_quiet q then [(fst (tdata_of c s), [ascii ''MULTI''])] else [])"
    "watch_ok s1" "cas_ok snap s1"
    using Cons.prems(2,3) by (simp_all add: s1_def execCommandPropagateMulti_def tdata_of_def)
  then obtain s2 where s2: "call True c (cmd_proc run c q) s1 = Some s2" "watch_ok s2" "cas_ok snap s2" "called c s1 s2 x1 reps ps"
    using call_ok [OF Cons.prems(1), of s1 snap q c] st Cons.prems(4) by auto
  then have w: "tdata_of c s2 = x1" "\<not> srv_loading s2" using Cons.prems(5) s1(4) by (auto simp: called_def)
  define must' where "must' = (must \<or> \<not> q_quiet q)"
  obtain s' where s': "exec_loop run c qs must' s2 = Some (s', must' \<or> list_ex (\<lambda>q. \<not> q_quiet q) qs)" "watch_ok s'" "cas_ok snap s'"
    "called c s2 s' x' (concat (map fst rs1)) (prop_block run must' qs x1)"
    using Cons.IH [OF Cons.prems(1) s2(2,3) _ w(2), of rs1 must'] Cons.prems(4) rs(1) w(1) by auto
  have "exec_loop run c (q # qs) must s = exec_loop run c qs must' s2"
    using s2(1) s1(4) Cons.prems(5) by (auto simp: s1_def must'_def)
  moreover have "called c s s' x' (concat (map fst rs)) (prop_block run must (q # qs) (tdata_of c s))"
    using s2(4) s'(4) s1 rs(2) st others_trans [of c s1 s2 s'] by (auto simp: called_def others_same_def must'_def)
  ultimately show ?case using s'(1-3) by (auto simp: must'_def)
qed

text \<open>What is left after a transaction is discarded.\<close>

definition discarded :: "nat \<Rightarrow> 'v tserver \<Rightarrow> 'v tserver \<Rightarrow> bool" where
  "discarded c s s' \<longleftrightarrow> others_same c s s' \<and> t_data s' = t_data s \<and> t_prop s' = t_prop s \<and> srv_dirty s' = srv_dirty s \<and> srv_loading s' = srv_loading s \<and>
     tclients s' c = (tclients s c)\<lparr>mstate := [], t_multi := False, t_dirty_cas := False, t_dirty_exec := False, t_watched := []\<rparr>"

lemma discard_ok:
  assumes "watch_ok s" "cas_ok snap s"
  shows "\<exists>s'. discardTransaction c s = Some s' \<and> watch_ok s' \<and> cas_ok snap s' \<and> discarded c s s'"
proof -
  let ?s1 = "upd_t c (\<lambda>cl. cl\<lparr>mstate := [], t_multi := False, t_dirty_cas := False, t_dirty_exec := False\<rparr>) s"
  have "same_watch s ?s1" by (simp add: same_watch_def)
  then have "watch_ok ?s1" by (rule same_watch_ok [OF assms(1)])
  then obtain s' where s': "unwatchAllKeys c ?s1 = Some s'" "watch_ok s'" "unwatched c ?s1 s'" using unwatch_ok by blast
  then show ?thesis using unwatched_simps [OF s'(3)] assms(2) by (auto simp: discardTransaction_def discarded_def others_same_def cas_ok_def)
qed

section \<open>EXEC\<close>

definition exec_aborts :: "nat \<Rightarrow> 'v tserver \<Rightarrow> bool" where
  "exec_aborts c s \<longleftrightarrow> (let cl = tclients s c in
     t_dirty_cas cl \<or> t_dirty_exec cl \<or> masterhost s \<and> repl_slave_ro s \<and> \<not> t_master cl \<and> list_ex q_write (mstate cl))"

text \<open>A client outside a transaction that watches nothing.\<close>

definition tx_idle :: "tclient \<Rightarrow> bool" where
  "tx_idle cl \<longleftrightarrow> \<not> t_multi cl \<and> \<not> t_dirty_cas cl \<and> \<not> t_dirty_exec cl \<and> mstate cl = [] \<and> t_watched cl = []"

lemma exec_abort_ok:
  assumes "watch_ok s" "cas_ok snap s" "t_multi (tclients s c)" "\<not> srv_loading s" "exec_aborts c s"
  shows "\<exists>s' r. execCommand run c s = Some s' \<and> watch_ok s' \<and> cas_ok snap s' \<and> others_same c s s' \<and> tx_idle (tclients s' c) \<and>
    t_data s' = t_data s \<and> t_prop s' = t_prop s \<and> srv_dirty s' = srv_dirty s \<and> t_out (tclients s' c) = t_out (tclients s c) @ [r]"
proof -
  define r where "r = (if t_dirty_exec (tclients s c) then Shared ''execaborterr'' else if t_dirty_cas (tclients s c) then NullMultiBulk
    else Error ''Transaction contains write commands but instance is now a read-only slave. EXEC aborted.'')"
  have r: "execCommand run c s = discardTransaction c (reply_t c [r] s)"
    using assms(3-5) by (auto simp: execCommand_def exec_aborts_def Let_def r_def)
  have "same_watch s (reply_t c [r] s)" "cas_ok snap (reply_t c [r] s)" using assms(2) by (simp_all add: same_watch_def cas_ok_def)
  then obtain s' where s': "discardTransaction c (reply_t c [r] s) = Some s'" "watch_ok s'" "cas_ok snap s'" "discarded c (reply_t c [r] s) s'"
    using discard_ok [of "reply_t c [r] s"] same_watch_ok [OF assms(1)] by blast
  then show ?thesis using r by (auto simp: discarded_def others_same_def tx_idle_def)
qed

lemma exec_run_ok:
  assumes "signals run" "watch_ok s" "cas_ok snap s" "t_multi (tclients s c)" "\<not> srv_loading s" "\<not> exec_aborts c s"
    "list_all queueable (mstate (tclients s c))" "seq_run run (mstate (tclients s c)) (tdata_of c s) = (x', rs)"
  shows "\<exists>s'. execCommand run c s = Some s' \<and> watch_ok s' \<and> cas_ok snap s' \<and> others_same c s s' \<and> tx_idle (tclients s' c) \<and>
    t_data s' = snd (snd x') \<and> t_db (tclients s' c) = fst x' \<and>
    srv_dirty s' = fst (snd x') + (if list_all q_quiet (mstate (tclients s c)) then 0 else 1) \<and>
    t_prop s' = t_prop s @ prop_block run False (mstate (tclients s c)) (tdata_of c s) \<and>
    t_out (tclients s' c) = t_out (tclients s c) @ MultiBulkLen (int (length (mstate (tclients s c)))) # concat (map fst rs)"
proof -
  define qs where "qs = mstate (tclients s c)"
  obtain s1 where s1: "unwatchAllKeys c s = Some s1" "watch_ok s1" "unwatched c s s1" using unwatch_ok [OF assms(2)] by blast
  define s2 where "s2 = reply_t c [MultiBulkLen (int (length qs))] s1"
  have f: "others_same c s s2" "tdata_of c s2 = tdata_of c s" "t_prop s2 = t_prop s" "srv_loading s2 = srv_loading s"
    "t_out (tclients s2 c) = t_out (tclients s c) @ [MultiBulkLen (int (length qs))]" "cas_ok snap s2"
    using unwatched_simps [OF s1(3)] assms(3) by (simp_all add: s2_def others_same_def tdata_of_def cas_ok_def)
  have "same_watch s1 s2" by (simp add: same_watch_def s2_def)
  then have "watch_ok s2" by (rule same_watch_ok [OF s1(2)])
  then obtain s3 where s3: "exec_loop run c qs False s2 = Some (s3, list_ex (\<lambda>q. \<not> q_quiet q) qs)" "watch_ok s3" "cas_ok snap s3"
    "called c s2 s3 x' (concat (map fst rs)) (prop_block run False qs (tdata_of c s))"
    using exec_loop_ok [OF assms(1) _ f(6), of qs c x' rs False] f assms(5,7,8) by (auto simp: qs_def)
  obtain s4 where s4: "discardTransaction c s3 = Some s4" "watch_ok s4" "cas_ok snap s4" "discarded c s3 s4" using discard_ok [OF s3(2,3)] by blast
  define s' where "s' = (if list_ex (\<lambda>q. \<not> q_quiet q) qs then s4\<lparr>srv_dirty := srv_dirty s4 + 1\<rparr> else s4)"
  have "execCommand run c s = Some s'"
    using assms(4-6) s1(1) s3(1) s4(1) by (auto simp: execCommand_def exec_aborts_def Let_def s2_def [symmetric] qs_def [symmetric] s'_def)
  moreover have "watch_ok s'" "cas_ok snap s'" using s4(2,3) by (simp_all add: s'_def watch_ok_def cas_ok_def)
  moreover have "others_same c s s'" using f(1) s3(4) s4(4) by (simp add: others_same_def called_def discarded_def s'_def)
  moreover have "tclients s' c = tclients s4 c" "t_data s' = t_data s4" "t_prop s' = t_prop s4"
    "srv_dirty s' = srv_dirty s4 + (if list_all q_quiet qs then 0 else 1)"
    by (auto simp: s'_def list_ex_iff list_all_iff)
  ultimately show ?thesis using s3(4) s4(4) f(3,5) by (auto simp: called_def discarded_def tdata_of_def tx_idle_def qs_def [symmetric])
qed

text \<open>The change counter as the command table promises it: a command that is read-only or administrative leaves it alone, no
  other lowers it, and only data commands are of the first two kinds.\<close>

definition orderly :: "'v runner \<Rightarrow> multiCmd \<Rightarrow> bool" where
  "orderly run q \<longleftrightarrow> (if q_proc q = CData
     then \<forall>db dy d. let (d', sigs, dy', argv, reps) = run (q_argv q) db dy d in if q_quiet q then dy' = dy else dy \<le> dy'
     else \<not> q_quiet q)"

lemma orderly_step:
  assumes "orderly run q" "queueable q" "seq_step run q x = (x', reps, ps)"
  shows "fst (snd x) \<le> fst (snd x')" "q_quiet q \<Longrightarrow> ps = [] \<and> fst (snd x') = fst (snd x) \<and> fst x' = fst x"
proof -
  obtain db dy d where x: "x = (db, dy, d)" by (metis prod_cases3)
  obtain d' sigs dy' argv reps' where r: "run (q_argv q) db dy d = (d', sigs, dy', argv, reps')" by (metis prod_cases5)
  have o: "q_proc q = CData \<Longrightarrow> if q_quiet q then dy' = dy else dy \<le> dy'" "q_proc q \<noteq> CData \<Longrightarrow> \<not> q_quiet q"
    using assms(1) r by (auto simp: orderly_def Let_def split: if_splits) (metis (mono_tags, lifting) case_prod_conv)+
  show "fst (snd x) \<le> fst (snd x')" using assms(2,3) o r x by (cases "q_proc q") (auto simp: seq_step_def split: if_splits)
  assume "q_quiet q"
  then show "ps = [] \<and> fst (snd x') = fst (snd x) \<and> fst x' = fst x" using assms(3) o r x by (cases "q_proc q") (auto simp: seq_step_def)
qed

lemma orderly_block:
  "list_all (orderly run) qs \<Longrightarrow> list_all queueable qs \<Longrightarrow> seq_run run qs x = (x', rs) \<Longrightarrow>
   fst (snd x) \<le> fst (snd x') \<and> (list_all q_quiet qs \<longrightarrow> concat (map snd rs) = [] \<and> fst (snd x') = fst (snd x)) \<and>
   prop_block run must qs x = (if must \<or> list_all q_quiet qs then [] else [(fst x, [ascii ''MULTI''])]) @ concat (map snd rs)"
proof (induction qs arbitrary: x rs must)
  case (Cons q qs)
  obtain x1 reps ps where st: "seq_step run q x = (x1, reps, ps)" by (metis prod_cases3)
  obtain rs1 where rs: "seq_run run qs x1 = (x', rs1)" "rs = (reps, ps) # rs1"
    using Cons.prems(3) st by (auto simp: Let_def split: prod.splits)
  have o: "fst (snd x) \<le> fst (snd x1)" "q_quiet q \<Longrightarrow> ps = [] \<and> fst (snd x1) = fst (snd x) \<and> fst x1 = fst x"
    using orderly_step [OF _ _ st] Cons.prems(1,2) by simp_all
  show ?case using Cons.IH [OF _ _ rs(1), of "must \<or> \<not> q_quiet q"] Cons.prems(1,2) o rs(2) st by (cases "q_quiet q") auto
qed simp

section \<open>Reachable states\<close>

text \<open>A key that a request makes a client watch is recorded with its value.\<close>

definition note_watch :: "'v tserver \<Rightarrow> 'v tserver \<Rightarrow> (nat \<Rightarrow> dbkey \<Rightarrow> 'v option) \<Rightarrow> nat \<Rightarrow> dbkey \<Rightarrow> 'v option" where
  "note_watch s s' snap c k =
     (if k \<in> set (t_watched (tclients s' c)) \<and> k \<notin> set (t_watched (tclients s c)) then t_data s k else snap c k)"

text \<open>Only the commands meant for it are queued, and outside a transaction nothing is.\<close>

definition tx_ok :: "'v tserver \<Rightarrow> bool" where
  "tx_ok s \<longleftrightarrow> (\<forall>c. list_all queueable (mstate (tclients s c)) \<and>
     (\<not> t_multi (tclients s c) \<longrightarrow> mstate (tclients s c) = [] \<and> \<not> t_dirty_exec (tclients s c)))"

text \<open>The states of a server whose clients connect, send requests and disconnect in any order, while its configuration, its
  role and its change counter may change in between. EXEC is not admitted while data is loaded, as the command table has it.\<close>

inductive treach :: "'v runner \<Rightarrow> (nat \<Rightarrow> dbkey \<Rightarrow> 'v option) \<Rightarrow> 'v tserver \<Rightarrow> bool" where
  treach_init: "watched_keys s = Map.empty \<Longrightarrow> server_clients s = [] \<Longrightarrow> (\<And>c. tx_idle (tclients s c)) \<Longrightarrow> treach run snap s"
| treach_connect: "treach run snap s \<Longrightarrow> c \<notin> set (server_clients s) \<Longrightarrow> treach run snap (createClient_multi c s)"
| treach_request: "treach run snap s \<Longrightarrow> c \<in> set (server_clients s) \<Longrightarrow> (q_proc q = CExec \<Longrightarrow> \<not> q_loading q) \<Longrightarrow> processCommand run k c q s = Some s' \<Longrightarrow>
    treach run (note_watch s s' snap) s'"
| treach_close: "treach run snap s \<Longrightarrow> c \<in> set (server_clients s) \<Longrightarrow> freeClient_multi c s = Some s' \<Longrightarrow> treach run snap s'"
| treach_config: "treach run snap s \<Longrightarrow>
    treach run snap (upd_t c (t_master_update (\<lambda>_. m)) (s\<lparr>srv_dirty := dy, srv_loading := ld, masterhost := mh, repl_slave_ro := ro\<rparr>))"

definition tx_inv :: "(nat \<Rightarrow> dbkey \<Rightarrow> 'v option) \<Rightarrow> 'v tserver \<Rightarrow> bool" where
  "tx_inv snap s \<longleftrightarrow> watch_ok s \<and> cas_ok snap s \<and> tx_ok s"

lemma others_tx: "others_same c s s' \<Longrightarrow> c' \<noteq> c \<Longrightarrow> mstate (tclients s' c') = mstate (tclients s c') \<and> t_multi (tclients s' c') = t_multi (tclients s c') \<and>
  t_dirty_exec (tclients s' c') = t_dirty_exec (tclients s c') \<and> t_watched (tclients s' c') = t_watched (tclients s c')"
  unfolding others_same_def by (cases "tclients s c'"; cases "tclients s' c'") (metis tclient.select_convs tclient.update_convs(3))

lemma tx_ok_step:
  assumes "tx_ok s" "others_same c s s'" "list_all queueable (mstate (tclients s' c))"
    "\<not> t_multi (tclients s' c) \<Longrightarrow> mstate (tclients s' c) = [] \<and> \<not> t_dirty_exec (tclients s' c)"
  shows "tx_ok s'"
  unfolding tx_ok_def using assms(1,3,4) others_tx [OF assms(2)] unfolding tx_ok_def by metis

lemma note_watch_fewer:
  assumes "cas_ok snap s'" "others_same c s s'" "set (t_watched (tclients s' c)) \<subseteq> set (t_watched (tclients s c))"
  shows "cas_ok (note_watch s s' snap) s'"
proof -
  have "set (t_watched (tclients s' x)) \<subseteq> set (t_watched (tclients s x))" for x
    using assms(3) others_tx [OF assms(2), of x] by (cases "x = c") auto
  then show ?thesis using assms(1) by (auto simp: cas_ok_def note_watch_def)
qed

text \<open>A step that leaves the watched keys of its client or drops them.\<close>

lemma tx_inv_step:
  assumes "tx_inv snap s" "watch_ok s'" "cas_ok snap s'" "others_same c s s'" "set (t_watched (tclients s' c)) \<subseteq> set (t_watched (tclients s c))"
    "list_all queueable (mstate (tclients s' c))" "\<not> t_multi (tclients s' c) \<Longrightarrow> mstate (tclients s' c) = [] \<and> \<not> t_dirty_exec (tclients s' c)"
  shows "tx_inv (note_watch s s' snap) s'"
  using assms tx_ok_step [OF _ assms(4,6,7)] note_watch_fewer [OF assms(3-5)] by (simp add: tx_inv_def)

text \<open>A step on the flags, the queue and the output of one client.\<close>

lemma tx_inv_upd:
  assumes "tx_inv snap s" "s' = upd_t c f s" "t_watched (f (tclients s c)) = t_watched (tclients s c)" "t_dirty_cas (f (tclients s c)) = t_dirty_cas (tclients s c)"
    "list_all queueable (mstate (f (tclients s c)))" "\<not> t_multi (f (tclients s c)) \<Longrightarrow> mstate (f (tclients s c)) = [] \<and> \<not> t_dirty_exec (f (tclients s c))"
  shows "tx_inv (note_watch s s' snap) s'"
proof (rule tx_inv_step [OF assms(1), where c = c])
  have "same_watch s s'" using assms(2,3) by (simp add: same_watch_def)
  then show "watch_ok s'" using assms(1) same_watch_ok by (auto simp: tx_inv_def)
  show "cas_ok snap s'" using assms(1-4) by (simp add: tx_inv_def cas_ok_def)
  show "others_same c s s'" using assms(2) by (simp add: others_same_def)
qed (use assms(2,3,5,6) in simp_all)

lemma reply_upd: "reply_t c rs (upd_t c f s) = upd_t c (\<lambda>cl. (f cl)\<lparr>t_out := t_out (f cl) @ rs\<rparr>) s"
  by (simp add: reply_t_def upd_t_def)

lemma watch_one:
  assumes "watch_ok s" "c \<in> set (server_clients s)"
  shows "watch_ok (watchForKey c key s)"
proof (cases "(t_db (tclients s c), key) \<in> set (t_watched (tclients s c))")
  case False
  define k where "k = (t_db (tclients s c), key)"
  define l where "l = (case watched_keys s k of None \<Rightarrow> [] | Some l \<Rightarrow> l)"
  have m: "x \<in> set (t_watched (tclients s c')) \<longleftrightarrow> (\<exists>l. watched_keys s x = Some l \<and> c' \<in> set l)" for x c' using assms(1) by (simp add: watch_ok_def)
  have l: "c' \<in> set l \<longleftrightarrow> k \<in> set (t_watched (tclients s c'))" for c' by (cases "watched_keys s k") (simp_all add: l_def m)
  have "distinct l" using assms(1) by (auto simp: watch_ok_def l_def split: option.split)
  moreover have "watchForKey c key s = upd_t c (t_watched_update (\<lambda>ks. ks @ [k])) (s\<lparr>watched_keys := (watched_keys s)(k \<mapsto> l @ [c])\<rparr>)"
    using False by (simp add: watchForKey_def Let_def k_def l_def)
  ultimately show ?thesis using assms l m False unfolding watch_ok_def k_def [symmetric] by auto
qed (use assms in \<open>simp add: watchForKey_def\<close>)

lemma watch_one_frame:
  "t_data (watchForKey c key s) = t_data s" "server_clients (watchForKey c key s) = server_clients s" "srv_dirty (watchForKey c key s) = srv_dirty s"
  "c' \<noteq> c \<Longrightarrow> tclients (watchForKey c key s) c' = tclients s c'"
  "(tclients (watchForKey c key s) c)\<lparr>t_watched := []\<rparr> = (tclients s c)\<lparr>t_watched := []\<rparr>"
  by (simp_all add: watchForKey_def Let_def)

lemma watch_keys:
  "watch_ok s \<Longrightarrow> c \<in> set (server_clients s) \<Longrightarrow> watch_ok (fold (watchForKey c) keys s) \<and> t_data (fold (watchForKey c) keys s) = t_data s \<and>
   server_clients (fold (watchForKey c) keys s) = server_clients s \<and> srv_dirty (fold (watchForKey c) keys s) = srv_dirty s \<and>
   (\<forall>c'. c' \<noteq> c \<longrightarrow> tclients (fold (watchForKey c) keys s) c' = tclients s c') \<and>
   (tclients (fold (watchForKey c) keys s) c)\<lparr>t_watched := []\<rparr> = (tclients s c)\<lparr>t_watched := []\<rparr>"
  by (induction keys arbitrary: s) (simp_all add: watch_one watch_one_frame)

lemma watch_command_ok:
  assumes "tx_inv snap s" "c \<in> set (server_clients s)"
  shows "tx_inv (note_watch s (watchCommand c keys s) snap) (watchCommand c keys s)"
proof (cases "t_multi (tclients s c)")
  case True
  show ?thesis
    by (rule tx_inv_upd [OF assms(1), where c = c and f = "\<lambda>cl. cl\<lparr>t_out := t_out cl @ [Error ''WATCH inside MULTI is not allowed'']\<rparr>"])
      (use True assms(1) in \<open>simp_all add: watchCommand_def reply_t_def tx_inv_def tx_ok_def\<close>)
next
  case False
  define s1 where "s1 = fold (watchForKey c) keys s"
  define s' where "s' = watchCommand c keys s"
  have w: "watch_ok s" using assms(1) by (simp add: tx_inv_def)
  note f = watch_keys [OF w assms(2), of keys, folded s1_def]
  have e: "s' = reply_t c [Shared ''ok''] s1" using False by (simp add: s'_def watchCommand_def s1_def)
  have same: "t_dirty_cas (tclients s1 c) = t_dirty_cas (tclients s c)" "mstate (tclients s1 c) = mstate (tclients s c)"
    "t_multi (tclients s1 c) = t_multi (tclients s c)" "t_dirty_exec (tclients s1 c) = t_dirty_exec (tclients s c)"
    using f by (cases "tclients s1 c"; cases "tclients s c"; simp)+
  have "same_watch s1 s'" by (simp add: e same_watch_def)
  then have "watch_ok s'" using f same_watch_ok by blast
  moreover have o: "others_same c s s'" using f by (simp add: e others_same_def)
  moreover have "t_dirty_cas (tclients s' x) = t_dirty_cas (tclients s x)" "t_data s' = t_data s" for x
    using f same(1) by (simp_all add: e)
  then have "cas_ok (note_watch s s' snap) s'" using assms(1) by (simp add: cas_ok_def note_watch_def tx_inv_def)
  moreover have "tx_ok s'"
    using assms(1) same by (intro tx_ok_step [OF _ o]) (simp_all add: e tx_inv_def tx_ok_def)
  ultimately show ?thesis by (simp add: tx_inv_def s'_def)
qed

lemma exec_command_ok:
  assumes "signals run" "tx_inv snap s" "\<not> srv_loading s"
  shows "\<exists>s'. execCommand run c s = Some s' \<and> tx_inv (note_watch s s' snap) s'"
proof (cases "t_multi (tclients s c)")
  case False
  then show ?thesis using tx_inv_upd [OF assms(2), of _ c "\<lambda>cl. cl\<lparr>t_out := t_out cl @ [Error ''EXEC without MULTI'']\<rparr>"] assms(2)
    by (simp add: execCommand_def Let_def reply_t_def tx_inv_def tx_ok_def)
next
  case True
  have w: "watch_ok s" "cas_ok snap s" "list_all queueable (mstate (tclients s c))" using assms(2) by (simp_all add: tx_inv_def tx_ok_def)
  obtain x' rs where sr: "seq_run run (mstate (tclients s c)) (tdata_of c s) = (x', rs)" by fastforce
  obtain s' where "execCommand run c s = Some s'" "watch_ok s'" "cas_ok snap s'" "others_same c s s'" "tx_idle (tclients s' c)"
    using exec_abort_ok [OF w(1,2) True assms(3), of run] exec_run_ok [OF assms(1) w(1,2) True assms(3) _ w(3) sr] by blast
  then show ?thesis using tx_inv_step [OF assms(2), of s' c] by (simp add: tx_idle_def)
qed

lemma call_same:
  "proc s = Some (s', argv) \<Longrightarrow> srv_dirty s' \<le> srv_dirty s \<Longrightarrow> call True c proc s = Some s'"
  by (simp add: call_def max_def)

lemma tx_inv_propagate [simp]: "tx_inv (note_watch s (propagate n a s') snap) (propagate n a s') = tx_inv (note_watch s s' snap) s'"
  by (simp add: tx_inv_def tx_ok_def cas_ok_def note_watch_def)

text \<open>Discarding, also with a reply before or after it.\<close>

lemma discard_inv:
  assumes "tx_inv snap s" "discardTransaction c s = Some s1" "watch_ok s1" "cas_ok snap s1" "discarded c s s1"
  shows "tx_inv (note_watch s (reply_t c rs s1) snap) (reply_t c rs s1)"
proof (rule tx_inv_step [OF assms(1), where c = c])
  have "same_watch s1 (reply_t c rs s1)" by (simp add: same_watch_def)
  then show "watch_ok (reply_t c rs s1)" by (rule same_watch_ok [OF assms(3)])
  show "cas_ok snap (reply_t c rs s1)" using assms(4) by (simp add: cas_ok_def)
qed (use assms(5) in \<open>auto simp: discarded_def others_same_def\<close>)

lemma cmd_ok:
  assumes "signals run" "tx_inv snap s" "c \<in> set (server_clients s)" "q_proc q \<noteq> CExec" "queueable q \<Longrightarrow> \<not> t_multi (tclients s c)"
  shows "\<exists>s'. call True c (cmd_proc run c q) s = Some s' \<and> tx_inv (note_watch s s' snap) s'"
proof -
  have w: "watch_ok s" "cas_ok snap s" "tx_ok s" using assms(2) by (simp_all add: tx_inv_def)
  have t: "list_all queueable (mstate (tclients s c))" "\<not> t_multi (tclients s c) \<longrightarrow> mstate (tclients s c) = [] \<and> \<not> t_dirty_exec (tclients s c)"
    using w(3) by (simp_all add: tx_ok_def)
  consider (q) "queueable q" | (m) "q_proc q = CMulti" | (d) "q_proc q = CDiscard" | (w) "q_proc q = CWatch" using assms(4) by (cases "q_proc q") auto
  then show ?thesis
  proof cases
    case q
    obtain x' reps ps where st: "seq_step run q (tdata_of c s) = (x', reps, ps)" by (metis prod_cases3)
    obtain s' where s': "call True c (cmd_proc run c q) s = Some s'" "watch_ok s'" "cas_ok snap s'" "called c s s' x' reps ps"
      using call_ok [OF assms(1) w(1,2) q st] by blast
    then show ?thesis using tx_inv_step [OF assms(2) s'(2,3), of c] t by (simp add: called_def)
  next
    case m
    define f where "f = (\<lambda>cl :: tclient. if t_multi cl then cl\<lparr>t_out := t_out cl @ [Error ''MULTI calls can not be nested'']\<rparr>
      else cl\<lparr>t_multi := True, t_out := t_out cl @ [Shared ''ok'']\<rparr>)"
    have "multiCommand c s = upd_t c f s" by (simp add: multiCommand_def f_def reply_t_def upd_t_def)
    moreover have "tx_inv (note_watch s (upd_t c f s) snap) (upd_t c f s)"
      by (rule tx_inv_upd [OF assms(2) refl]) (use t in \<open>auto simp: f_def\<close>)
    ultimately show ?thesis using m call_same [of "cmd_proc run c q" s "upd_t c f s" "q_argv q" c] by (simp add: cmd_proc_def)
  next
    case d
    show ?thesis
    proof (cases "t_multi (tclients s c)")
      case True
      obtain s1 where s1: "discardTransaction c s = Some s1" "watch_ok s1" "cas_ok snap s1" "discarded c s s1" using discard_ok [OF w(1,2)] by blast
      then show ?thesis using d True discard_inv [OF assms(2) s1] call_same [of "cmd_proc run c q" s "reply_t c [Shared ''ok''] s1" "q_argv q" c]
        by (simp add: cmd_proc_def discardCommand_def discarded_def)
    next
      case False
      then show ?thesis using d tx_inv_upd [OF assms(2), of _ c "\<lambda>cl. cl\<lparr>t_out := t_out cl @ [Error ''DISCARD without MULTI'']\<rparr>"] t
          call_same [of "cmd_proc run c q" s "reply_t c [Error ''DISCARD without MULTI''] s" "q_argv q" c]
        by (simp add: cmd_proc_def discardCommand_def reply_t_def)
    qed
  next
    case w
    have "srv_dirty (watchCommand c keys s) = srv_dirty s" for keys
      using watch_keys [of s c keys] assms(2,3) by (simp add: watchCommand_def tx_inv_def)
    then show ?thesis using w watch_command_ok [OF assms(2,3), of "tl (q_argv q)"]
        call_same [of "cmd_proc run c q" s "watchCommand c (tl (q_argv q)) s" "q_argv q" c] by (simp add: cmd_proc_def)
  qed
qed

lemma refused_ok:
  assumes "tx_inv snap s"
  shows "tx_inv (note_watch s (reply_t c [rep] (if flag then flagTransaction c s else s)) snap) (reply_t c [rep] (if flag then flagTransaction c s else s))"
proof -
  define f where "f = (\<lambda>cl :: tclient. cl\<lparr>t_dirty_exec := t_dirty_exec cl \<or> flag \<and> t_multi cl, t_out := t_out cl @ [rep]\<rparr>)"
  have "(tclients s c)\<lparr>t_dirty_exec := t_dirty_exec (tclients s c)\<rparr> = tclients s c" by simp
  then have e: "reply_t c [rep] (if flag then flagTransaction c s else s) = upd_t c f s"
    by (simp add: flagTransaction_def f_def reply_t_def upd_t_def)
  show ?thesis unfolding e by (rule tx_inv_upd [OF assms refl]) (use assms in \<open>auto simp: f_def tx_inv_def tx_ok_def\<close>)
qed

lemma processCommand_ok:
  assumes "signals run" "tx_inv snap s" "c \<in> set (server_clients s)" "q_proc q = CExec \<Longrightarrow> \<not> q_loading q"
  shows "\<exists>s'. processCommand run k c q s = Some s' \<and> tx_inv (note_watch s s' snap) s'"
proof (cases "refusal k c q s")
  case (Some r)
  obtain flag rep where r: "r = (flag, rep)" by fastforce
  obtain s1 where s1: "discardTransaction c s = Some s1" "watch_ok s1" "cas_ok snap s1" "discarded c s s1"
    using discard_ok assms(2) unfolding tx_inv_def by blast
  show ?thesis using Some r s1(1) discard_inv [OF assms(2) s1] refused_ok [OF assms(2)] by (simp add: processCommand_def)
next
  case None
  define f where "f = (\<lambda>cl :: tclient. cl\<lparr>mstate := mstate cl @ [q], t_out := t_out cl @ [Shared ''queued'']\<rparr>)"
  consider (q) "t_multi (tclients s c)" "queueable q" | (e) "q_proc q = CExec" | (c) "q_proc q \<noteq> CExec" "queueable q \<Longrightarrow> \<not> t_multi (tclients s c)" by fastforce
  then show ?thesis
  proof cases
    case q
    have "reply_t c [Shared ''queued''] (queueMultiCommand c q s) = upd_t c f s" by (cases "tclients s c") (simp add: f_def queueMultiCommand_def reply_t_def upd_t_def)
    moreover have "tx_inv (note_watch s (upd_t c f s) snap) (upd_t c f s)"
      by (rule tx_inv_upd [OF assms(2) refl]) (use assms(2) q in \<open>auto simp: f_def tx_inv_def tx_ok_def\<close>)
    ultimately show ?thesis using q None by (simp add: processCommand_def)
  next
    case e
    then have "\<not> srv_loading s" using None assms(4) by (auto simp: refusal_def Let_def split: if_splits)
    then obtain s' where "execCommand run c s = Some s'" "tx_inv (note_watch s s' snap) s'" using exec_command_ok [OF assms(1,2)] by blast
    then show ?thesis using None e by (simp add: processCommand_def call_def)
  next
    case c
    then show ?thesis using cmd_ok [OF assms(1-3) c] None by (auto simp: processCommand_def)
  qed
qed

lemma treach_ok: "treach run snap s \<Longrightarrow> signals run \<Longrightarrow> tx_inv snap s"
proof (induction rule: treach.induct)
  case (treach_init s run snap)
  then show ?case by (simp add: tx_inv_def watch_ok_def cas_ok_def tx_ok_def tx_idle_def)
next
  case (treach_connect run snap s c)
  then have w: "watch_ok s" "cas_ok snap s" "tx_ok s" by (simp_all add: tx_inv_def)
  define s' where "s' = createClient_multi c s"
  have e: "t_watched (tclients s c) = []" using w(1) treach_connect(2) by (auto simp: watch_ok_def)
  have x: "t_watched (tclients s' x) = t_watched (tclients s x)" "x \<noteq> c \<Longrightarrow> tclients s' x = tclients s x" for x
    using e by (simp_all add: s'_def createClient_multi_def initClientMultiState_def)
  have f: "watched_keys s' = watched_keys s" "server_clients s' = server_clients s @ [c]" "t_data s' = t_data s"
    "mstate (tclients s' c) = []" "\<not> t_dirty_exec (tclients s' c)" "\<not> t_multi (tclients s' c)"
    by (simp_all add: s'_def createClient_multi_def initClientMultiState_def)
  have "watch_ok s'" using w(1) unfolding watch_ok_def x(1) f by auto
  moreover have "cas_ok snap s'" using w(2) e x(2) unfolding cas_ok_def x(1) f(3) by (metis list.set(1) empty_iff)
  moreover have "tx_ok s'" using w(3) x(2) f(4-6) unfolding tx_ok_def by (metis list.pred_inject(1))
  ultimately show ?case by (simp add: tx_inv_def s'_def)
next
  case (treach_request run snap s c q k s')
  then show ?case using processCommand_ok [of run snap s c q k] by auto
next
  case (treach_close run snap s c s')
  then have w: "watch_ok s" by (simp add: tx_inv_def)
  obtain s1 where s1: "unwatchAllKeys c s = Some s1" "watch_ok s1" "unwatched c s s1" using unwatch_ok [OF w] by blast
  have s': "s' = s1\<lparr>server_clients := remove1 c (server_clients s1)\<rparr>" using treach_close(3) s1(1) by (simp add: freeClient_multi_def)
  note u = unwatched_simps [OF s1(3)]
  have "watch_ok s'" using s1(2) u(1) by (auto simp: watch_ok_def s')
  then show ?case using treach_close u by (simp add: tx_inv_def s' cas_ok_def tx_ok_def)
next
  case (treach_config run snap s c m dy ld mh ro)
  then show ?case by (simp add: tx_inv_def watch_ok_def cas_ok_def tx_ok_def)
qed

text \<open>An EXEC that passes the checks, with what \<^verbatim>\<open>call\<close> propagates for it.\<close>

lemma exec_called:
  "q_proc q = CExec \<Longrightarrow> refusal k c q s = None \<Longrightarrow>
   processCommand run k c q s = call True c (\<lambda>s. do { s1 \<leftarrow> execCommand run c s; Some (s1, q_argv q) }) s \<and> (\<not> q_loading q \<longrightarrow> \<not> srv_loading s)"
  by (auto simp: processCommand_def refusal_def Let_def split: if_splits)

lemma exec_runs:
  assumes "signals run" "tx_inv snap s" "t_multi (tclients s c)" "q_proc q = CExec" "\<not> q_loading q" "refusal k c q s = None" "\<not> exec_aborts c s"
    "seq_run run (mstate (tclients s c)) (tdata_of c s) = (x', rs)"
  shows "\<exists>s'. processCommand run k c q s = Some s' \<and> others_same c s s' \<and> tx_idle (tclients s' c) \<and> t_data s' = snd (snd x') \<and> t_db (tclients s' c) = fst x' \<and>
    t_out (tclients s' c) = t_out (tclients s c) @ MultiBulkLen (int (length (mstate (tclients s c)))) # concat (map fst rs) \<and>
    (list_all (orderly run) (mstate (tclients s c)) \<longrightarrow> t_prop s' = t_prop s @
       (if list_all q_quiet (mstate (tclients s c)) then []
        else (t_db (tclients s c), [ascii ''MULTI'']) # concat (map snd rs) @ [(fst x', q_argv q)]))"
proof -
  define qs where "qs = mstate (tclients s c)"
  have inv: "watch_ok s" "cas_ok snap s" "list_all queueable qs" using assms(2) by (simp_all add: tx_inv_def tx_ok_def qs_def)
  note pc = exec_called [OF assms(4,6), of run]
  have sr: "seq_run run qs (tdata_of c s) = (x', rs)" using assms(8) by (simp add: qs_def)
  obtain s1 where s1: "execCommand run c s = Some s1" "others_same c s s1" "tx_idle (tclients s1 c)" "t_data s1 = snd (snd x')"
    "t_db (tclients s1 c) = fst x'" "srv_dirty s1 = fst (snd x') + (if list_all q_quiet qs then 0 else 1)"
    "t_prop s1 = t_prop s @ prop_block run False qs (tdata_of c s)"
    "t_out (tclients s1 c) = t_out (tclients s c) @ MultiBulkLen (int (length qs)) # concat (map fst rs)"
    using exec_run_ok [OF assms(1) inv(1,2) assms(3) _ assms(7) inv(3) [unfolded qs_def] assms(8)] pc assms(5) unfolding qs_def by blast
  define s' where "s' = (if srv_dirty s < srv_dirty s1 then propagate (fst x') (q_argv q) s1 else s1)"
  have e: "processCommand run k c q s = Some s'" using pc s1(1,5) by (simp add: call_def s'_def max_def)
  have f: "others_same c s s'" "tclients s' c = tclients s1 c" "t_data s' = t_data s1" using s1(2) by (simp_all add: s'_def others_same_def)
  have "t_prop s' = t_prop s @ (if list_all q_quiet qs then []
      else (t_db (tclients s c), [ascii ''MULTI'']) # concat (map snd rs) @ [(fst x', q_argv q)])" if "list_all (orderly run) qs"
    using orderly_block [OF that inv(3) sr, of False] s1(6,7) by (auto simp: s'_def tdata_of_def)
  then show ?thesis using e f s1(3-5,8) unfolding qs_def by auto
qed


section \<open>Two clients\<close>

text \<open>A small set of commands: SET stores a value and raises the change counter, SAVE sets the counter to zero, PFCOUNT raises it
  although it is flagged as read-only, anything else does nothing.\<close>

definition demo_run :: "bytes runner" where
  "demo_run args db dy d =
     (if args ! 0 = ascii ''SET'' then (d((db, args ! 1) \<mapsto> args ! 2), [Modified (db, args ! 1)], dy + 1, args, [Shared ''ok''])
      else if args ! 0 = ascii ''SAVE'' then (d, [], 0, args, [Shared ''ok''])
      else if args ! 0 = ascii ''PFCOUNT'' then (d, [Modified (db, args ! 1)], dy + 1, args, [LongLong 1])
      else (d, [], dy, args, [NullBulk]))"

definition demo_cmd :: "string list \<Rightarrow> cproc \<Rightarrow> bool \<Rightarrow> bool \<Rightarrow> multiCmd" where
  "demo_cmd args p ro adm =
     \<lparr>q_argv = map ascii args, q_proc = p, q_write = (p = CData \<and> \<not> ro \<and> \<not> adm), q_readonly = ro, q_admin = adm, q_denyoom = False, q_stale = False, q_loading = False\<rparr>"

definition demo_conds :: conds where
  "demo_conds = \<lparr>k_unknown = None, k_arity = None, k_noauth = False, k_redirect = None, k_oom = False, k_disk = None, k_ping = False, k_few_slaves = False,
     k_pubsub = False, k_link_down = False, k_slow_script = False\<rparr>"

definition demo_init :: "bytes tserver" where
  "demo_init = \<lparr>tclients = \<lambda>_. \<lparr>t_db = 0, t_multi = False, t_dirty_cas = False, t_dirty_exec = False, t_master = False, mstate = [], t_watched = [], t_out = []\<rparr>,
     server_clients = [], watched_keys = Map.empty, t_data = \<lambda>_. None, t_prop = [], srv_dirty = 5, srv_loading = False, masterhost = False, repl_slave_ro = True\<rparr>"

definition demo_play :: "(nat \<times> multiCmd) list \<Rightarrow> bytes tserver" where
  "demo_play reqs = fold (\<lambda>(c, q) s. the (processCommand demo_run demo_conds c q s)) reqs (createClient_multi 1 (createClient_multi 0 demo_init))"

lemma demo_signals: "signals demo_run"
  by (simp add: signals_def demo_run_def)

lemma demo_start: "\<exists>snap. treach demo_run snap (demo_play [])"
proof -
  have "treach demo_run (\<lambda>_ _. None) demo_init" by (rule treach_init) (simp_all add: demo_init_def tx_idle_def)
  then have "treach demo_run (\<lambda>_ _. None) (createClient_multi 0 demo_init)" by (rule treach_connect) (simp add: demo_init_def)
  then have "treach demo_run (\<lambda>_ _. None) (createClient_multi 1 (createClient_multi 0 demo_init))"
    by (rule treach_connect) (simp add: demo_init_def createClient_multi_def)
  then show ?thesis by (auto simp: demo_play_def)
qed

lemma demo_step:
  assumes "\<exists>snap. treach demo_run snap (demo_play reqs)" "c \<in> set (server_clients (demo_play reqs))" "q_proc q \<noteq> CExec"
  shows "\<exists>snap. treach demo_run snap (demo_play (reqs @ [(c, q)]))"
proof -
  obtain snap where t: "treach demo_run snap (demo_play reqs)" using assms(1) by blast
  obtain s' where s': "processCommand demo_run demo_conds c q (demo_play reqs) = Some s'"
    using processCommand_ok [OF demo_signals treach_ok [OF t demo_signals] assms(2), of q demo_conds] assms(3) by blast
  then have "demo_play (reqs @ [(c, q)]) = s'" by (simp add: demo_play_def)
  then show ?thesis using treach_request [OF t assms(2) _ s'] assms(3) by auto
qed

text \<open>Client 0 watches a key and queues a write and a read; client 1 writes another key in between.\<close>

definition demo_reqs :: "(nat \<times> multiCmd) list" where
  "demo_reqs = [(0, demo_cmd [''WATCH'', ''x''] CWatch False False), (0, demo_cmd [''MULTI''] CMulti False False),
     (0, demo_cmd [''GET'', ''y''] CData True False), (1, demo_cmd [''SET'', ''y'', ''1''] CData False False),
     (0, demo_cmd [''SET'', ''x'', ''2''] CData False False)]"

lemma demo_reach: "\<exists>snap. treach demo_run snap (demo_play demo_reqs)"
proof -
  have "\<exists>snap. treach demo_run snap (demo_play (take n demo_reqs))" if "n \<le> 5" for n
    using that
  proof (induction n)
    case 0
    then show ?case using demo_start by simp
  next
    case (Suc n)
    have ok: "list_all (\<lambda>n. fst (demo_reqs ! n) \<in> set (server_clients (demo_play (take n demo_reqs))) \<and> q_proc (snd (demo_reqs ! n)) \<noteq> CExec) [0..<5]"
      by code_simp
    have "length demo_reqs = 5" by (simp add: demo_reqs_def)
    then have "take (Suc n) demo_reqs = take n demo_reqs @ [(fst (demo_reqs ! n), snd (demo_reqs ! n))]" using Suc.prems by (simp add: take_Suc_conv_app_nth)
    then show ?case using demo_step [of "take n demo_reqs" "fst (demo_reqs ! n)" "snd (demo_reqs ! n)"] Suc ok by (simp add: list_all_iff)
  qed
  from this [of 5] show ?thesis by (simp add: demo_reqs_def)
qed

definition demo_exec :: multiCmd where
  "demo_exec = demo_cmd [''exec''] CExec False False"

lemma demo_state:
  "t_multi (tclients (demo_play demo_reqs) 0)" "Option.is_none (refusal demo_conds 0 demo_exec (demo_play demo_reqs))" "\<not> exec_aborts 0 (demo_play demo_reqs)"
  "t_watched (tclients (demo_play demo_reqs) 0) = [(0, ascii ''x'')]" "q_proc demo_exec = CExec" "\<not> q_loading demo_exec"
  "length (mstate (tclients (demo_play demo_reqs) 0)) = 2" "\<not> list_all q_quiet (mstate (tclients (demo_play demo_reqs) 0))"
  "map snd (snd (seq_run demo_run (mstate (tclients (demo_play demo_reqs) 0)) (tdata_of 0 (demo_play demo_reqs)))) = [[], [(0, map ascii [''SET'', ''x'', ''2''])]]"
  "fst (fst (seq_run demo_run (mstate (tclients (demo_play demo_reqs) 0)) (tdata_of 0 (demo_play demo_reqs)))) = 0"
  "snd (snd (fst (seq_run demo_run (mstate (tclients (demo_play demo_reqs) 0)) (tdata_of 0 (demo_play demo_reqs))))) (0, ascii ''x'') = Some (ascii ''2'')"
  "t_db (tclients (demo_play demo_reqs) 0) = 0" "q_argv demo_exec = [ascii ''exec'']"
  by code_simp+

lemma demo_orderly: "list_all (orderly demo_run) (mstate (tclients (demo_play demo_reqs) 0))"
proof -
  have "mstate (tclients (demo_play demo_reqs) 0) = [demo_cmd [''GET'', ''y''] CData True False, demo_cmd [''SET'', ''x'', ''2''] CData False False]" by code_simp
  moreover have "ascii ''GET'' \<noteq> ascii ''SET''" "ascii ''GET'' \<noteq> ascii ''SAVE''" "ascii ''GET'' \<noteq> ascii ''PFCOUNT''" by code_simp+
  ultimately show ?thesis by (simp add: orderly_def demo_run_def demo_cmd_def)
qed


section \<open>Where the block is not closed\<close>

text \<open>The two assumptions on the change counter are needed: a SAVE in the queue sets it to zero, and MULTI is propagated without EXEC;
  PFCOUNT, flagged as read-only, raises it, and EXEC is propagated without MULTI.\<close>

lemma multi_without_exec:
  "t_prop (demo_play [(0, demo_cmd [''MULTI''] CMulti False False), (0, demo_cmd [''SET'', ''x'', ''2''] CData False False),
     (0, demo_cmd [''SAVE''] CData False True), (0, demo_exec)]) = [(0, [ascii ''MULTI'']), (0, map ascii [''SET'', ''x'', ''2''])]"
  by code_simp

lemma exec_without_multi:
  "t_prop (demo_play [(0, demo_cmd [''MULTI''] CMulti False False), (0, demo_cmd [''PFCOUNT'', ''x''] CData True False), (0, demo_exec)]) =
     [(0, map ascii [''PFCOUNT'', ''x'']), (0, [ascii ''exec''])]"
  by code_simp

text \<open>The checks that refuse a command and do not flag the transaction: a later EXEC runs the rest of the queue.\<close>

lemma refusal_unflagged:
  "refusal k c q s = Some (False, r) \<Longrightarrow>
     r = Shared ''roslaveerr'' \<or> r = Shared ''loadingerr'' \<or> r = Error ''only (P)SUBSCRIBE / (P)UNSUBSCRIBE / PING / QUIT allowed in this context''"
  by (auto simp: refusal_def Let_def split: if_splits)

end
