(* ===== verification/Lesson_Sort.thy ===== *)
theory Lesson_Sort
  imports Redis_Prelude "HOL-Library.Multiset"
begin

text \<open>
  The two sorting routines of lesson08 (bubble.cpp, select.cpp). The array is a list, an access outside it is \<^term>\<open>None\<close>; the
  bounds of the loops are computed with the sign of the source. Both are shown to sort the first \<open>len\<close> elements, to read
  and write only these, and so to be equivalent to each other and to the library's sort.
\<close>

section \<open>The routines\<close>

definition swap_at :: "int list \<Rightarrow> nat \<Rightarrow> nat \<Rightarrow> int list option" where
  "swap_at a i j = do { x \<leftarrow> nth_opt a i; y \<leftarrow> nth_opt a j; Some (if x > y then a[i := y, j := x] else a) }"

function bubble_inner :: "int list \<Rightarrow> nat \<Rightarrow> int \<Rightarrow> int list option" where
  "bubble_inner a j n = (if int j < n then case swap_at a j (j + 1) of None \<Rightarrow> None | Some a' \<Rightarrow> bubble_inner a' (j + 1) n else Some a)"
  by pat_completeness auto
termination by (relation "measure (\<lambda>(a, j, n). nat (n - int j))") auto

function bubble_outer :: "int list \<Rightarrow> nat \<Rightarrow> int \<Rightarrow> int list option" where
  "bubble_outer a i len =
     (if int i < len - 1 then case bubble_inner a 0 (len - 1 - int i) of None \<Rightarrow> None | Some a' \<Rightarrow> bubble_outer a' (i + 1) len else Some a)"
  by pat_completeness auto
termination by (relation "measure (\<lambda>(a, i, len). nat (len - int i))") auto

definition bubbleSort :: "int list \<Rightarrow> int \<Rightarrow> int list option" where
  "bubbleSort a len = bubble_outer a 0 len"

function select_inner :: "int list \<Rightarrow> nat \<Rightarrow> nat \<Rightarrow> int \<Rightarrow> int list option" where
  "select_inner a j i len = (if int i < len then case swap_at a j i of None \<Rightarrow> None | Some a' \<Rightarrow> select_inner a' j (i + 1) len else Some a)"
  by pat_completeness auto
termination by (relation "measure (\<lambda>(a, j, i, len). nat (len - int i))") auto

function select_outer :: "int list \<Rightarrow> nat \<Rightarrow> int \<Rightarrow> int list option" where
  "select_outer a j len =
     (if int j < len - 1 then case select_inner a j (j + 1) len of None \<Rightarrow> None | Some a' \<Rightarrow> select_outer a' (j + 1) len else Some a)"
  by pat_completeness auto
termination by (relation "measure (\<lambda>(a, j, len). nat (len - int j))") auto

definition selectSort :: "int list \<Rightarrow> int \<Rightarrow> int list option" where
  "selectSort a len = select_outer a 0 len"

declare bubble_inner.simps [simp del] bubble_outer.simps [simp del] select_inner.simps [simp del] select_outer.simps [simp del]

section \<open>Exchanging elements\<close>

text \<open>\<open>perm_in l h a b\<close>: \<open>b\<close> is \<open>a\<close> with the elements from \<open>l\<close> up to \<open>h\<close> reordered.\<close>

definition perm_in :: "nat \<Rightarrow> nat \<Rightarrow> int list \<Rightarrow> int list \<Rightarrow> bool" where
  "perm_in l h a b \<longleftrightarrow> length b = length a \<and> take l b = take l a \<and> drop h b = drop h a \<and>
     mset (drop l (take h b)) = mset (drop l (take h a))"

lemma perm_refl [simp]: "perm_in l h a a"
  by (simp add: perm_in_def)

lemma perm_trans: "perm_in l h a b \<Longrightarrow> perm_in l h b c \<Longrightarrow> perm_in l h a c"
  by (simp add: perm_in_def)

lemma perm_out: "perm_in l h a b \<Longrightarrow> p < length a \<Longrightarrow> p < l \<or> h \<le> p \<Longrightarrow> b ! p = a ! p"
proof -
  assume p: "perm_in l h a b" "p < length a" "p < l \<or> h \<le> p"
  then consider "p < l" | "h \<le> p" by auto
  then show "b ! p = a ! p"
  proof cases
    case 1
    then show ?thesis using p(1) nth_take [of p l b] nth_take [of p l a] by (simp add: perm_in_def del: nth_take)
  next
    case 2
    then show ?thesis using p nth_drop [of h b "p - h"] nth_drop [of h a "p - h"] by (auto simp: perm_in_def simp del: nth_drop)
  qed
qed

lemma perm_nth:
  assumes "perm_in l h a b" "l \<le> p" "p < h" "h \<le> length a"
  shows "\<exists>q. l \<le> q \<and> q < h \<and> b ! p = a ! q"
proof -
  have "set (drop l (take h b)) = set (drop l (take h a))" "length b = length a" using assms(1) by (auto simp: perm_in_def dest: mset_eq_setD)
  moreover have "b ! p \<in> set (drop l (take h b))" using assms calculation(2) by (auto simp: in_set_conv_nth intro!: exI [of _ "p - l"])
  ultimately obtain k where "k < length (drop l (take h a))" "drop l (take h a) ! k = b ! p" by (metis in_set_conv_nth)
  then show ?thesis using assms(4) by (intro exI [of _ "l + k"]) auto
qed

lemma swap_perm:
  assumes "l \<le> i" "i < j" "j < h" "h \<le> length a"
  shows "\<exists>b. swap_at a i j = Some b \<and> perm_in l h a b \<and> b ! i = min (a ! i) (a ! j) \<and> b ! j = max (a ! i) (a ! j) \<and>
    (\<forall>k < length a. k \<noteq> i \<longrightarrow> k \<noteq> j \<longrightarrow> b ! k = a ! k)"
proof -
  let ?b = "a[i := a ! j, j := a ! i]"
  define xs where "xs = drop l (take h a)"
  have "i - l < length xs" "j - l < length xs" "xs ! (i - l) = a ! i" "xs ! (j - l) = a ! j" using assms by (simp_all add: xs_def)
  then have "mset (xs[i - l := a ! j, j - l := a ! i]) = mset xs" using mset_swap [of "j - l" xs "i - l"] by simp
  moreover have "drop l (take h ?b) = xs[i - l := a ! j, j - l := a ! i]"
    using assms by (simp add: xs_def drop_update_swap take_update_swap)
  ultimately have "mset (drop l (take h ?b)) = mset (drop l (take h a))" by (simp add: xs_def)
  then have "perm_in l h a ?b" using assms by (simp add: perm_in_def)
  then show ?thesis using assms by (auto simp: swap_at_def nth_opt_def nth_list_update min_def max_def)
qed


section \<open>Bubble sort\<close>

lemma bubble_inner_ok:
  assumes "\<forall>k \<le> j. a ! k \<le> a ! j" "j \<le> n" "n < length a"
  shows "\<exists>b. bubble_inner a j (int n) = Some b \<and> perm_in 0 (n + 1) a b \<and> (\<forall>k \<le> n. b ! k \<le> b ! n)"
  using assms
proof (induction "n - j" arbitrary: a j)
  case 0
  then show ?case by (simp add: bubble_inner.simps)
next
  case (Suc m)
  have j: "j < n" "m = n - (j + 1)" using Suc.hyps(2) by linarith+
  then obtain b where b: "swap_at a j (j + 1) = Some b" "perm_in 0 (n + 1) a b" "b ! j = min (a ! j) (a ! (j + 1))" "b ! (j + 1) = max (a ! j) (a ! (j + 1))"
    "\<forall>k < length a. k \<noteq> j \<longrightarrow> k \<noteq> j + 1 \<longrightarrow> b ! k = a ! k"
    using swap_perm [of 0 j "j + 1" "n + 1" a] Suc.prems(3) by auto
  have len: "length b = length a" using b(2) by (simp add: perm_in_def)
  have "b ! k \<le> b ! (j + 1)" if k: "k \<le> j + 1" for k
  proof -
    consider "k = j + 1" | "k = j" | "k < j" using k by linarith
    then show ?thesis
    proof cases
      case 3
      then have "b ! k = a ! k" "a ! k \<le> a ! j" using b(5) Suc.prems by auto
      then show ?thesis using b(4) by simp
    qed (use b(3,4) in auto)
  qed
  then obtain c where "bubble_inner b (j + 1) (int n) = Some c" "perm_in 0 (n + 1) b c" "\<forall>k \<le> n. c ! k \<le> c ! n"
    using Suc.hyps(1) [OF j(2), of b] j(1) Suc.prems(3) len by auto
  then show ?case using b(1,2) perm_trans j(1) by (subst bubble_inner.simps) auto
qed

text \<open>After \<open>i\<close> passes the last \<open>i\<close> elements are in place.\<close>

lemma bubble_outer_ok:
  assumes "\<forall>p q. p \<le> q \<longrightarrow> N - i \<le> q \<longrightarrow> q < N \<longrightarrow> a ! p \<le> a ! q" "N \<le> length a"
  shows "\<exists>b. bubble_outer a i (int N) = Some b \<and> perm_in 0 N a b \<and> (\<forall>p q. p \<le> q \<longrightarrow> q < N \<longrightarrow> b ! p \<le> b ! q)"
  using assms
proof (induction "N - i" arbitrary: a i)
  case 0
  then show ?case by (intro exI [of _ a]) (auto simp: bubble_outer.simps)
next
  case (Suc m)
  show ?case
  proof (cases "i + 1 < N")
    case False
    have "a ! p \<le> a ! q" if "p \<le> q" "q < N" for p q
      using Suc.prems(1) that False by (cases "p = q") auto
    then show ?thesis using False by (intro exI [of _ a]) (auto simp: bubble_outer.simps)
  next
    case True
    have m: "m = N - (i + 1)" using Suc.hyps(2) by linarith
    define n where "n = N - 1 - i"
    have n: "int N - 1 - int i = int n" "n + 1 = N - i" "n < length a" using True Suc.prems(2) by (auto simp: n_def)
    obtain b where b: "bubble_inner a 0 (int n) = Some b" "perm_in 0 (n + 1) a b" "\<forall>k \<le> n. b ! k \<le> b ! n"
      using bubble_inner_ok [of 0 a n] n(3) by auto
    have len: "length b = length a" using b(2) by (simp add: perm_in_def)
    have "b ! p \<le> b ! q" if "p \<le> q" "N - (i + 1) \<le> q" "q < N" for p q
    proof (cases "q = n")
      case False
      then have q: "n + 1 \<le> q" using that n(2) by simp
      show ?thesis
      proof (cases "p < n + 1")
        case True
        obtain p' where "p' < n + 1" "b ! p = a ! p'" using perm_nth [OF b(2) _ True] n(3) by auto
        then show ?thesis using Suc.prems(1) q that(3) n(2) perm_out [OF b(2), of q] Suc.prems(2) by auto
      next
        case False
        then show ?thesis using Suc.prems q that n(2) perm_out [OF b(2), of q] perm_out [OF b(2), of p] by auto
      qed
    qed (use b(3) that in auto)
    then obtain c where "bubble_outer b (i + 1) (int N) = Some c" "perm_in 0 N b c" "\<forall>p q. p \<le> q \<longrightarrow> q < N \<longrightarrow> c ! p \<le> c ! q"
      using Suc.hyps(1) [of "i + 1" b] m Suc.prems(2) len by auto
    moreover have "perm_in 0 N a b"
    proof -
      have e: "take N xs = take (n + 1) xs @ take (N - (n + 1)) (drop (n + 1) xs)" for xs :: "int list"
        using take_add [of "n + 1" "N - (n + 1)" xs] n(2) by simp
      have "mset (take N b) = mset (take N a)" using b(2) e [of a] e [of b] by (simp add: perm_in_def)
      moreover have "drop N b = drop N a" using b(2) n(2) drop_drop [of "N - (n + 1)" "n + 1"] unfolding perm_in_def by (metis diff_le_self le_add_diff_inverse2)
      ultimately show ?thesis using b(2) by (simp add: perm_in_def)
    qed
    ultimately show ?thesis using b(1) n(1) True perm_trans by (subst bubble_outer.simps) auto
  qed
qed


section \<open>Selection sort\<close>

lemma select_inner_ok:
  assumes "\<forall>k. j \<le> k \<and> k < i \<longrightarrow> a ! j \<le> a ! k" "j < i" "i \<le> N" "N \<le> length a"
  shows "\<exists>b. select_inner a j i (int N) = Some b \<and> perm_in j N a b \<and> (\<forall>k. j \<le> k \<and> k < N \<longrightarrow> b ! j \<le> b ! k)"
  using assms
proof (induction "N - i" arbitrary: a i)
  case 0
  then show ?case by (simp add: select_inner.simps)
next
  case (Suc m)
  have i: "i < N" "m = N - (i + 1)" using Suc.hyps(2) by linarith+
  then obtain b where b: "swap_at a j i = Some b" "perm_in j N a b" "b ! j = min (a ! j) (a ! i)" "b ! i = max (a ! j) (a ! i)"
    "\<forall>k < length a. k \<noteq> j \<longrightarrow> k \<noteq> i \<longrightarrow> b ! k = a ! k"
    using swap_perm [of j j i N a] Suc.prems by auto
  have len: "length b = length a" using b(2) by (simp add: perm_in_def)
  have "b ! j \<le> b ! k" if k: "j \<le> k" "k < i + 1" for k
  proof -
    consider "k = j" | "k = i" | "j < k" "k < i" using k by linarith
    then show ?thesis
    proof cases
      case 3
      then have "b ! k = a ! k" "a ! j \<le> a ! k" using b(5) Suc.prems i(1) by auto
      then show ?thesis using b(3) by simp
    qed (use b(3,4) in auto)
  qed
  then obtain c where "select_inner b j (i + 1) (int N) = Some c" "perm_in j N b c" "\<forall>k. j \<le> k \<and> k < N \<longrightarrow> c ! j \<le> c ! k"
    using Suc.hyps(1) [OF i(2), of b] i(1) Suc.prems(2,4) len by auto
  then show ?case using b(1,2) perm_trans i(1) by (subst select_inner.simps) auto
qed

lemma perm_mono:
  assumes "perm_in l h a b" "k \<le> l" "h \<le> length a"
  shows "perm_in k h a b"
proof (cases "l \<le> h")
  case True
  have "drop k (take h xs) = drop k (take l xs) @ drop l (take h xs)" if "h \<le> length xs" for xs :: "int list"
  proof -
    have "take h xs = take l xs @ drop l (take h xs)" using True append_take_drop_id [of l "take h xs"] by (simp add: min_def)
    then show ?thesis using assms(2) that True by (metis append_take_drop_id drop_append diff_is_0_eq drop0 length_take min.absorb2 le_trans)
  qed
  moreover have "take k b = take k a" using assms(1,2) unfolding perm_in_def by (metis min.absorb1 take_take)
  ultimately show ?thesis using assms by (simp add: perm_in_def)
next
  case False
  then have "take h b = take h a" using assms(1) unfolding perm_in_def by (metis min.absorb1 nat_le_linear take_take)
  moreover have "take k b = take k a" using assms(1,2) unfolding perm_in_def by (metis min.absorb1 take_take)
  ultimately show ?thesis using assms by (simp add: perm_in_def)
qed

text \<open>After \<open>j\<close> passes the first \<open>j\<close> elements are in place.\<close>

lemma select_outer_ok:
  assumes "\<forall>p q. p \<le> q \<longrightarrow> p < j \<longrightarrow> q < N \<longrightarrow> a ! p \<le> a ! q" "N \<le> length a"
  shows "\<exists>b. select_outer a j (int N) = Some b \<and> perm_in 0 N a b \<and> (\<forall>p q. p \<le> q \<longrightarrow> q < N \<longrightarrow> b ! p \<le> b ! q)"
  using assms
proof (induction "N - j" arbitrary: a j)
  case 0
  then show ?case by (intro exI [of _ a]) (auto simp: select_outer.simps)
next
  case (Suc m)
  have m: "m = N - (j + 1)" "j < N" using Suc.hyps(2) by linarith+
  show ?case
  proof (cases "j + 1 < N")
    case False
    have "a ! p \<le> a ! q" if "p \<le> q" "q < N" for p q
      using Suc.prems(1) that False by (cases "p = q") auto
    then show ?thesis using False by (intro exI [of _ a]) (auto simp: select_outer.simps)
  next
    case True
    have first: "\<forall>k. j \<le> k \<and> k < j + 1 \<longrightarrow> a ! j \<le> a ! k" by (auto simp: less_Suc_eq_le dest: le_antisym)
    obtain b where b: "select_inner a j (j + 1) (int N) = Some b" "perm_in j N a b" "\<forall>k. j \<le> k \<and> k < N \<longrightarrow> b ! j \<le> b ! k"
      using select_inner_ok [of j "j + 1" a N] Suc.prems(2) True first by auto
    have len: "length b = length a" using b(2) by (simp add: perm_in_def)
    have "b ! p \<le> b ! q" if pq: "p \<le> q" "p < j + 1" "q < N" for p q
    proof (cases "p = j")
      case False
      then have p: "p < j" "b ! p = a ! p" using pq perm_out [OF b(2), of p] Suc.prems(2) by auto
      show ?thesis
      proof (cases "q < j")
        case True
        then show ?thesis using p Suc.prems pq perm_out [OF b(2), of q] by auto
      next
        case False
        then obtain q' where "j \<le> q'" "q' < N" "b ! q = a ! q'" using perm_nth [OF b(2), of q] pq(3) Suc.prems(2) by auto
        then show ?thesis using p Suc.prems(1) by auto
      qed
    qed (use b(3) pq in auto)
    then obtain c where "select_outer b (j + 1) (int N) = Some c" "perm_in 0 N b c" "\<forall>p q. p \<le> q \<longrightarrow> q < N \<longrightarrow> c ! p \<le> c ! q"
      using Suc.hyps(1) [OF m(1), of b] Suc.prems(2) len by auto
    then show ?thesis using b(1) True perm_trans [of 0 N a b] perm_mono [OF b(2), of 0] Suc.prems(2) by (subst select_outer.simps) auto
  qed
qed

section \<open>Both routines sort\<close>

lemma sorted_eq:
  assumes "perm_in 0 N a b" "\<forall>p q. p \<le> q \<longrightarrow> q < N \<longrightarrow> b ! p \<le> b ! q" "N \<le> length a"
  shows "b = sort (take N a) @ drop N a"
proof -
  have "sorted (take N b)" using assms(2) by (auto simp: sorted_iff_nth_mono)
  moreover have "mset (take N b) = mset (take N a)" "drop N b = drop N a" using assms(1) by (simp_all add: perm_in_def)
  ultimately have "take N b = sort (take N a)" by (metis properties_for_sort)
  then show ?thesis using append_take_drop_id [of N b] \<open>drop N b = drop N a\<close> by simp
qed

text \<open>
  Property C40. The two sorting routines of the lesson end, stay inside the array, and give the same result: the first \<open>len\<close> elements in ascending order, with
  the rest of the array untouched.
\<close>

theorem sorts_correct:
  assumes "0 \<le> len" "len \<le> int (length a)"
  shows "bubbleSort a len = Some (sort (take (nat len) a) @ drop (nat len) a) \<and> selectSort a len = Some (sort (take (nat len) a) @ drop (nat len) a)"
proof -
  define N where "N = nat len"
  have N: "len = int N" "N \<le> length a" using assms by (auto simp: N_def)
  obtain b where "bubbleSort a len = Some b" "b = sort (take N a) @ drop N a"
    using bubble_outer_ok [of N 0 a] sorted_eq N by (auto simp: bubbleSort_def)
  moreover obtain c where "selectSort a len = Some c" "c = sort (take N a) @ drop N a"
    using select_outer_ok [of 0 N a] sorted_eq N by (auto simp: selectSort_def)
  ultimately show ?thesis by (simp add: N_def)
qed

theorem sorts_correct_witness:
  "bubbleSort [12, 27, 55, 22, 67] 5 = Some [12, 22, 27, 55, 67] \<and> selectSort [12, 27, 55, 22, 67] 5 = Some [12, 22, 27, 55, 67]"
  using sorts_correct [of 5 "[12, 27, 55, 22, 67]"] by simp

end
